(* ===== verification/Probe_Prelude.thy ===== *)
theory Probe_Prelude
  imports Main "HOL-Library.Word" "HOL-Library.Sublist"
begin

text \<open>
  What the component theories share: the names of the C integer types, the
  outcome of a C function that may fail or leave the process, the C library
  functions on strings that the sources call, big-endian fields, and the bit
  lists used to specify codes.

  A C string is the \<^typ>\<open>string\<close> of its characters before the terminating NUL;
  reading the character at the index of its length yields NUL, as in C.  A
  \<^typ>\<open>char\<close> is one unsigned byte (the sources are compiled with
  \<^verbatim>\<open>-funsigned-char\<close>).  A binary buffer is a list of \<^typ>\<open>8 word\<close>.
\<close>

unbundle bit_operations_syntax

type_synonym u8 = "8 word"
type_synonym u16 = "16 word"
type_synonym u32 = "32 word"
type_synonym u64 = "64 word"
type_synonym bytes = "8 word list"

named_theorems cstring_simps \<open>evaluation of the C string functions\<close>
named_theorems word_bits \<open>bits of words, bytes and big-endian fields\<close>


section \<open>Outcomes\<close>

text \<open>
  \<open>Done x\<close>: the function returned \<open>x\<close>.  \<open>Fail\<close>: it returned its error value
  (\<open>-1\<close>, \<open>0\<close> or \<open>NULL\<close>, whichever the function uses).  \<open>Abort\<close>: the process
  does not continue: \<open>Fatal\<close> is an explicit exit of the program,
  \<open>Undefined\<close> an access or shift the C standard leaves undefined.
\<close>

datatype abort_reason = Fatal string | Undefined string

datatype 'a outcome = Done 'a | Fail | Abort abort_reason

definition bindO :: "'a outcome \<Rightarrow> ('a \<Rightarrow> 'b outcome) \<Rightarrow> 'b outcome" where
  "bindO m f = (case m of Done x \<Rightarrow> f x | Fail \<Rightarrow> Fail | Abort r \<Rightarrow> Abort r)"


section \<open>C strings\<close>

definition char_at :: "string \<Rightarrow> nat \<Rightarrow> char" where
  "char_at s i = (if i < length s then s ! i else CHR 0x00)"

definition is_space :: "char \<Rightarrow> bool" where
  "is_space c \<longleftrightarrow> c = CHR '' '' \<or> (9 \<le> (of_char c :: nat) \<and> (of_char c :: nat) \<le> 13)"

definition is_digit :: "char \<Rightarrow> bool" where
  "is_digit c \<longleftrightarrow> 48 \<le> (of_char c :: nat) \<and> (of_char c :: nat) \<le> 57"

fun strstr :: "string \<Rightarrow> string \<Rightarrow> nat option" where
  "strstr [] pat = (if pat = [] then Some 0 else None)"
| "strstr (c # s) pat =
     (if prefix pat (c # s) then Some 0 else map_option Suc (strstr s pat))"

definition has_substring :: "string \<Rightarrow> string \<Rightarrow> bool" where
  "has_substring s pat \<longleftrightarrow> strstr s pat \<noteq> None"

fun strspn :: "string \<Rightarrow> string \<Rightarrow> nat" where
  "strspn [] acc = 0"
| "strspn (c # s) acc = (if c \<in> set acc then Suc (strspn s acc) else 0)"

fun strchr :: "string \<Rightarrow> char \<Rightarrow> nat option" where
  "strchr [] c = None"
| "strchr (d # s) c = (if d = c then Some 0 else map_option Suc (strchr s c))"

text \<open>The C string that starts at the head of a list of characters.\<close>

definition c_string :: "string \<Rightarrow> string" where
  "c_string s = takeWhile (\<lambda>c. c \<noteq> CHR 0x00) s"

lemma c_string_NUL: "c_string (s @ CHR 0x00 # t) = c_string s"
  by (induction s) (simp_all add: c_string_def)

lemma c_string_id: "CHR 0x00 \<notin> set s \<Longrightarrow> c_string s = s"
  unfolding c_string_def by (auto simp: takeWhile_eq_all_conv)

lemma c_string_no_NUL [simp]: "CHR 0x00 \<notin> set (c_string s)"
  unfolding c_string_def by (auto dest: set_takeWhileD)

lemma strstr_None_iff [cstring_simps]: "strstr s pat = None \<longleftrightarrow> \<not> sublist pat s"
  by (induction s) (auto simp: sublist_Cons_right)

lemma has_substring_iff: "has_substring s pat \<longleftrightarrow> (\<exists>pre post. s = pre @ pat @ post)"
  by (simp add: has_substring_def strstr_None_iff sublist_def)

lemma strspn_eq_length_iff [cstring_simps]: "strspn s acc = length s \<longleftrightarrow> set s \<subseteq> set acc"
  by (induction s) auto

lemma strspn_le: "strspn s acc \<le> length s"
  by (induction s) auto

lemma strchr_Some_iff: "strchr s c = Some i \<longleftrightarrow> i < length s \<and> s ! i = c \<and> c \<notin> set (take i s)"
  by (induction s arbitrary: i) (auto simp: nth_Cons take_Cons split: nat.splits)

lemma strchr_None_iff: "strchr s c = None \<longleftrightarrow> c \<notin> set s"
  by (induction s) auto

lemma strchr_append: "c \<notin> set s \<Longrightarrow> strchr (s @ c # t) c = Some (length s)"
  by (induction s) auto

lemma strchr_SomeE:
  assumes "strchr s c = Some i"
  obtains a b where "s = a @ c # b" "c \<notin> set a" "length a = i"
  using assms by (auto simp: strchr_Some_iff id_take_nth_drop intro!: that[of "take i s" "drop (Suc i) s"])

lemma char_at_append [simp]: "char_at (xs @ ys) (length xs) = char_at ys 0"
  by (simp add: char_at_def nth_append)

lemma char_at_0: "char_at s 0 = (case s of [] \<Rightarrow> CHR 0x00 | c # _ \<Rightarrow> c)"
  by (simp add: char_at_def split: list.splits)


text \<open>A number printed with \<^verbatim>\<open>%lu\<close> or \<^verbatim>\<open>%d\<close>.\<close>

fun print_dec :: "nat \<Rightarrow> string" where
  "print_dec n = (if n < 10 then [char_of (48 + n)] else print_dec (n div 10) @ [char_of (48 + n mod 10)])"

declare print_dec.simps [simp del]

definition print_int :: "int \<Rightarrow> string" where
  "print_int i = (if i < 0 then CHR ''-'' # print_dec (nat (- i)) else print_dec (nat i))"

lemma print_dec_length: "n < 10 ^ Suc k \<Longrightarrow> length (print_dec n) \<le> Suc k"
proof (induction k arbitrary: n)
  case 0
  then show ?case by (subst print_dec.simps) simp
next
  case (Suc k)
  then have "n div 10 < 10 ^ Suc k" by (simp add: less_mult_imp_div_less)
  then show ?case using Suc.IH by (subst print_dec.simps) auto
qed

text \<open>The characters of a string as they lie in a buffer.\<close>

definition bytes_of :: "string \<Rightarrow> bytes" where
  "bytes_of s = map of_char s"

text \<open>What fits into a buffer of \<open>sz\<close> bytes with its NUL.\<close>

definition snprintf :: "nat \<Rightarrow> string \<Rightarrow> string" where
  "snprintf sz s = take (sz - 1) s"


section \<open>Lists\<close>

lemma take_eq_iff_prefix: "take (length p) s = p \<longleftrightarrow> prefix p s"
  by (metis append_eq_conv_conj prefix_def)

lemma split_at_first:
  "c \<notin> set a \<Longrightarrow> c \<notin> set b \<Longrightarrow> a @ c # x = b @ c # y \<longleftrightarrow> a = b \<and> x = y"
proof (induction a arbitrary: b)
  case Nil then show ?case by (cases b) auto
next
  case (Cons d a) then show ?case by (cases b) auto
qed


section \<open>Buffers\<close>

text \<open>\<open>memcpy\<close> into a buffer at a position.\<close>

definition blit :: "bytes \<Rightarrow> nat \<Rightarrow> bytes \<Rightarrow> bytes" where
  "blit buf pos d = take pos buf @ d @ drop (pos + length d) buf"

lemma length_blit: "pos + length d \<le> length b \<Longrightarrow> length (blit b pos d) = length b"
  by (simp add: blit_def)

lemma blit_append: "length d \<le> length z \<Longrightarrow> blit (m @ z) (length m) d = m @ d @ drop (length d) z"
  by (simp add: blit_def)

lemma blit_inner: "length d = length b \<Longrightarrow> blit (a @ b @ c) (length a) d = a @ d @ c"
  by (simp add: blit_def)


section \<open>Big-endian fields\<close>

text \<open>
  The value of a field in network byte order (\<open>ntohs\<close>, \<open>ntohl\<close> of the bytes as
  they lie in the buffer) and the bytes of a value (\<open>htons\<close>, \<open>htonl\<close>).
\<close>

definition be16 :: "u8 \<Rightarrow> u8 \<Rightarrow> u16" where
  "be16 a b = push_bit 8 (ucast a) OR ucast b"

definition be32 :: "u8 \<Rightarrow> u8 \<Rightarrow> u8 \<Rightarrow> u8 \<Rightarrow> u32" where
  "be32 a b c d =
     push_bit 24 (ucast a) OR push_bit 16 (ucast b) OR push_bit 8 (ucast c) OR ucast d"

definition to_be16 :: "u16 \<Rightarrow> bytes" where
  "to_be16 v = [ucast (drop_bit 8 v), ucast v]"

definition to_be32 :: "u32 \<Rightarrow> bytes" where
  "to_be32 v = [ucast (drop_bit 24 v), ucast (drop_bit 16 v), ucast (drop_bit 8 v), ucast v]"

lemma bit_be16 [word_bits]:
  "bit (be16 a b) n \<longleftrightarrow> n < 8 \<and> bit b n \<or> 8 \<le> n \<and> n < 16 \<and> bit a (n - 8)"
  by (auto simp: be16_def bit_simps dest: bit_imp_le_length)

lemma bit_be32 [word_bits]:
  "bit (be32 a b c d) n \<longleftrightarrow>
     n < 8 \<and> bit d n \<or> 8 \<le> n \<and> n < 16 \<and> bit c (n - 8) \<or>
     16 \<le> n \<and> n < 24 \<and> bit b (n - 16) \<or> 24 \<le> n \<and> n < 32 \<and> bit a (n - 24)"
  by (auto simp: be32_def bit_simps dest: bit_imp_le_length)

lemma be32_to_be32: "be32 (to_be32 v ! 0) (to_be32 v ! 1) (to_be32 v ! 2) (to_be32 v ! 3) = v"
proof (rule bit_word_eqI)
  fix n assume "n < LENGTH(32)"
  then consider "n < 8" | "8 \<le> n" "n < 16" | "16 \<le> n" "n < 24" | "24 \<le> n" "n < 32"
    by fastforce
  then show "bit (be32 (to_be32 v ! 0) (to_be32 v ! 1) (to_be32 v ! 2) (to_be32 v ! 3)) n = bit v n"
    by cases (auto simp: word_bits to_be32_def bit_simps)
qed

lemma be16_to_be16: "be16 (to_be16 v ! 0) (to_be16 v ! 1) = v"
  by (rule bit_word_eqI) (auto simp: word_bits to_be16_def bit_simps)

lemma to_be32_be32 [simp]: "to_be32 (be32 a b c d) = [a, b, c, d]"
  by (auto simp: to_be32_def intro!: bit_word_eqI) (auto simp: word_bits bit_simps)

lemma length_to_be32 [simp]: "length (to_be32 v) = 4" and length_to_be16 [simp]: "length (to_be16 w) = 2"
  by (simp_all add: to_be32_def to_be16_def)

lemma or_disjoint_add:
  fixes a b :: "'a::len word"
  shows "(\<And>n. \<not> (bit a n \<and> bit b n)) \<Longrightarrow> a OR b = a + b"
  by (metis disjunctive_add)

lemma unat_push_ucast:
  fixes a :: u8
  assumes "n + 8 \<le> LENGTH('b::len)"
  shows "unat (push_bit n (ucast a :: 'b word)) = unat a * 2 ^ n"
proof -
  have "unat a < 2 ^ 8" using unsigned_less[of a] by simp
  then have "unat a * 2 ^ n < 2 ^ 8 * 2 ^ n" by simp
  also have "(2::nat) ^ 8 * 2 ^ n \<le> 2 ^ LENGTH('b)"
    using assms by (metis add.commute one_le_numeral power_add power_increasing)
  finally have "unat a * 2 ^ n < 2 ^ LENGTH('b)" .
  moreover have "unat a < 2 ^ LENGTH('b)"
    using \<open>unat a < 2 ^ 8\<close> assms
    by (meson add_leD2 less_le_trans one_le_numeral power_increasing)
  ultimately show ?thesis
    by (simp only: unsigned_push_bit_eq unsigned_ucast_eq)
      (simp add: push_bit_eq_mult take_bit_nat_eq_self)
qed

lemma unat_be16: "unat (be16 a b) = unat a * 2 ^ 8 + unat b"
proof -
  have "be16 a b = push_bit 8 (ucast a) + push_bit 0 (ucast b)"
    unfolding be16_def by (subst or_disjoint_add) (auto simp: bit_simps dest: bit_imp_le_length)
  moreover have "unat a < 256" "unat b < 256" using unsigned_less[of a] unsigned_less[of b] by auto
  ultimately show ?thesis
    by (simp only: unat_word_ariths) (simp add: unat_push_ucast unsigned_ucast_eq take_bit_nat_eq_self)
qed

lemma unat_be32: "unat (be32 a b c d) = unat a * 2 ^ 24 + unat b * 2 ^ 16 + unat c * 2 ^ 8 + unat d"
proof -
  have "be32 a b c d = push_bit 24 (ucast a) + push_bit 16 (ucast b) + push_bit 8 (ucast c) + push_bit 0 (ucast d)"
    unfolding be32_def
    by (subst or_disjoint_add, fastforce simp: bit_simps dest: bit_imp_le_length)+
      (simp add: ac_simps)
  moreover have "unat a < 256" "unat b < 256" "unat c < 256" "unat d < 256"
    using unsigned_less[of a] unsigned_less[of b] unsigned_less[of c] unsigned_less[of d] by auto
  ultimately show ?thesis
    by (simp only: unat_word_ariths) (simp add: unat_push_ucast unsigned_ucast_eq take_bit_nat_eq_self)
qed

lemma unat_u8: "unat (b :: u8) < 256"
  using unsigned_less[of b, where ?'a = nat] by simp

lemma unat_u32: "unat (v :: u32) < 2 ^ 32"
  using unsigned_less[of v, where ?'a = nat] by simp

lemma unat_of_nat_u32: "n < 2 ^ 32 \<Longrightarrow> unat (of_nat n :: u32) = n"
  by (simp add: unsigned_of_nat take_bit_nat_eq_self)

lemma unat_drop_bit: "unat (drop_bit n (w :: 'a::len word)) = unat w div 2 ^ n"
proof -
  have "take_bit LENGTH('a) (unat w) = unat w" by (intro take_bit_nat_eq_self unsigned_less)
  then show ?thesis by (simp only: unsigned_drop_bit_eq) (simp only: drop_bit_eq_div)
qed

end
