(* ===== verification/Check_Addr.thy ===== *)
theory Check_Addr
  imports Probe_Prelude
begin

text \<open>
  \<^verbatim>\<open>libbb/atlas_check_addr.c\<close>: the filter that keeps measurements away from
  loopback, private, link-local and multicast destinations.  The lemmas turn
  the masks and the loops into the address ranges they stand for.
\<close>


section \<open>Model\<close>

record ipv4_prefix =
  addr4 :: u32
  len4 :: nat

definition bad_ipv4 :: "ipv4_prefix list" where
  "bad_ipv4 =
     [\<lparr>addr4 = 0x7F000000, len4 = 8\<rparr>,
      \<lparr>addr4 = 0x0A000000, len4 = 8\<rparr>,
      \<lparr>addr4 = 0xAC100000, len4 = 12\<rparr>,
      \<lparr>addr4 = 0xC0A80000, len4 = 16\<rparr>,
      \<lparr>addr4 = 0xA9FE0000, len4 = 16\<rparr>,
      \<lparr>addr4 = 0xE0000000, len4 = 4\<rparr>]"

record ipv6_prefix =
  addr6 :: "u16 list"
  len6 :: nat

definition bad_ipv6 :: "ipv6_prefix list" where
  "bad_ipv6 =
     [\<lparr>addr6 = [0x0000, 0x0000, 0x0000, 0x0000, 0x0000, 0x0000, 0x0000, 0x0001], len6 = 128\<rparr>,
      \<lparr>addr6 = [0x0000, 0x0000, 0x0000, 0x0000, 0x0000, 0xFFFF, 0x0000, 0x0000], len6 = 96\<rparr>,
      \<lparr>addr6 = [0xE000, 0x0000, 0x0000, 0x0000, 0x0000, 0x0000, 0x0000, 0x0000], len6 = 3\<rparr>]"

text \<open>
  A socket address by its family, with the address bytes as they lie in memory
  (network byte order); \<open>len\<close> arguments are the size the caller passes.
\<close>

datatype sockaddr =
    AF_INET u8 u8 u8 u8
  | AF_INET6 "(u8 \<times> u8) list"
  | AF_OTHER

definition sizeof_sockaddr_in :: nat where "sizeof_sockaddr_in = 16"
definition sizeof_sockaddr_in6 :: nat where "sizeof_sockaddr_in6 = 28"

definition ipv4_mask :: "nat \<Rightarrow> u32" where
  "ipv4_mask len = ucast (NOT (push_bit (32 - len) (1 :: u64) - 1))"

fun ipv4_bad :: "ipv4_prefix list \<Rightarrow> u32 \<Rightarrow> bool" where
  "ipv4_bad [] a = False"
| "ipv4_bad (p # ps) a = (if a AND ipv4_mask (len4 p) = addr4 p then True else ipv4_bad ps a)"

definition ipv6_mask :: "nat \<Rightarrow> u16" where
  "ipv6_mask prefix_len = ucast (NOT (push_bit (16 - prefix_len mod 16) (1 :: u64) - 1))"

text \<open>The inner loop over the 16-bit words of one prefix; True: the address matches.\<close>

function ipv6_match :: "u16 list \<Rightarrow> u16 list \<Rightarrow> nat \<Rightarrow> nat \<Rightarrow> bool" where
  "ipv6_match a p prefix_len j =
     (if j < prefix_len then
        (if j + 16 \<le> prefix_len then
           (if a ! (j div 16) \<noteq> p ! (j div 16) then False
            else ipv6_match a p prefix_len (j + 16))
         else a ! (j div 16) AND ipv6_mask prefix_len = p ! (j div 16))
      else True)"
  by pat_completeness auto
termination
  by (relation "measure (\<lambda>(a, p, l, j). l - j)") auto

fun ipv6_bad :: "ipv6_prefix list \<Rightarrow> u16 list \<Rightarrow> bool" where
  "ipv6_bad [] a = False"
| "ipv6_bad (p # ps) a = (if ipv6_match a (addr6 p) (len6 p) 0 then True else ipv6_bad ps a)"

text \<open>
  \<open>env\<close> is the value of \<open>ATLAS_DISABLE_CHECK_ADDR\<close>, \<open>allow_all\<close> the static
  variable that caches it (\<open>-1\<close> before the first call).  Result and new value of
  the static variable.
\<close>

definition atlas_check_addr :: "string option \<Rightarrow> int \<Rightarrow> sockaddr \<Rightarrow> nat \<Rightarrow> int \<times> int" where
  "atlas_check_addr env allow_all sa len =
     (let allow_all = (if allow_all = -1 then (if env = Some ''yes'' then 1 else 0) else allow_all);
          r = (if allow_all \<noteq> 0 then 0
               else case sa of
                 AF_INET a b c d \<Rightarrow>
                   (if len < sizeof_sockaddr_in then -1
                    else if ipv4_bad bad_ipv4 (be32 a b c d) then -1 else 0)
               | AF_INET6 ws \<Rightarrow>
                   (if len < sizeof_sockaddr_in6 then -1
                    else if ipv6_bad bad_ipv6 (map (\<lambda>(a, b). be16 a b) ws) then -1 else 0)
               | AF_OTHER \<Rightarrow> -1)
      in (r, allow_all))"


section \<open>Masks and ranges\<close>

declare ipv6_match.simps [simp del]

lemma exp_minus_1_mask: "push_bit n (1 :: 'a::len word) - 1 = mask n"
  by (simp add: mask_eq_exp_minus_1 push_bit_of_1)

lemma ipv4_mask_eq: "0 < n \<Longrightarrow> n \<le> 32 \<Longrightarrow> ipv4_mask n = NOT (mask (32 - n))"
  unfolding ipv4_mask_def exp_minus_1_mask
  by (rule bit_word_eqI) (auto simp: bit_simps)

lemma ipv6_mask_eq: "0 < n mod 16 \<Longrightarrow> ipv6_mask n = NOT (mask (16 - n mod 16))"
  unfolding ipv6_mask_def exp_minus_1_mask
  by (rule bit_word_eqI) (auto simp: bit_simps)

lemma masked_eq_iff:
  fixes a p :: "'a::len word"
  assumes "2 ^ n dvd unat p"
  shows "a AND NOT (mask n) = p \<longleftrightarrow> unat a div 2 ^ n = unat p div 2 ^ n"
proof -
  have "a AND NOT (mask n) = push_bit n (drop_bit n a)"
    by (rule bit_word_eqI) (auto simp: bit_simps)
  moreover have "unat (push_bit n (drop_bit n a)) = unat a div 2 ^ n * 2 ^ n"
  proof -
    have "unat a div 2 ^ n * 2 ^ n < 2 ^ LENGTH('a)"
      by (meson div_times_less_eq_dividend order_le_less_trans unsigned_less)
    then show ?thesis
      by (simp only: unsigned_push_bit_eq unsigned_drop_bit_eq)
        (simp add: drop_bit_eq_div push_bit_eq_mult take_bit_nat_eq_self)
  qed
  ultimately show ?thesis
    using assms by (metis dvd_div_mult_self nonzero_mult_div_cancel_right power_not_zero
        unsigned_word_eqI zero_neq_numeral)
qed


lemma ipv4_masked:
  assumes "0 < n" "n \<le> 32" and "2 ^ (32 - n) dvd unat p"
  shows "a AND ipv4_mask n = p \<longleftrightarrow> unat a div 2 ^ (32 - n) = unat p div 2 ^ (32 - n)"
  using masked_eq_iff[OF assms(3)] ipv4_mask_eq[OF assms(1,2)] by simp


section \<open>IPv4\<close>

text \<open>The refused destinations by their dotted quads.\<close>

definition private_ipv4 :: "u8 \<Rightarrow> u8 \<Rightarrow> bool" where
  "private_ipv4 a b \<longleftrightarrow>
     a = 127 \<or> a = 10 \<or> (a = 172 \<and> 16 \<le> b \<and> b \<le> 31) \<or> (a = 192 \<and> b = 168) \<or>
     (a = 169 \<and> b = 254) \<or> (224 \<le> a \<and> a \<le> 239)"

lemma byte_bounds: "unat (a :: u8) \<le> 255"
proof -
  have "unat a < 2 ^ LENGTH(8)" by (rule unsigned_less)
  then show ?thesis by simp
qed

lemma digits_eq:
  fixes m :: nat
  assumes "y < m" "y' < m"
  shows "x * m + y = x' * m + y' \<longleftrightarrow> x = x' \<and> y = y'"
proof
  assume e: "x * m + y = x' * m + y'"
  have "(x * m + y) div m = x" "(x' * m + y') div m = x'" using assms by simp_all
  with e show "x = x' \<and> y = y'" by simp
qed simp

lemma ipv4_bad_iff: "ipv4_bad bad_ipv4 (be32 a b c d) \<longleftrightarrow> private_ipv4 a b"
proof -
  have bounds: "unat a \<le> 255" "unat b \<le> 255" "unat c \<le> 255" "unat d \<le> 255"
    by (rule byte_bounds)+
  have q: "unat (be32 a b c d) div 2 ^ 24 = unat a"
    "unat (be32 a b c d) div 2 ^ 16 = unat a * 256 + unat b"
    "unat (be32 a b c d) div 2 ^ 20 = unat a * 16 + unat b div 16"
    "unat (be32 a b c d) div 2 ^ 28 = unat a div 16"
    using bounds by (simp_all add: unat_be32)
  have "ipv4_bad bad_ipv4 (be32 a b c d) \<longleftrightarrow>
     unat a = 127 \<or> unat a = 10 \<or> unat a * 16 + unat b div 16 = 2753 \<or>
     unat a * 256 + unat b = 49320 \<or> unat a * 256 + unat b = 43518 \<or> unat a div 16 = 14"
    using q by (simp add: bad_ipv4_def ipv4_masked)
  also have "\<dots> \<longleftrightarrow> private_ipv4 a b"
  proof -
    have "unat a * 16 + unat b div 16 = 2753 \<longleftrightarrow> unat a = 172 \<and> 16 \<le> unat b \<and> unat b \<le> 31"
      using bounds digits_eq[of "unat b div 16" 16 1 "unat a" 172] by fastforce
    moreover have "unat a * 256 + unat b = 49320 \<longleftrightarrow> unat a = 192 \<and> unat b = 168"
      using bounds digits_eq[of "unat b" 256 168 "unat a" 192] by simp
    moreover have "unat a * 256 + unat b = 43518 \<longleftrightarrow> unat a = 169 \<and> unat b = 254"
      using bounds digits_eq[of "unat b" 256 254 "unat a" 169] by simp
    moreover have "unat a div 16 = 14 \<longleftrightarrow> 224 \<le> unat a \<and> unat a \<le> 239"
      by linarith
    ultimately show ?thesis
      by (simp add: private_ipv4_def word_unat_eq_iff word_le_nat_alt)
  qed
  finally show ?thesis .
qed


section \<open>IPv6\<close>

text \<open>Loopback, IPv4-mapped, and everything whose first three bits are ones.\<close>

definition private_ipv6 :: "u16 list \<Rightarrow> bool" where
  "private_ipv6 ws \<longleftrightarrow>
     ws = [0, 0, 0, 0, 0, 0, 0, 1] \<or> take 6 ws = [0, 0, 0, 0, 0, 0xFFFF] \<or> 0xE000 \<le> hd ws"

lemma ipv6_masked3: "a AND ipv6_mask 3 = 0xE000 \<longleftrightarrow> 0xE000 \<le> a"
proof -
  have "unat a < 2 ^ LENGTH(16)" by (rule unsigned_less)
  then have "unat a div 8192 = 7 \<longleftrightarrow> 57344 \<le> unat a" by simp linarith
  moreover have "a AND ipv6_mask 3 = 0xE000 \<longleftrightarrow> unat a div 8192 = 7"
    using masked_eq_iff[of 13 "0xE000" a] by (simp add: ipv6_mask_eq)
  ultimately show ?thesis by (simp add: word_le_nat_alt)
qed

lemma list8E:
  assumes "length ws = 8"
  obtains a b c d e f g h where "ws = [a, b, c, d, e, f, g, h]"
  using assms by (auto simp: numeral_eq_Suc length_Suc_conv)

lemma ipv6_bad_iff:
  assumes "length ws = 8"
  shows "ipv6_bad bad_ipv6 ws \<longleftrightarrow> private_ipv6 ws"
  using assms
  by (elim list8E) (auto simp: bad_ipv6_def private_ipv6_def ipv6_match.simps ipv6_masked3)


section \<open>Properties\<close>

text \<open>
  C35: With the check enabled, a destination is allowed exactly when the socket
  address is long enough for its family and is an IPv4 address outside 127/8,
  10/8, 172.16/12, 192.168/16, 169.254/16 and 224/4, or an IPv6 address other
  than \<open>::1\<close> outside \<open>::ffff:0:0/96\<close> and \<open>e000::/3\<close>; any other family is refused.
\<close>

theorem atlas_check_addr_exact:
  assumes "\<And>ws. sa = AF_INET6 ws \<Longrightarrow> length ws = 8"
  shows "fst (atlas_check_addr env (-1) sa len) = 0 \<longleftrightarrow>
    env = Some ''yes'' \<or>
    (case sa of
       AF_INET a b c d \<Rightarrow> 16 \<le> len \<and> \<not> private_ipv4 a b
     | AF_INET6 ws \<Rightarrow> 28 \<le> len \<and> \<not> private_ipv6 (map (\<lambda>(a, b). be16 a b) ws)
     | AF_OTHER \<Rightarrow> False)"
  using assms
  by (cases sa) (auto simp: atlas_check_addr_def ipv4_bad_iff ipv6_bad_iff
      sizeof_sockaddr_in_def sizeof_sockaddr_in6_def)

theorem atlas_check_addr_exact_witness:
  "fst (atlas_check_addr None (-1) (AF_INET 193 0 6 139) 16) = 0 \<and>
   fst (atlas_check_addr None (-1) (AF_INET 172 20 0 1) 16) \<noteq> 0"
  using atlas_check_addr_exact[of "AF_INET 193 0 6 139" None 16]
    atlas_check_addr_exact[of "AF_INET 172 20 0 1" None 16]
  by (simp add: private_ipv4_def)

text \<open>The environment variable is read at the first call only.\<close>

lemma atlas_check_addr_cached:
  "atlas_check_addr env (-1) sa len = (r, st) \<Longrightarrow> atlas_check_addr env' st sa len = (r, st)"
  by (auto simp: atlas_check_addr_def Let_def split: if_splits)

end
