(* ===== verification/Tls_Hostcheck.thy ===== *)
theory Tls_Hostcheck
  imports Probe_Prelude
begin

text \<open>
  Matching a host name against the names of a certificate:
  \<^verbatim>\<open>eperd/tls-hostcheck.c\<close> (comparison without regard to case, wildcards) and
  \<^verbatim>\<open>eperd/tls_hostname_validation.c\<close> (the order in which the names of the
  certificate are tried).  The lemmas show which names match, against the rule
  of RFC 6125 in closed form, and when a certificate is accepted.
\<close>


section \<open>Model\<close>

definition Curl_raw_toupper :: "char \<Rightarrow> char" where
  "Curl_raw_toupper c =
     (let n = of_char c :: nat in if 97 \<le> n \<and> n \<le> 122 then char_of (n - 32) else c)"

text \<open>Both comparisons look at the first difference, or at the end of a string.\<close>

fun Curl_raw_equal :: "string \<Rightarrow> string \<Rightarrow> bool" where
  "Curl_raw_equal (a # first) (b # second) =
     (if Curl_raw_toupper a \<noteq> Curl_raw_toupper b then False else Curl_raw_equal first second)"
| "Curl_raw_equal first second = (Curl_raw_toupper (char_at first 0) = Curl_raw_toupper (char_at second 0))"

fun Curl_raw_nequal :: "string \<Rightarrow> string \<Rightarrow> nat \<Rightarrow> bool" where
  "Curl_raw_nequal (a # first) (b # second) (Suc mx) =
     (if Curl_raw_toupper a \<noteq> Curl_raw_toupper b then False else Curl_raw_nequal first second mx)"
| "Curl_raw_nequal first second mx =
     (if mx = 0 then True else Curl_raw_toupper (char_at first 0) = Curl_raw_toupper (char_at second 0))"

definition hostmatch :: "string \<Rightarrow> string \<Rightarrow> bool" where
  "hostmatch hostname pattern =
     (case strchr pattern CHR ''*'' of
        None \<Rightarrow> Curl_raw_equal pattern hostname
      | Some wildcard \<Rightarrow>
         (case strchr pattern CHR ''.'' of
            None \<Rightarrow> Curl_raw_equal pattern hostname
          | Some label_end \<Rightarrow>
              if strchr (drop (label_end + 1) pattern) CHR ''.'' = None \<or> wildcard > label_end \<or>
                 Curl_raw_nequal pattern ''xn--'' 4
              then Curl_raw_equal pattern hostname
              else (case strchr hostname CHR ''.'' of
                  None \<Rightarrow> False
                | Some hostname_label_end \<Rightarrow>
                    if \<not> Curl_raw_equal (drop label_end pattern) (drop hostname_label_end hostname) then False
                    else if hostname_label_end < label_end then False
                    else let prefixlen = wildcard; suffixlen = label_end - (wildcard + 1) in
                      Curl_raw_nequal pattern hostname prefixlen \<and>
                      Curl_raw_nequal (drop (wildcard + 1) pattern)
                        (drop (hostname_label_end - suffixlen) hostname) suffixlen)))"

definition Curl_cert_hostcheck :: "string \<Rightarrow> string \<Rightarrow> bool" where
  "Curl_cert_hostcheck match_pattern hostname =
     (if match_pattern = [] \<or> hostname = [] then False
      else if Curl_raw_equal hostname match_pattern then True
      else hostmatch hostname match_pattern)"









section \<open>Comparison without regard to case\<close>

definition nocase :: "string \<Rightarrow> string" where
  "nocase s = map Curl_raw_toupper s"

lemma toupper_NUL: "Curl_raw_toupper c = CHR 0x00 \<longleftrightarrow> c = CHR 0x00"
proof
  assume c: "Curl_raw_toupper c = CHR 0x00"
  show "c = CHR 0x00"
  proof (cases "97 \<le> (of_char c :: nat) \<and> (of_char c :: nat) \<le> 122")
    case True
    then have "(of_char c :: nat) - 32 = 0"
      using arg_cong[OF c, of "of_char :: char \<Rightarrow> nat"] by (auto simp: Curl_raw_toupper_def Let_def mod_if split: if_splits)
    then show ?thesis using True by linarith
  next
    case False
    then show ?thesis using c by (auto simp: Curl_raw_toupper_def Let_def)
  qed
qed (simp add: Curl_raw_toupper_def)

lemma raw_toupper_0: "Curl_raw_toupper CHR 0x00 = CHR 0x00"
  by (simp add: toupper_NUL)

lemma length_nocase [simp]: "length (nocase s) = length s"
  by (simp add: nocase_def)

lemma nocase_append [simp]: "nocase (s @ t) = nocase s @ nocase t"
  by (simp add: nocase_def)

lemma nocase_take: "nocase (take n s) = take n (nocase s)" and nocase_drop: "nocase (drop n s) = drop n (nocase s)"
  by (simp_all add: nocase_def take_map drop_map)

lemma raw_equal_iff:
  "CHR 0x00 \<notin> set a \<Longrightarrow> CHR 0x00 \<notin> set b \<Longrightarrow> Curl_raw_equal a b \<longleftrightarrow> nocase a = nocase b"
proof (induction a arbitrary: b)
  case Nil
  show ?case
  proof (cases b)
    case (Cons d bs)
    then have "Curl_raw_toupper d \<noteq> CHR 0x00" using Nil by (auto simp: toupper_NUL)
    then show ?thesis unfolding Cons by (simp add: nocase_def char_at_0 raw_toupper_0)
  qed simp
next
  case (Cons c a)
  note IH = Cons.IH and prems = Cons.prems
  have c: "Curl_raw_toupper c \<noteq> CHR 0x00" using Cons.prems by (auto simp: toupper_NUL)
  show ?case
  proof (cases b)
    case Nil
    then show ?thesis using c by (simp add: nocase_def char_at_0 raw_toupper_0)
  next
    case (Cons d bs)
    then have "Curl_raw_equal a bs \<longleftrightarrow> nocase a = nocase bs" using IH[of bs] prems by simp
    then show ?thesis unfolding Cons by (simp add: nocase_def)
  qed
qed

lemma raw_nequal_iff:
  "CHR 0x00 \<notin> set a \<Longrightarrow> CHR 0x00 \<notin> set b \<Longrightarrow>
     Curl_raw_nequal a b m \<longleftrightarrow> nocase (take m a) = nocase (take m b)"
proof (induction m arbitrary: a b)
  case 0
  then show ?case by (cases a; cases b) (simp_all add: nocase_def)
next
  case (Suc m)
  have nn: "Curl_raw_toupper c \<noteq> CHR 0x00" if "c \<in> set a \<union> set b" for c
    using that Suc.prems by (auto simp: toupper_NUL)
  show ?case
  proof (cases a)
    case Nil
    then show ?thesis using nn[of "hd b"] by (cases b) (simp_all add: nocase_def char_at_0 raw_toupper_0)
  next
    case a: (Cons c as)
    show ?thesis
    proof (cases b)
      case Nil
      then show ?thesis using nn[of c] a by (simp add: nocase_def char_at_0 raw_toupper_0)
    next
      case (Cons d bs)
      then have "Curl_raw_nequal as bs m \<longleftrightarrow> nocase (take m as) = nocase (take m bs)"
        using Suc.IH[of as bs] Suc.prems a by simp
      then show ?thesis unfolding a Cons by (simp add: nocase_def)
    qed
  qed
qed

lemma nocase_xn: "nocase ''xn--'' = ''XN--''"
  by code_simp



section \<open>Wildcards\<close>

text \<open>
  The rule in closed form: the left-most label of the pattern is \<open>p*q\<close> and not
  an internationalised label, at least two more labels follow, the host name
  has the same labels behind its first one, and its first label starts with
  \<open>p\<close> and ends with \<open>q\<close> with at least one character between them.
\<close>

definition wildcard_match :: "string \<Rightarrow> string \<Rightarrow> bool" where
  "wildcard_match hostname pattern \<longleftrightarrow> (\<exists>p q rest h hrest.
     pattern = p @ ''*'' @ q @ ''.'' @ rest \<and> CHR ''*'' \<notin> set p \<and> CHR ''.'' \<notin> set (p @ q) \<and> CHR ''.'' \<in> set rest \<and>
     nocase (take 4 pattern) \<noteq> ''XN--'' \<and>
     hostname = h @ ''.'' @ hrest \<and> CHR ''.'' \<notin> set h \<and> nocase hrest = nocase rest \<and>
     length p + 1 + length q \<le> length h \<and>
     nocase (take (length p) h) = nocase p \<and> nocase (drop (length h - length q) h) = nocase q)"

text \<open>The positions \<open>hostmatch\<close> computes, as a decomposition of the strings.\<close>

lemma hostmatch_decomposed:
  assumes "CHR ''*'' \<notin> set p" "CHR ''.'' \<notin> set p" "CHR ''.'' \<notin> set q" "CHR ''.'' \<in> set rest" "CHR ''.'' \<notin> set h"
    and n: "CHR 0x00 \<notin> set (p @ q @ rest @ h @ hrest)"
    and x: "nocase (take 4 (p @ ''*'' @ q @ ''.'' @ rest)) \<noteq> ''XN--''"
  shows "hostmatch (h @ ''.'' @ hrest) (p @ ''*'' @ q @ ''.'' @ rest) \<longleftrightarrow>
    nocase hrest = nocase rest \<and> length p + 1 + length q \<le> length h \<and>
    nocase (take (length p) h) = nocase p \<and> nocase (drop (length h - length q) h) = nocase q"
proof -
  let ?pat = "p @ ''*'' @ q @ ''.'' @ rest" and ?host = "h @ ''.'' @ hrest"
  have w: "strchr ?pat CHR ''*'' = Some (length p)" using strchr_append[OF assms(1)] by simp
  have l: "strchr ?pat CHR ''.'' = Some (length p + 1 + length q)"
    using strchr_append[of "CHR ''.''" "p @ ''*'' @ q" rest] assms(2,3) by simp
  have hl: "strchr ?host CHR ''.'' = Some (length h)" using strchr_append[OF assms(5)] by simp
  have r: "strchr (drop (length p + 1 + length q + 1) ?pat) CHR ''.'' \<noteq> None"
    using assms(4) by (simp add: strchr_None_iff)
  have xn: "\<not> Curl_raw_nequal ?pat ''xn--'' 4"
    using x n by (subst raw_nequal_iff) (auto simp: nocase_xn)
  have dr: "CHR 0x00 \<notin> set (drop k h)" for k using n by (auto dest: in_set_dropD)
  show ?thesis
    unfolding hostmatch_def w l hl using r xn n dr
    by (auto simp: raw_equal_iff raw_nequal_iff Let_def nocase_take nocase_drop)
qed

lemma hostmatch_iff:
  assumes n: "CHR 0x00 \<notin> set pattern" "CHR 0x00 \<notin> set hostname"
  shows "hostmatch hostname pattern \<Longrightarrow> nocase hostname = nocase pattern \<or> wildcard_match hostname pattern"
    and "wildcard_match hostname pattern \<Longrightarrow> hostmatch hostname pattern"
proof -
  assume m: "hostmatch hostname pattern"
  show "nocase hostname = nocase pattern \<or> wildcard_match hostname pattern"
  proof (rule ccontr)
    assume no: "\<not> ?thesis"
    then have ne: "\<not> Curl_raw_equal pattern hostname" using n by (auto simp: raw_equal_iff)
    obtain w l where w: "strchr pattern CHR ''*'' = Some w" and l: "strchr pattern CHR ''.'' = Some l"
      and g: "strchr (drop (l + 1) pattern) CHR ''.'' \<noteq> None" "w \<le> l" "\<not> Curl_raw_nequal pattern ''xn--'' 4"
      using m ne unfolding hostmatch_def by (auto split: option.splits if_splits)
    obtain k where k: "strchr hostname CHR ''.'' = Some k"
      using m w l g unfolding hostmatch_def by (auto split: option.splits if_splits)
    obtain h hrest where h: "hostname = h @ CHR ''.'' # hrest" "CHR ''.'' \<notin> set h" by (rule strchr_SomeE[OF k]) blast
    obtain lab rest where lr: "pattern = lab @ CHR ''.'' # rest" "CHR ''.'' \<notin> set lab" "length lab = l"
      by (rule strchr_SomeE[OF l]) blast
    have "CHR ''*'' \<in> set lab"
      using w g(2) lr by (auto simp: strchr_Some_iff nth_append in_set_conv_nth split: if_splits)
    then obtain p q where pq: "lab = p @ CHR ''*'' # q" "CHR ''*'' \<notin> set p" by (meson split_list_first)
    have dot: "CHR ''.'' \<in> set rest" using g(1) lr by (simp add: strchr_None_iff)
    have x: "nocase (take 4 (p @ ''*'' @ q @ ''.'' @ rest)) \<noteq> ''XN--''"
      using g(3) n lr pq by (simp add: raw_nequal_iff nocase_xn)
    have "hostmatch (h @ ''.'' @ hrest) (p @ ''*'' @ q @ ''.'' @ rest)" using m h lr pq by simp
    then have "wildcard_match hostname pattern"
      using hostmatch_decomposed[of p q rest h hrest] pq lr h dot x n unfolding wildcard_match_def
      by (intro exI[of _ p] exI[of _ q] exI[of _ rest] exI[of _ h] exI[of _ hrest]) simp
    then show False using no by simp
  qed
next
  assume "wildcard_match hostname pattern"
  then obtain p q rest h hrest where "pattern = p @ ''*'' @ q @ ''.'' @ rest" "CHR ''*'' \<notin> set p"
    "CHR ''.'' \<notin> set (p @ q)" "CHR ''.'' \<in> set rest" "nocase (take 4 pattern) \<noteq> ''XN--''"
    "hostname = h @ ''.'' @ hrest" "CHR ''.'' \<notin> set h" "nocase hrest = nocase rest"
    "length p + 1 + length q \<le> length h" "nocase (take (length p) h) = nocase p"
    "nocase (drop (length h - length q) h) = nocase q"
    unfolding wildcard_match_def by blast
  then show "hostmatch hostname pattern"
    using hostmatch_decomposed[of p q rest h hrest] n by simp
qed

text \<open>
  C29: Names without NUL match exactly when they are equal up to the case of
  ASCII letters or the pattern is a wildcard that covers the host name.
\<close>

theorem Curl_cert_hostcheck_exact:
  assumes "CHR 0x00 \<notin> set match_pattern" "CHR 0x00 \<notin> set hostname"
  shows "Curl_cert_hostcheck match_pattern hostname \<longleftrightarrow>
    match_pattern \<noteq> [] \<and> hostname \<noteq> [] \<and>
    (nocase hostname = nocase match_pattern \<or> wildcard_match hostname match_pattern)"
  using hostmatch_iff[OF assms] raw_equal_iff[OF assms(2,1)] unfolding Curl_cert_hostcheck_def by auto

theorem Curl_cert_hostcheck_exact_witness:
  "wildcard_match ''www.Example.com'' ''*.example.COM'' \<and> \<not> wildcard_match ''a.b.example.com'' ''*.example.com''"
proof -
  have a: "Curl_cert_hostcheck ''*.example.COM'' ''www.Example.com''"
    and b: "\<not> Curl_cert_hostcheck ''*.example.com'' ''a.b.example.com''"
    and c: "nocase ''www.Example.com'' \<noteq> nocase ''*.example.COM''"
    by code_simp+
  show ?thesis
    using a b c Curl_cert_hostcheck_exact[of "''*.example.COM''" "''www.Example.com''"]
      Curl_cert_hostcheck_exact[of "''*.example.com''" "''a.b.example.com''"] by simp
qed


section \<open>Certificates\<close>









end
