(* ===== verification/Byte_Sink.thy ===== *)
theory Byte_Sink
  imports Probe_Prelude
begin

text \<open>
  The contract of a growing byte buffer, as its writers use it: adding bytes
  appends them to what the buffer holds, and keeps the buffer well formed.  Two
  components provide it: the \<open>struct buf\<close> of \<^verbatim>\<open>libbb/atlas_bb64.c\<close> and the
  header block of \<^verbatim>\<open>eperd/http2.c\<close>.
\<close>

locale byte_sink =
  fixes add :: "'s \<Rightarrow> bytes \<Rightarrow> 's"
    and contents :: "'s \<Rightarrow> bytes"
    and ok :: "'s \<Rightarrow> bool"
  assumes contents_add: "ok s \<Longrightarrow> contents (add s bs) = contents s @ bs"
    and ok_add: "ok s \<Longrightarrow> ok (add s bs)"
begin

lemma ok_foldl: "ok s \<Longrightarrow> ok (foldl add s chunks)"
  by (induction chunks arbitrary: s) (auto intro: ok_add)

lemma contents_foldl: "ok s \<Longrightarrow> contents (foldl add s chunks) = contents s @ concat chunks"
  by (induction chunks arbitrary: s) (auto simp: contents_add ok_add)

lemma contents_grow: "ok s \<Longrightarrow> prefix (contents s) (contents (add s bs))"
  by (simp add: contents_add)

lemma contents_two: "ok s \<Longrightarrow> contents (add (add s bs) cs) = contents s @ bs @ cs"
  by (simp add: contents_add ok_add)

end

end
