(* ===== verification/Http2_Env.thy ===== *)
theory Http2_Env
  imports Byte_Sink
begin

text \<open>
  The connection state of the HTTP/2 client (\<open>struct http2_env\<close> of
  \<^verbatim>\<open>eperd/http2.c\<close>), the result type of its functions, frame headers, the
  writing of frames, and the header block under construction.  The lemmas show
  that the header block is a byte sink, that frame headers can be read back, and
  which functions keep the state well formed.
\<close>


section \<open>Constants\<close>

definition HTTP2_HDR_TYPE_DATA :: u8 where "HTTP2_HDR_TYPE_DATA = 0"
definition HTTP2_HDR_TYPE_HEADERS :: u8 where "HTTP2_HDR_TYPE_HEADERS = 1"
definition HTTP2_HDR_TYPE_RST_STREAM :: u8 where "HTTP2_HDR_TYPE_RST_STREAM = 3"
definition HTTP2_HDR_TYPE_SETTINGS :: u8 where "HTTP2_HDR_TYPE_SETTINGS = 4"
definition HTTP2_HDR_TYPE_PING :: u8 where "HTTP2_HDR_TYPE_PING = 6"
definition HTTP2_HDR_TYPE_GOAWAY :: u8 where "HTTP2_HDR_TYPE_GOAWAY = 7"
definition HTTP2_HDR_TYPE_WINDOW_UPDATE :: u8 where "HTTP2_HDR_TYPE_WINDOW_UPDATE = 8"

lemmas frame_types = HTTP2_HDR_TYPE_DATA_def HTTP2_HDR_TYPE_HEADERS_def
  HTTP2_HDR_TYPE_RST_STREAM_def HTTP2_HDR_TYPE_SETTINGS_def HTTP2_HDR_TYPE_PING_def
  HTTP2_HDR_TYPE_GOAWAY_def HTTP2_HDR_TYPE_WINDOW_UPDATE_def

definition HTTP2_HDR_DATA_END_STREAM :: u8 where "HTTP2_HDR_DATA_END_STREAM = 0x01"
definition HTTP2_HDR_DATA_PADDED :: u8 where "HTTP2_HDR_DATA_PADDED = 0x08"
definition HTTP2_HDR_HEADERS_END_HEADERS :: u8 where "HTTP2_HDR_HEADERS_END_HEADERS = 0x04"
definition HTTP2_HDR_HEADERS_PADDED :: u8 where "HTTP2_HDR_HEADERS_PADDED = 0x08"
definition HTTP2_HDR_HEADERS_PRIORITY :: u8 where "HTTP2_HDR_HEADERS_PRIORITY = 0x20"
definition HTTP2_HDR_SETTINGS_ACK :: u8 where "HTTP2_HDR_SETTINGS_ACK = 0x01"

definition HTTP2_HDR_R :: u32 where "HTTP2_HDR_R = 0x80000000"
definition HTTP2_HDR_SETTINGS_ENABLE_PUSH :: u16 where "HTTP2_HDR_SETTINGS_ENABLE_PUSH = 0x02"

definition HTTP2_DEFAULT_WINDOW :: u32 where "HTTP2_DEFAULT_WINDOW = 65535"
definition HTTP2_MAX_WINDOW :: u32 where "HTTP2_MAX_WINDOW = 0x7fffffff"

definition HTTP2_PROTOCOL_ERROR :: u32 where "HTTP2_PROTOCOL_ERROR = 0x1"
definition HTTP2_INTERNAL_ERROR :: u32 where "HTTP2_INTERNAL_ERROR = 0x2"
definition HTTP2_FLOW_CONTROL_ERROR :: u32 where "HTTP2_FLOW_CONTROL_ERROR = 0x3"
definition HTTP2_FRAME_SIZE_ERROR :: u32 where "HTTP2_FRAME_SIZE_ERROR = 0x6"
definition HTTP2_COMPRESSION_ERROR :: u32 where "HTTP2_COMPRESSION_ERROR = 0x9"


section \<open>State\<close>

text \<open>
  An entry of the dynamic table; \<open>keylen\<close> and \<open>valuelen\<close> of the C structure are
  the lengths of the lists.
\<close>

record dyn =
  key :: bytes
  val :: bytes

text \<open>
  Each growing block is the list of its bytes (entries) in use with the C
  fields for its length and its believed capacity.  \<open>http2_input_alloc\<close> is the
  size the last \<open>realloc\<close> of \<open>http2_input\<close> asked for: the C code keeps it only
  in \<open>http2_input_max\<close>, which \<open>add_dyn\<close> overwrites.  \<open>status\<close> is \<open>None\<close> until
  it is assigned.  \<open>outbuf\<close> is the evbuffer the frames go to, \<open>None\<close> for NULL.
\<close>

record http2_env =
  http2_send_global_credits :: u32
  http2_send_stream1_credits :: u32
  http2_connection_window :: u32
  http2_stream1_window :: u32
  http2_headers :: bytes
  http2_headers_max :: nat
  http2_headers_offset :: nat
  http2_dyn :: "dyn list"
  http2_dyn_alloc :: nat
  http2_dyn_max :: nat
  http2_dyn_idx :: nat
  http2_input :: bytes
  http2_input_alloc :: nat
  http2_input_max :: nat
  http2_input_len :: nat
  http2_data :: bytes
  http2_data_max :: nat
  http2_data_len :: nat
  type_html :: bool
  type_dns :: bool
  finished :: bool
  status :: "u32 option"
  outbuf :: "bytes option"

definition http2_init :: http2_env where
  "http2_init =
     \<lparr>http2_send_global_credits = 0, http2_send_stream1_credits = 0,
      http2_connection_window = HTTP2_DEFAULT_WINDOW,
      http2_stream1_window = HTTP2_DEFAULT_WINDOW,
      http2_headers = [], http2_headers_max = 0, http2_headers_offset = 0,
      http2_dyn = [], http2_dyn_alloc = 0, http2_dyn_max = 0, http2_dyn_idx = 0,
      http2_input = [], http2_input_alloc = 0, http2_input_max = 0, http2_input_len = 0,
      http2_data = [], http2_data_max = 0, http2_data_len = 0,
      type_html = False, type_dns = False, finished = False, status = None,
      outbuf = None\<rparr>"

text \<open>
  A function of the client: it returns a value (\<open>Ok\<close>), returns its error value
  (\<open>Err\<close>; the state keeps what was done before), or does not return.
\<close>

datatype 'a h2 = Ok 'a http2_env | Err http2_env | Crash abort_reason

type_synonym 'a h2m = "http2_env \<Rightarrow> 'a h2"

definition retH :: "'a \<Rightarrow> 'a h2m" where
  "retH x = (\<lambda>env. Ok x env)"

definition bindH :: "'a h2m \<Rightarrow> ('a \<Rightarrow> 'b h2m) \<Rightarrow> 'b h2m" where
  "bindH m f = (\<lambda>env. case m env of Ok x env' \<Rightarrow> f x env' | Err env' \<Rightarrow> Err env' | Crash r \<Rightarrow> Crash r)"

definition crashH :: "abort_reason \<Rightarrow> 'a h2m" where
  "crashH r = (\<lambda>env. Crash r)"

text \<open>Reading a byte of a buffer; a read past its end is undefined.\<close>

definition readH :: "bytes \<Rightarrow> nat \<Rightarrow> u8 h2m" where
  "readH buf i = (if i < length buf then retH (buf ! i) else crashH (Undefined ''read past the buffer''))"


section \<open>Frame headers\<close>

record http2_hdr =
  hdr_length :: bytes
  hdr_type :: u8
  hdr_flags :: u8
  hdr_stream_id :: bytes

definition sizeof_hdr :: nat where "sizeof_hdr = 9"

definition len24 :: "nat \<Rightarrow> bytes" where
  "len24 n = [of_nat (n div 2 ^ 16), of_nat (n div 2 ^ 8), of_nat n]"

definition hdr_bytes :: "http2_hdr \<Rightarrow> bytes" where
  "hdr_bytes h = hdr_length h @ [hdr_type h, hdr_flags h] @ hdr_stream_id h"

text \<open>The structure overlaid on the first nine bytes of the input.\<close>

definition hdr_of :: "bytes \<Rightarrow> http2_hdr" where
  "hdr_of bs = \<lparr>hdr_length = take 3 bs, hdr_type = bs ! 3, hdr_flags = bs ! 4,
                hdr_stream_id = take 4 (drop 5 bs)\<rparr>"

definition frame_length :: "http2_hdr \<Rightarrow> nat" where
  "frame_length h = unat (be32 0 (hdr_length h ! 0) (hdr_length h ! 1) (hdr_length h ! 2))"

definition frame_stream_id :: "http2_hdr \<Rightarrow> u32" where
  "frame_stream_id h =
     be32 (hdr_stream_id h ! 0) (hdr_stream_id h ! 1) (hdr_stream_id h ! 2) (hdr_stream_id h ! 3)
       AND NOT HTTP2_HDR_R"

definition stream_bytes :: "u32 \<Rightarrow> bytes" where
  "stream_bytes stream_id =
     [ucast (drop_bit 24 stream_id AND 0x7f), ucast (drop_bit 16 stream_id AND 0xff),
      ucast (drop_bit 8 stream_id AND 0xff), ucast (stream_id AND 0xff)]"

definition mk_hdr :: "nat \<Rightarrow> u8 \<Rightarrow> u8 \<Rightarrow> u32 \<Rightarrow> http2_hdr" where
  "mk_hdr n t fl sid = \<lparr>hdr_length = len24 n, hdr_type = t, hdr_flags = fl,
                         hdr_stream_id = stream_bytes sid\<rparr>"


section \<open>Writing frames\<close>

definition evbuffer_add :: "bytes \<Rightarrow> bytes \<Rightarrow> bytes" where
  "evbuffer_add b d = b @ d"

definition send_settings2 :: "bytes \<Rightarrow> bytes" where
  "send_settings2 out =
     evbuffer_add (evbuffer_add (evbuffer_add out
       (hdr_bytes (mk_hdr 6 HTTP2_HDR_TYPE_SETTINGS 0 0)))
       (to_be16 HTTP2_HDR_SETTINGS_ENABLE_PUSH))
       (to_be32 0)"

definition send_headers2 :: "http2_env \<Rightarrow> bytes \<Rightarrow> u32 \<Rightarrow> http2_env \<times> bytes" where
  "send_headers2 env out stream_id =
     (env\<lparr>http2_headers := [], http2_headers_max := 0, http2_headers_offset := 0\<rparr>,
      evbuffer_add (evbuffer_add out
        (hdr_bytes (mk_hdr (http2_headers_offset env) HTTP2_HDR_TYPE_HEADERS
           HTTP2_HDR_HEADERS_END_HEADERS stream_id)))
        (take (http2_headers_offset env) (http2_headers env)))"

definition send_data2 :: "bytes \<Rightarrow> bytes \<Rightarrow> u32 \<Rightarrow> bytes" where
  "send_data2 out d stream_id =
     evbuffer_add (evbuffer_add out
       (hdr_bytes (mk_hdr (length d) HTTP2_HDR_TYPE_DATA HTTP2_HDR_DATA_END_STREAM stream_id)))
       d"

definition goaway_frame :: "u32 \<Rightarrow> u32 \<Rightarrow> string option \<Rightarrow> bytes" where
  "goaway_frame error_code last_stream_id reason =
     (let len = 8 + (case reason of None \<Rightarrow> 0 | Some s \<Rightarrow> length s) in
      hdr_bytes (mk_hdr len HTTP2_HDR_TYPE_GOAWAY 0 0)
      @ (to_be32 last_stream_id @ to_be32 error_code)
      @ (case reason of None \<Rightarrow> [] | Some s \<Rightarrow> bytes_of s))"

text \<open>
  \<open>evbuffer_add\<close> on a NULL buffer dereferences it; this happens when a recorded
  response is replayed, where there is no connection to write to.
\<close>

definition send_goaway2 :: "u32 \<Rightarrow> u32 \<Rightarrow> string option \<Rightarrow> unit h2m" where
  "send_goaway2 error_code last_stream_id reason = (\<lambda>env.
     case outbuf env of
       None \<Rightarrow> Crash (Undefined ''evbuffer_add on NULL'')
     | Some b \<Rightarrow> Ok () (env\<lparr>outbuf := Some (evbuffer_add b
                               (goaway_frame error_code last_stream_id reason))\<rparr>))"

text \<open>The error exit of every receiving function: queue a GOAWAY, return the error value.\<close>

definition failH :: "u32 \<Rightarrow> string \<Rightarrow> 'a h2m" where
  "failH error_code reason =
     bindH (send_goaway2 error_code 0 (Some reason)) (\<lambda>_ env. Err env)"


section \<open>The header block\<close>

definition add_byte2 :: "http2_env \<Rightarrow> u8 \<Rightarrow> http2_env" where
  "add_byte2 env byte =
     (let env1 = (if http2_headers_max env < http2_headers_offset env + 1
                  then env\<lparr>http2_headers_max := http2_headers_offset env + 64\<rparr> else env)
      in env1\<lparr>http2_headers := take (http2_headers_offset env1) (http2_headers env1) @ [byte],
              http2_headers_offset := http2_headers_offset env1 + 1\<rparr>)"

definition add_block2 :: "http2_env \<Rightarrow> bytes \<Rightarrow> http2_env" where
  "add_block2 env str =
     (let len = length str;
          env1 = (if http2_headers_max env < http2_headers_offset env + len
                  then env\<lparr>http2_headers_max := http2_headers_offset env + len + 64\<rparr> else env)
      in env1\<lparr>http2_headers := take (http2_headers_offset env1) (http2_headers env1) @ str,
              http2_headers_offset := http2_headers_offset env1 + len\<rparr>)"

definition add_str2 :: "http2_env \<Rightarrow> string \<Rightarrow> http2_env" where
  "add_str2 env str = add_block2 env (bytes_of str)"


section \<open>Well-formed states\<close>

definition headers_ok :: "http2_env \<Rightarrow> bool" where
  "headers_ok env \<longleftrightarrow> length (http2_headers env) = http2_headers_offset env \<and>
     http2_headers_offset env \<le> http2_headers_max env"

definition dyn_ok :: "http2_env \<Rightarrow> bool" where
  "dyn_ok env \<longleftrightarrow> length (http2_dyn env) = http2_dyn_idx env \<and> http2_dyn_max env = 0 \<and>
     http2_dyn_idx env \<le> http2_dyn_alloc env"

definition data_ok :: "http2_env \<Rightarrow> bool" where
  "data_ok env \<longleftrightarrow> length (http2_data env) = http2_data_len env \<and>
     http2_data_len env \<le> http2_data_max env"

definition input_ok :: "http2_env \<Rightarrow> bool" where
  "input_ok env \<longleftrightarrow> length (http2_input env) = http2_input_len env \<and>
     http2_input_len env \<le> http2_input_alloc env"

definition windows_ok :: "http2_env \<Rightarrow> bool" where
  "windows_ok env \<longleftrightarrow> http2_connection_window env \<le> HTTP2_MAX_WINDOW \<and>
     http2_stream1_window env \<le> HTTP2_MAX_WINDOW"

definition env_ok :: "http2_env \<Rightarrow> bool" where
  "env_ok env \<longleftrightarrow> headers_ok env \<and> dyn_ok env \<and> data_ok env \<and> input_ok env"

lemmas env_ok_defs = env_ok_def headers_ok_def dyn_ok_def data_ok_def input_ok_def

named_theorems h2_simps \<open>evaluation of the client's monad\<close>

lemma retH_simp [h2_simps]: "retH x env = Ok x env"
  by (simp add: retH_def)

lemma bindH_simp [h2_simps]:
  "m env = Ok x env' \<Longrightarrow> bindH m f env = f x env'"
  "m env = Err env' \<Longrightarrow> bindH m f env = Err env'"
  "m env = Crash r \<Longrightarrow> bindH m f env = Crash r"
  by (simp_all add: bindH_def)

lemma bindH_Ok: "m env = Ok x env' \<Longrightarrow> bindH m f env = f x env'"
  by (simp add: bindH_def)

lemma bindH_Ok_iff:
  "bindH m f env = Ok y env'' \<longleftrightarrow> (\<exists>x env'. m env = Ok x env' \<and> f x env' = Ok y env'')"
  by (simp add: bindH_def split: h2.splits)

lemma bindH_Err_iff:
  "bindH m f env = Err env'' \<longleftrightarrow>
     m env = Err env'' \<or> (\<exists>x env'. m env = Ok x env' \<and> f x env' = Err env'')"
  by (auto simp add: bindH_def split: h2.splits)

lemma bindH_Crash_iff:
  "bindH m f env = Crash r \<longleftrightarrow>
     m env = Crash r \<or> (\<exists>x env'. m env = Ok x env' \<and> f x env' = Crash r)"
  by (auto simp add: bindH_def split: h2.splits)

lemmas bindH_iffs = bindH_Ok_iff bindH_Err_iff bindH_Crash_iff

lemma failH_eq [h2_simps]:
  "failH e s env = (case outbuf env of
     None \<Rightarrow> Crash (Undefined ''evbuffer_add on NULL'')
   | Some b \<Rightarrow> Err (env\<lparr>outbuf := Some (b @ goaway_frame e 0 (Some s))\<rparr>))"
  by (simp add: failH_def bindH_def send_goaway2_def evbuffer_add_def split: option.splits)

lemma failH_not_Ok [simp]: "failH e s env \<noteq> Ok x env'"
  by (simp add: failH_eq split: option.splits)


section \<open>The header block is a byte sink\<close>

lemma add_block_ok: "headers_ok env \<Longrightarrow> headers_ok (add_block2 env str)"
  by (auto simp: headers_ok_def add_block2_def Let_def)

lemma add_block_headers:
  "headers_ok env \<Longrightarrow> http2_headers (add_block2 env str) = http2_headers env @ str"
  by (auto simp: headers_ok_def add_block2_def Let_def)

lemma add_byte_ok: "headers_ok env \<Longrightarrow> headers_ok (add_byte2 env byte)"
  by (auto simp: headers_ok_def add_byte2_def Let_def)

lemma add_byte_headers:
  "headers_ok env \<Longrightarrow> http2_headers (add_byte2 env byte) = http2_headers env @ [byte]"
  by (auto simp: headers_ok_def add_byte2_def Let_def)

interpretation header_block: byte_sink add_block2 http2_headers headers_ok
  by unfold_locales (simp_all add: add_block_ok add_block_headers)

text \<open>Nothing but the header block changes while it is written.\<close>

definition drop_headers :: "http2_env \<Rightarrow> http2_env" where
  "drop_headers env = env\<lparr>http2_headers := [], http2_headers_max := 0, http2_headers_offset := 0\<rparr>"

lemma drop_headers_add [simp]:
  "drop_headers (add_block2 env str) = drop_headers env"
  "drop_headers (add_byte2 env b) = drop_headers env"
  by (simp_all add: drop_headers_def add_block2_def add_byte2_def Let_def)


section \<open>Frame headers can be read back\<close>

lemma hdr_of_bytes:
  assumes "length (hdr_length h) = 3" "length (hdr_stream_id h) = 4"
  shows "hdr_of (hdr_bytes h @ rest) = h"
proof -
  obtain a b c where l: "hdr_length h = [a, b, c]"
    using assms(1) by (auto simp: numeral_3_eq_3 length_Suc_conv)
  obtain d e f g where s: "hdr_stream_id h = [d, e, f, g]"
    using assms(2) by (auto simp: numeral_eq_Suc length_Suc_conv)
  show ?thesis by (cases h) (use l s in \<open>simp add: hdr_of_def hdr_bytes_def\<close>)
qed

lemma length_len24 [simp]: "length (len24 n) = 3" and length_stream_bytes [simp]: "length (stream_bytes s) = 4"
  by (simp_all add: len24_def stream_bytes_def)

lemma mk_hdr_simps [simp]:
  "hdr_length (mk_hdr n t fl sid) = len24 n" "hdr_type (mk_hdr n t fl sid) = t"
  "hdr_flags (mk_hdr n t fl sid) = fl" "hdr_stream_id (mk_hdr n t fl sid) = stream_bytes sid"
  by (simp_all add: mk_hdr_def)

lemma length_hdr_bytes: "length (hdr_bytes (mk_hdr n t fl sid)) = sizeof_hdr"
  by (simp add: hdr_bytes_def sizeof_hdr_def)

lemma hdr_of_mk: "hdr_of (hdr_bytes (mk_hdr n t fl sid) @ rest) = mk_hdr n t fl sid"
  by (rule hdr_of_bytes) simp_all

lemma frame_length_mk:
  assumes "n < 2 ^ 24"
  shows "frame_length (mk_hdr n t fl sid) = n"
proof -
  define q r p r' where d: "q = n div 256" "r = n mod 256" "p = q div 256" "r' = q mod 256"
  have u: "unat (of_nat m :: u8) = m mod 256" for m by (simp add: unsigned_of_nat take_bit_eq_mod)
  have p: "n div 65536 = p" using div_mult2_eq[of n 256 256] by (simp add: d)
  have "p < 256" unfolding p[symmetric] using assms by (intro less_mult_imp_div_less) simp
  have "n = q * 256 + r" "q = p * 256 + r'"
     unfolding d by (rule div_mult_mod_eq[symmetric])+
  then have "p * 65536 + r' * 256 + r = n" by linarith
  then show ?thesis using \<open>p < 256\<close>
    unfolding frame_length_def mk_hdr_simps len24_def unat_be32 nth_Cons_0
    by (simp add: u p d(1)[symmetric] d(2)[symmetric] d(4)[symmetric])
qed

lemma bit_HDR_R: "bit HTTP2_HDR_R k \<longleftrightarrow> k = 31"
proof -
  have e: "HTTP2_HDR_R = push_bit 31 1" by (simp add: HTTP2_HDR_R_def)
  show ?thesis unfolding e bit_push_bit_iff by (auto simp: bit_1_iff)
qed

lemma bit_masks:
  "bit (0x7f :: u8) k \<longleftrightarrow> k < 7" "bit (0xff :: u8) k \<longleftrightarrow> k < 8"
  "bit (0x7f :: u32) k \<longleftrightarrow> k < 7" "bit (0xff :: u32) k \<longleftrightarrow> k < 8"
proof -
  have "(0x7f :: u8) = mask 7" "(0xff :: u8) = mask 8" "(0x7f :: u32) = mask 7" "(0xff :: u32) = mask 8"
    by (simp_all add: mask_eq_exp_minus_1)
  then show "bit (0x7f :: u8) k \<longleftrightarrow> k < 7" "bit (0xff :: u8) k \<longleftrightarrow> k < 8"
    "bit (0x7f :: u32) k \<longleftrightarrow> k < 7" "bit (0xff :: u32) k \<longleftrightarrow> k < 8"
    by (simp_all only: bit_mask_iff possible_bit_word) auto
qed

lemma stream_id_bits:
  fixes m7 mf sid :: u32
  assumes m7: "\<And>k. bit m7 k \<longleftrightarrow> k < 7" and mf: "\<And>k. bit mf k \<longleftrightarrow> k < 8"
  shows "be32 (ucast (drop_bit 24 sid AND m7)) (ucast (drop_bit 16 sid AND mf))
      (ucast (drop_bit 8 sid AND mf)) (ucast (sid AND mf)) AND NOT HTTP2_HDR_R = sid AND NOT HTTP2_HDR_R"
proof (rule bit_word_eqI)
  fix k assume "k < LENGTH(32)"
  then consider "k < 8" | "8 \<le> k" "k < 16" | "16 \<le> k" "k < 24" | "24 \<le> k" "k < 32" by fastforce
  then show "bit (be32 (ucast (drop_bit 24 sid AND m7)) (ucast (drop_bit 16 sid AND mf))
      (ucast (drop_bit 8 sid AND mf)) (ucast (sid AND mf)) AND NOT HTTP2_HDR_R) k
    = bit (sid AND NOT HTTP2_HDR_R) k"
    by cases (simp_all add: word_bits bit_and_iff bit_not_iff bit_unsigned_iff bit_drop_bit_eq bit_HDR_R m7 mf
        cong: conj_cong, simp_all add: less_diff_conv2, auto)
qed

lemma nth4: "[a, b, c, d] ! 0 = a" "[a, b, c, d] ! 1 = b" "[a, b, c, d] ! 2 = c" "[a, b, c, d] ! 3 = d"
  by simp_all

lemma frame_stream_id_mk: "frame_stream_id (mk_hdr n t fl sid) = sid AND NOT HTTP2_HDR_R"
  unfolding frame_stream_id_def mk_hdr_simps stream_bytes_def
  unfolding nth4 by (rule stream_id_bits[OF bit_masks(3) bit_masks(4)])


section \<open>Invariants of the client's functions\<close>

text \<open>\<open>m\<close> keeps \<open>P\<close>: in every state it leaves, returning normally or with an error.\<close>

definition keeps :: "(http2_env \<Rightarrow> bool) \<Rightarrow> 'a h2m \<Rightarrow> bool" where
  "keeps P m \<longleftrightarrow> (\<forall>env. P env \<longrightarrow>
     (case m env of Ok x env' \<Rightarrow> P env' | Err env' \<Rightarrow> P env' | Crash r \<Rightarrow> True))"

lemma keepsI:
  assumes ok: "\<And>env x env'. P env \<Longrightarrow> m env = Ok x env' \<Longrightarrow> P env'"
    and err: "\<And>env env'. P env \<Longrightarrow> m env = Err env' \<Longrightarrow> P env'"
  shows "keeps P m"
  unfolding keeps_def
proof (intro allI impI)
  fix env
  assume P: "P env"
  show "case m env of Ok x env' \<Rightarrow> P env' | Err env' \<Rightarrow> P env' | Crash r \<Rightarrow> True"
    using ok[OF P] err[OF P] by (simp split: h2.split)
qed

lemma keepsD:
  "keeps P m \<Longrightarrow> P env \<Longrightarrow> m env = Ok x env' \<Longrightarrow> P env'"
  "keeps P m \<Longrightarrow> P env \<Longrightarrow> m env = Err env' \<Longrightarrow> P env'"
  unfolding keeps_def by (drule spec[of _ env], simp)+

named_theorems keep_rules \<open>functions that keep an invariant\<close>

lemma keeps_retH [keep_rules, simp]: "keeps P (retH x)"
  by (simp add: keeps_def retH_def)

lemma keeps_crashH [keep_rules, simp]: "keeps P (crashH r)"
  by (simp add: keeps_def crashH_def)

lemma keeps_readH [keep_rules, simp]: "keeps P (readH buf i)"
  by (simp add: readH_def)

lemma keeps_bindH [keep_rules]: "keeps P m \<Longrightarrow> (\<And>x. keeps P (f x)) \<Longrightarrow> keeps P (bindH m f)"
  by (rule keepsI) (auto simp: bindH_iffs dest: keepsD)

lemma keeps_if [keep_rules]: "(b \<Longrightarrow> keeps P m) \<Longrightarrow> (\<not> b \<Longrightarrow> keeps P m') \<Longrightarrow> keeps P (if b then m else m')"
  by simp

text \<open>An invariant that does not speak about the output survives every error exit.\<close>

locale h2_invariant =
  fixes P :: "http2_env \<Rightarrow> bool"
  assumes outbuf_irrelevant: "P env \<Longrightarrow> P (env\<lparr>outbuf := Some b\<rparr>)"
begin

lemma keeps_failH: "keeps P (failH e s)"
  by (rule keepsI) (auto simp: failH_eq outbuf_irrelevant split: option.splits)

lemma keeps_goaway: "keeps P (send_goaway2 e l r)"
  by (rule keepsI) (auto simp: send_goaway2_def outbuf_irrelevant split: option.splits)

end

interpretation env_ok: h2_invariant env_ok
  by unfold_locales (simp add: env_ok_defs)

interpretation windows_ok: h2_invariant windows_ok
  by unfold_locales (simp add: windows_ok_def)

lemmas fail_rules = env_ok.keeps_failH windows_ok.keeps_failH env_ok.keeps_goaway windows_ok.keeps_goaway

lemma init_env_ok: "env_ok http2_init" and init_windows_ok: "windows_ok http2_init"
  by (simp_all add: env_ok_defs windows_ok_def http2_init_def HTTP2_DEFAULT_WINDOW_def HTTP2_MAX_WINDOW_def)

section \<open>Runs that stay inside their buffers\<close>

text \<open>
  From a well-formed state with an output buffer, \<open>m\<close> leaves such a state again
  and a value that satisfies \<open>Q\<close>; if it does not return, the reason is in \<open>A\<close>.
\<close>

definition live :: "http2_env \<Rightarrow> bool" where
  "live env \<longleftrightarrow> env_ok env \<and> outbuf env \<noteq> None"

definition runs :: "abort_reason set \<Rightarrow> 'a h2m \<Rightarrow> ('a \<Rightarrow> bool) \<Rightarrow> bool" where
  "runs A m Q \<longleftrightarrow> (\<forall>env. live env \<longrightarrow>
     (case m env of Ok x env' \<Rightarrow> live env' \<and> Q x | Err env' \<Rightarrow> live env' | Crash r \<Rightarrow> r \<in> A))"

named_theorems runs_rules \<open>functions that stay inside their buffers\<close>

lemma runsI:
  assumes "\<And>env x env'. live env \<Longrightarrow> m env = Ok x env' \<Longrightarrow> live env' \<and> Q x"
    and "\<And>env env'. live env \<Longrightarrow> m env = Err env' \<Longrightarrow> live env'"
    and "\<And>env r. live env \<Longrightarrow> m env = Crash r \<Longrightarrow> r \<in> A"
  shows "runs A m Q"
  unfolding runs_def
proof (intro allI impI)
  fix env
  assume l: "live env"
  show "case m env of Ok x env' \<Rightarrow> live env' \<and> Q x | Err env' \<Rightarrow> live env' | Crash r \<Rightarrow> r \<in> A"
    using assms(1)[OF l] assms(2)[OF l] assms(3)[OF l] by (simp split: h2.split)
qed

lemma runsD:
  assumes "runs A m Q" "live env"
  shows "m env = Ok x env' \<Longrightarrow> live env' \<and> Q x" "m env = Err env' \<Longrightarrow> live env'" "m env = Crash r \<Longrightarrow> r \<in> A"
  using assms unfolding runs_def by (auto dest: spec[of _ env])

lemma runs_retH [runs_rules]: "Q x \<Longrightarrow> runs A (retH x) Q"
  by (simp add: runs_def retH_def)

lemma runs_bindH [runs_rules]:
  assumes "runs A m Q" "\<And>x. Q x \<Longrightarrow> runs A (f x) R"
  shows "runs A (bindH m f) R"
proof (rule runsI)
  fix env x env'
  assume l: "live env" and "bindH m f env = Ok x env'"
  then obtain y env1 where "m env = Ok y env1" "f y env1 = Ok x env'" by (auto simp: bindH_Ok_iff)
  then show "live env' \<and> R x" using runsD(1)[OF assms(1) l] runsD(1)[OF assms(2)] by blast
next
  fix env env'
  assume l: "live env" and "bindH m f env = Err env'"
  then consider "m env = Err env'" | y env1 where "m env = Ok y env1" "f y env1 = Err env'"
    by (auto simp: bindH_Err_iff)
  then show "live env'"
    using runsD(1,2)[OF assms(1) l] runsD(2)[OF assms(2)] by cases blast+
next
  fix env r
  assume l: "live env" and "bindH m f env = Crash r"
  then consider "m env = Crash r" | y env1 where "m env = Ok y env1" "f y env1 = Crash r"
    by (auto simp: bindH_Crash_iff)
  then show "r \<in> A"
    using runsD(1,3)[OF assms(1) l] runsD(3)[OF assms(2)] by cases blast+
qed

lemma runs_if [runs_rules]:
  "(b \<Longrightarrow> runs A m Q) \<Longrightarrow> (\<not> b \<Longrightarrow> runs A m' Q) \<Longrightarrow> runs A (if b then m else m') Q"
  by simp

lemma runs_conseq: "runs A m Q \<Longrightarrow> A \<subseteq> B \<Longrightarrow> (\<And>x. Q x \<Longrightarrow> R x) \<Longrightarrow> runs B m R"
  by (rule runsI) (auto dest: runsD)

lemma live_outbuf: "live env \<Longrightarrow> live (env\<lparr>outbuf := Some b\<rparr>)"
  by (simp add: live_def env_ok_defs)

lemma runs_failH [runs_rules]: "runs A (failH e s) Q"
  by (rule runsI) (auto simp: failH_eq live_outbuf split: option.splits, auto simp: live_def)

lemma runs_readH [runs_rules]: "i < length buf \<Longrightarrow> runs A (readH buf i) (\<lambda>_. True)"
  by (simp add: readH_def runs_retH)

interpretation live: h2_invariant live
  by unfold_locales (rule live_outbuf)

lemma keeps_runs:
  assumes "keeps live m" "\<And>env x env'. live env \<Longrightarrow> m env = Ok x env' \<Longrightarrow> Q x"
    and "\<And>env r. live env \<Longrightarrow> m env = Crash r \<Longrightarrow> r \<in> A"
  shows "runs A m Q"
  by (rule runsI) (use assms in \<open>auto dest: keepsD\<close>)

end
