(* ===== verification/Hpack_Int.thy ===== *)
theory Hpack_Int
  imports Http2_Env
begin

text \<open>
  The variable-length integers of HPACK (\<open>add_length2\<close> and \<open>Xdecode_int2\<close> of
  \<^verbatim>\<open>eperd/http2.c\<close>).  The decoder works on 32-bit words and checks for lost bits
  by shifting back; the lemmas compare it with the definition of RFC 7541,
  section 5.1, over unbounded numbers, and show that it inverts the encoder.
\<close>


section \<open>Model\<close>

definition HPACK_INT_MORE :: u8 where "HPACK_INT_MORE = 0x80"

definition int_mask :: "nat \<Rightarrow> u32" where
  "int_mask prefix_len = push_bit (8 - prefix_len) 1 - 1"

lemma unat_drop_7: "unat (drop_bit 7 v :: u32) = unat v div 128"
  by (simp only: unat_drop_bit) simp

lemma drop_7_less: "\<not> v \<le> 0x7f \<Longrightarrow> unat (drop_bit 7 v :: u32) < unat v"
proof -
  assume "\<not> v \<le> 0x7f"
  then have "0x7f < unat v" by (simp add: word_less_nat_alt not_le)
  then show ?thesis unfolding unat_drop_7 by simp
qed

text \<open>The loop of \<open>add_length2\<close> over the groups of seven bits.\<close>

function add_length2_more :: "http2_env \<Rightarrow> u32 \<Rightarrow> http2_env" where
  "add_length2_more env v =
     (if v > 0x7f
      then add_length2_more (add_byte2 env (ucast (0x80 OR (v AND 0x7f)))) (drop_bit 7 v)
      else add_byte2 env (ucast v))"
  by pat_completeness auto

termination
  by (relation "measure (\<lambda>(env, v). unat v)") (simp_all add: drop_7_less not_le)

declare add_length2_more.simps [simp del]

definition add_length2 :: "http2_env \<Rightarrow> nat \<Rightarrow> u8 \<Rightarrow> u32 \<Rightarrow> http2_env" where
  "add_length2 env prefix_len prefix_value v =
     (let first_max = int_mask prefix_len in
      if v < first_max then add_byte2 env (prefix_value OR ucast v)
      else add_length2_more (add_byte2 env (prefix_value OR ucast first_max)) (v - first_max))"

text \<open>
  The loop of \<open>Xdecode_int2\<close>; \<open>buf\<close> is what can be read, \<open>len\<close> what the caller
  says can be read.  A shift by 32 or more is undefined for a \<open>uint32_t\<close>.
\<close>

function Xdecode_int2_loop :: "bytes \<Rightarrow> nat \<Rightarrow> u32 \<Rightarrow> nat \<Rightarrow> u32 \<Rightarrow> (nat \<times> u32) h2m" where
  "Xdecode_int2_loop buf len max_value i v =
     (if i < len then
        if \<not> i < length buf then crashH (Undefined ''read past the buffer'') else
        let byte = buf ! i;
            new_bits = ucast (byte AND NOT HPACK_INT_MORE) :: u32;
            sh = (i - 1) * 7
        in if 32 \<le> sh then crashH (Undefined ''shift beyond the width'') else
           let new_value = push_bit sh new_bits in
           if drop_bit sh new_value \<noteq> new_bits
           then failH HTTP2_COMPRESSION_ERROR ''overflow in multi-byte integer''
           else let v1 = v OR new_value in
             if byte AND HPACK_INT_MORE \<noteq> 0
             then Xdecode_int2_loop buf len max_value (i + 1) v1
             else let v2 = v1 + max_value in
               if v2 < max_value
               then failH HTTP2_COMPRESSION_ERROR ''overflow in multi-byte integer''
               else retH (i + 1, v2)
      else failH HTTP2_COMPRESSION_ERROR ''multi-byte int runs beyond buffer'')"
  by pat_completeness auto

termination
  by (relation "measure (\<lambda>(buf, len, m, i, v). len - i)") simp_all

declare Xdecode_int2_loop.simps [simp del]

definition Xdecode_int2 :: "bytes \<Rightarrow> nat \<Rightarrow> nat \<Rightarrow> (nat \<times> u32) h2m" where
  "Xdecode_int2 buf len prefix_len =
     bindH (readH buf 0) (\<lambda>b.
       let max_value = int_mask prefix_len;
           byte = b AND ucast max_value
       in if ucast byte < max_value then retH (1, ucast byte)
          else Xdecode_int2_loop buf len max_value 1 0)"


section \<open>Reference definition\<close>

text \<open>RFC 7541, section 5.1: value and number of bytes used.\<close>

fun rfc_int_more :: "bytes \<Rightarrow> (nat \<times> nat) option" where
  "rfc_int_more [] = None"
| "rfc_int_more (b # bs) =
     (if 128 \<le> unat b
      then map_option (\<lambda>(x, n). (unat b - 128 + 128 * x, n + 1)) (rfc_int_more bs)
      else Some (unat b, 1))"

definition rfc_int :: "nat \<Rightarrow> bytes \<Rightarrow> (nat \<times> nat) option" where
  "rfc_int n bs = (case bs of [] \<Rightarrow> None
     | b # r \<Rightarrow> (let x = unat b mod 2 ^ n in
         if x < 2 ^ n - 1 then Some (x, 1)
         else map_option (\<lambda>(y, k). (2 ^ n - 1 + y, k + 1)) (rfc_int_more r)))"


section \<open>The decoder against the reference\<close>

lemma unat_push_less:
  fixes x :: u32
  assumes "sh < 32"
  shows "drop_bit sh (push_bit sh x) = x \<longleftrightarrow> unat x * 2 ^ sh < 2 ^ 32"
    and "unat x * 2 ^ sh < 2 ^ 32 \<Longrightarrow> unat (push_bit sh x) = unat x * 2 ^ sh"
proof -
  have p: "unat (push_bit sh x) = unat x * 2 ^ sh mod 2 ^ 32"
    by (simp only: unsigned_push_bit_eq) (simp add: push_bit_eq_mult take_bit_eq_mod)
  then show "unat x * 2 ^ sh < 2 ^ 32 \<Longrightarrow> unat (push_bit sh x) = unat x * 2 ^ sh" by simp
  have d: "unat (drop_bit sh (push_bit sh x)) = unat (push_bit sh x) div 2 ^ sh"
    by (rule unat_drop_bit)
  have split: "(2::nat) ^ 32 = 2 ^ (32 - sh) * 2 ^ sh" using assms by (simp flip: power_add)
  then have "unat x * 2 ^ sh mod 2 ^ 32 = unat x mod 2 ^ (32 - sh) * 2 ^ sh"
    by (simp only: mult_mod_left)
  then have "unat (drop_bit sh (push_bit sh x)) = unat x mod 2 ^ (32 - sh)"
    by (simp add: d p)
  then have "drop_bit sh (push_bit sh x) = x \<longleftrightarrow> unat x mod 2 ^ (32 - sh) = unat x"
    by (metis word_unat_eq_iff)
  also have "\<dots> \<longleftrightarrow> unat x < 2 ^ (32 - sh)" by (simp add: mod_eq_self_iff_div_eq_0 div_eq_0_iff)
  also have "\<dots> \<longleftrightarrow> unat x * 2 ^ sh < 2 ^ 32" by (simp only: split) simp
  finally show "drop_bit sh (push_bit sh x) = x \<longleftrightarrow> unat x * 2 ^ sh < 2 ^ 32" .
qed

lemma int_more_bits:
  fixes b :: u8
  shows "unat (ucast (b AND NOT HPACK_INT_MORE) :: u32) = unat b mod 128"
    and "b AND HPACK_INT_MORE \<noteq> 0 \<longleftrightarrow> 128 \<le> unat b"
proof -
  have "\<forall>b \<in> set (map of_nat [0..<256]) :: u8 set.
      unat (ucast (b AND NOT 0x80) :: u32) = unat b mod 128 \<and> (b AND 0x80 \<noteq> 0 \<longleftrightarrow> 128 \<le> unat b)"
    by code_simp
  moreover have "b \<in> set (map of_nat [0..<256])"
    using unat_u8[of b] by (auto intro!: image_eqI[of _ _ "unat b"])
  ultimately show "unat (ucast (b AND NOT HPACK_INT_MORE) :: u32) = unat b mod 128"
    and "b AND HPACK_INT_MORE \<noteq> 0 \<longleftrightarrow> 128 \<le> unat b"
    unfolding HPACK_INT_MORE_def by blast+
qed

lemma or_push_add:
  fixes v x :: u32
  assumes "unat v < 2 ^ sh" and "sh < 32"
  shows "v OR push_bit sh x = v + push_bit sh x"
proof (rule or_disjoint_add)
  fix n
  have "take_bit sh v = v"
    using assms by (metis take_bit_nat_eq_self unsigned_take_bit_eq word_unat_eq_iff)
  then have "bit v n \<Longrightarrow> n < sh" by (metis bit_take_bit_iff)
  then show "\<not> (bit v n \<and> bit (push_bit sh x) n)" by (auto simp: bit_push_bit_iff)
qed

lemma rfc_int_more_pos: "rfc_int_more bs = Some (x, k) \<Longrightarrow> 1 \<le> k"
  by (induction bs arbitrary: x k) (auto split: if_splits)

lemma rfc_int_more_ge:
  "rfc_int_more (b # bs) = Some (x, k) \<Longrightarrow> unat b mod 128 \<le> x"
  using unat_u8[of b] by (auto simp: mod_if split: if_splits)

text \<open>The word the loop accumulates is the sum of the groups read so far.\<close>

lemma accumulate:
  fixes v nb :: u32
  assumes "unat v < 2 ^ sh" "unat nb < 128" "sh + 4 \<le> 32" "unat nb * 2 ^ sh < 2 ^ 32"
  shows "unat (v OR push_bit sh nb) = unat v + unat nb * 2 ^ sh"
    and "unat (v OR push_bit sh nb) < 2 ^ (sh + 7)"
proof -
  have sh: "sh < 32" using assms(3) by simp
  have p: "unat (push_bit sh nb) = unat nb * 2 ^ sh" by (rule unat_push_less(2)[OF sh assms(4)])
  have "unat nb < 2 ^ (32 - sh)"
  proof -
    have "(2::nat) ^ 32 = 2 ^ (32 - sh) * 2 ^ sh" using sh by (simp flip: power_add)
    with assms(4) show ?thesis by (metis mult_less_cancel2)
  qed
  then have "(unat nb + 1) * 2 ^ sh \<le> 2 ^ (32 - sh) * 2 ^ sh" by (intro mult_right_mono) simp_all
  also have "\<dots> = 2 ^ 32" using sh by (simp flip: power_add)
  finally have "unat v + unat nb * 2 ^ sh < 2 ^ 32" using assms(1) by simp
  then show e: "unat (v OR push_bit sh nb) = unat v + unat nb * 2 ^ sh"
    by (simp only: or_push_add[OF assms(1) sh] unat_word_ariths p) simp
  have "unat nb * 2 ^ sh + 2 ^ sh = (unat nb + 1) * 2 ^ sh" by simp
  also have "\<dots> \<le> 128 * 2 ^ sh" using assms(2) by (intro mult_right_mono) simp_all
  also have "128 * 2 ^ sh = (2::nat) ^ (sh + 7)" by (simp add: power_add)
  finally show "unat (v OR push_bit sh nb) < 2 ^ (sh + 7)"
    using assms(1) unfolding e by linarith
qed

lemma add_no_wrap:
  fixes a m w :: u32
  shows "\<not> a + m < m \<and> w = a + m \<longleftrightarrow> unat w = unat m + unat a"
proof -
  have "unat (a + m) = (unat a + unat m) mod 2 ^ 32" by (simp only: unat_word_ariths) simp
  then have "\<not> a + m < m \<longleftrightarrow> unat a + unat m < 2 ^ 32"
    using unat_u32[of a] unat_u32[of m] by (auto simp: word_less_nat_alt mod_if)
  then show ?thesis
    using unat_u32[of w] by (auto simp: word_unat_eq_iff unat_word_ariths)
qed

lemma decode_loop_step:
  assumes "i < len" "len \<le> length buf" "\<not> 32 \<le> (i - 1) * 7"
  shows "Xdecode_int2_loop buf len m i v env =
    (let nb = ucast (buf ! i AND NOT HPACK_INT_MORE) :: u32;
         v1 = v OR push_bit ((i - 1) * 7) nb in
     if \<not> unat nb * 2 ^ ((i - 1) * 7) < 2 ^ 32
     then failH HTTP2_COMPRESSION_ERROR ''overflow in multi-byte integer'' env
     else if 128 \<le> unat (buf ! i) then Xdecode_int2_loop buf len m (i + 1) v1 env
     else if v1 + m < m then failH HTTP2_COMPRESSION_ERROR ''overflow in multi-byte integer'' env
     else Ok (i + 1, v1 + m) env)"
  using assms unat_push_less(1)[of "(i - 1) * 7"]
  by (subst Xdecode_int2_loop.simps) (simp add: Let_def int_more_bits retH_def)

lemma decode_loop_exact:
  assumes "1 \<le> i" "i \<le> len" "len \<le> length buf" "unat v < 2 ^ ((i - 1) * 7)" "i \<le> 6"
  shows "Xdecode_int2_loop buf len m i v env = Ok (n, w) env' \<longleftrightarrow>
    env' = env \<and> n \<le> 6 \<and>
    (\<exists>x k. rfc_int_more (drop i (take len buf)) = Some (x, k) \<and> n = i + k \<and>
       unat w = unat m + unat v + x * 2 ^ ((i - 1) * 7))"
  using assms
proof (induction "len - i" arbitrary: i v)
  case 0
  then show ?case by (simp add: Xdecode_int2_loop.simps)
next
  case (Suc d)
  let ?b = "buf ! i" and ?s = "(i - 1) * 7" and ?r = "drop (i + 1) (take len buf)"
  let ?nb = "ucast (?b AND NOT HPACK_INT_MORE) :: u32"
  have lt: "i < len" using Suc by simp
  have dr: "drop i (take len buf) = ?b # ?r"
    using lt Suc by (simp add: Cons_nth_drop_Suc[symmetric] min_absorb2)
  have nb: "unat ?nb = unat ?b mod 128" by (rule int_more_bits)
  show ?case
  proof (cases "i = 6")
    case True
    with lt Suc.prems show ?thesis
      by (subst Xdecode_int2_loop.simps) (auto simp: crashH_def Let_def dest: rfc_int_more_pos)
  next
    case i: False
    then have s: "\<not> 32 \<le> ?s" "?s + 4 \<le> 32" using Suc.prems by auto
    note step = decode_loop_step[OF lt Suc.prems(3) s(1), of m v env]
    show ?thesis
    proof (cases "unat ?nb * 2 ^ ?s < 2 ^ 32")
      case False
      have "\<not> unat w = unat m + unat v + x * 2 ^ ?s" if "rfc_int_more (?b # ?r) = Some (x, k)" for x k
      proof -
        have "unat ?nb * 2 ^ ?s \<le> x * 2 ^ ?s" using rfc_int_more_ge[OF that] nb by (intro mult_right_mono) simp_all
        then show ?thesis using False unat_u32[of w] by linarith
      qed
      then show ?thesis using False unfolding dr step Let_def by (simp del: rfc_int_more.simps)
    next
      case fits: True
      have nb128: "unat ?nb < 128" by (simp add: nb)
      note acc = accumulate[OF Suc.prems(4) nb128 s(2) fits]
      have s7: "?s + 7 = (i + 1 - 1) * 7" using Suc.prems(1) by simp
      show ?thesis
      proof (cases "128 \<le> unat ?b")
        case more: True
        have e: "unat ?b - 128 = unat ?nb" using more unat_u8[of ?b] by (simp add: nb mod_if)
        have "Xdecode_int2_loop buf len m (i + 1) (v OR push_bit ?s ?nb) env = Ok (n, w) env' \<longleftrightarrow>
          env' = env \<and> n \<le> 6 \<and> (\<exists>x k. rfc_int_more ?r = Some (x, k) \<and> n = i + 1 + k \<and>
             unat w = unat m + unat (v OR push_bit ?s ?nb) + x * 2 ^ ((i + 1 - 1) * 7))"
          using Suc.hyps Suc.prems lt i acc(2) unfolding s7 by (intro Suc.hyps(1)) simp_all
        then show ?thesis
          using fits more unfolding dr step Let_def acc(1) s7[symmetric] power_add
          by (auto simp: e algebra_simps)
      next
        case last: False
        then have "unat ?b = unat ?nb" by (simp add: nb)
        with fits last show ?thesis
          unfolding dr step Let_def
          using add_no_wrap[of "v OR push_bit ?s ?nb" m w] acc(1) i Suc.prems
          by auto
      qed
    qed
  qed
qed

lemma int_mask_simps:
  assumes "p < 8"
  shows "unat (int_mask p) = 2 ^ (8 - p) - 1"
    and "unat (b AND ucast (int_mask p) :: u8) = unat b mod 2 ^ (8 - p)"
proof -
  have "\<forall>p \<in> set [0..<8]. unat (int_mask p) = 2 ^ (8 - p) - 1 \<and> ucast (int_mask p) = (mask (8 - p) :: u8)"
    by code_simp
  with assms have m: "unat (int_mask p) = 2 ^ (8 - p) - 1" "ucast (int_mask p) = (mask (8 - p) :: u8)"
    by auto
  show "unat (int_mask p) = 2 ^ (8 - p) - 1" by (rule m)
  show "unat (b AND ucast (int_mask p)) = unat b mod 2 ^ (8 - p)"
    unfolding m(2) take_bit_eq_mask[symmetric]
    by (simp only: unsigned_take_bit_eq) (simp only: take_bit_eq_mod)
qed

lemma decode_int_exact:
  assumes "p < 8" "1 \<le> len" "len \<le> length buf"
  shows "Xdecode_int2 buf len p env = Ok (n, w) env' \<longleftrightarrow>
    env' = env \<and> n \<le> 6 \<and> rfc_int (8 - p) (take len buf) = Some (unat w, n)"
proof -
  obtain b r where buf: "buf = b # r" using assms by (cases buf) auto
  have t: "take len buf = b # drop 1 (take len buf)" using assms by (simp add: buf take_Cons' drop_Cons')
  note mask = int_mask_simps[OF assms(1)]
  let ?x = "b AND ucast (int_mask p)"
  have u: "unat (ucast ?x :: u32) = unat b mod 2 ^ (8 - p)"
    using unat_u8[of ?x] by (simp add: mask(2)[symmetric] unsigned_ucast_eq take_bit_nat_eq_self)
  have less: "ucast ?x < int_mask p \<longleftrightarrow> unat b mod 2 ^ (8 - p) < 2 ^ (8 - p) - 1"
    by (simp add: word_less_nat_alt u mask(1))
  show ?thesis
  proof (cases "ucast ?x < int_mask p")
    case True
    then have "Xdecode_int2 buf len p env = Ok (1, ucast ?x) env"
      by (simp add: Xdecode_int2_def readH_def buf bindH_def retH_def Let_def)
    moreover have "rfc_int (8 - p) (take len buf) = Some (unat (ucast ?x :: u32), 1)"
      using True unfolding less by (subst t) (simp add: rfc_int_def u Let_def)
    ultimately show ?thesis by (auto simp: word_unat_eq_iff)
  next
    case False
    have "Xdecode_int2 buf len p env = Xdecode_int2_loop buf len (int_mask p) 1 0 env"
      using False by (simp add: Xdecode_int2_def readH_def buf bindH_def retH_def Let_def)
    moreover have "Xdecode_int2_loop buf len (int_mask p) 1 0 env = Ok (n, w) env' \<longleftrightarrow>
      env' = env \<and> n \<le> 6 \<and> (\<exists>x k. rfc_int_more (drop 1 (take len buf)) = Some (x, k) \<and> n = 1 + k \<and>
         unat w = unat (int_mask p) + unat (0 :: u32) + x * 2 ^ ((1 - 1) * 7))"
      using assms by (intro decode_loop_exact) simp_all
    ultimately show ?thesis
      using False less by (subst t) (auto simp: rfc_int_def Let_def mask(1))
  qed
qed

text \<open>When the decoder reads or shifts outside what C defines.\<close>

lemma decode_loop_crash:
  "Xdecode_int2_loop buf len m i v env = Crash r \<Longrightarrow> len \<le> length buf \<Longrightarrow> outbuf env \<noteq> None \<Longrightarrow>
     r = Undefined ''shift beyond the width'' \<and> 7 \<le> len"
proof (induction "len - i" arbitrary: i v)
  case 0
  then show ?case
    by (subst (asm) Xdecode_int2_loop.simps) (auto simp: failH_eq split: option.splits)
next
  case (Suc d)
  then have lt: "i < len" by simp
  show ?case
  proof (cases "32 \<le> (i - 1) * 7")
    case True
    then have "6 \<le> i" by simp
    with True Suc.prems lt show ?thesis
      by (subst (asm) Xdecode_int2_loop.simps) (simp add: crashH_def Let_def)
  next
    case False
    show ?thesis
      using Suc.prems Suc.hyps(2) Suc.hyps(1)[of "i + 1"]
      unfolding decode_loop_step[OF lt Suc.prems(2) False]
      by (auto simp: Let_def failH_eq split: if_splits option.splits)
  qed
qed

lemma decode_int_crash:
  assumes "Xdecode_int2 buf len p env = Crash r" "1 \<le> len" "len \<le> length buf" "outbuf env \<noteq> None"
  shows "r = Undefined ''shift beyond the width'' \<and> 7 \<le> len"
  using assms
  by (auto simp: Xdecode_int2_def readH_def bindH_def retH_def crashH_def Let_def
      split: if_splits dest: decode_loop_crash)

lemma decode_loop_keeps: "h2_invariant P \<Longrightarrow> keeps P (Xdecode_int2_loop buf len m i v)"
  by (induction buf len m i v rule: Xdecode_int2_loop.induct)
     (subst Xdecode_int2_loop.simps, simp add: Let_def h2_invariant.keeps_failH)

lemma decode_int_keeps [keep_rules]: "h2_invariant P \<Longrightarrow> keeps P (Xdecode_int2 buf len p)"
  by (simp add: Xdecode_int2_def keeps_bindH Let_def decode_loop_keeps)


section \<open>The encoder\<close>

text \<open>The bytes \<open>add_length2\<close> appends.\<close>

function more_bytes :: "u32 \<Rightarrow> bytes" where
  "more_bytes v = (if v > 0x7f then ucast (0x80 OR (v AND 0x7f)) # more_bytes (drop_bit 7 v) else [ucast v])"
  by pat_completeness auto
termination
  by (relation "measure unat") (simp_all add: drop_7_less not_le)

declare more_bytes.simps [simp del]

definition int_bytes :: "nat \<Rightarrow> u8 \<Rightarrow> u32 \<Rightarrow> bytes" where
  "int_bytes p pv v =
     (if v < int_mask p then [pv OR ucast v]
      else (pv OR ucast (int_mask p)) # more_bytes (v - int_mask p))"

lemma add_length2_more_headers:
  "headers_ok env \<Longrightarrow> http2_headers (add_length2_more env v) = http2_headers env @ more_bytes v \<and>
     headers_ok (add_length2_more env v) \<and> drop_headers (add_length2_more env v) = drop_headers env"
proof (induction env v rule: add_length2_more.induct)
  case (1 env v)
  show ?case
  proof (cases "v > 0x7f")
    case True
    then show ?thesis
      using 1 by (subst (1 2 3) add_length2_more.simps, subst more_bytes.simps)
        (simp add: add_byte_headers add_byte_ok)
  next
    case False
    then show ?thesis
      using 1 by (subst (1 2 3) add_length2_more.simps, subst more_bytes.simps)
        (simp add: add_byte_headers add_byte_ok)
  qed
qed

lemma add_length2_headers:
  "headers_ok env \<Longrightarrow> http2_headers (add_length2 env p pv v) = http2_headers env @ int_bytes p pv v \<and>
     headers_ok (add_length2 env p pv v) \<and> drop_headers (add_length2 env p pv v) = drop_headers env"
  by (simp add: add_length2_def int_bytes_def Let_def add_byte_headers add_byte_ok add_length2_more_headers)

lemma group_byte: "unat (ucast (0x80 OR (v AND 0x7f)) :: u8) = 128 + unat (v :: u32) mod 128"
proof -
  have m: "v AND 0x7f = take_bit 7 v" by (simp add: take_bit_eq_mask mask_eq_exp_minus_1)
  have t: "unat (take_bit 7 v) = unat v mod 128"
    by (simp only: unsigned_take_bit_eq) (simp add: take_bit_eq_mod)
  have "0x80 OR take_bit 7 v = 0x80 + take_bit 7 v"
  proof (rule or_disjoint_add)
    fix n
    have "bit (0x80 :: u32) n \<Longrightarrow> n = 7"
    proof -
      have e: "(0x80 :: u32) = push_bit 7 1" by simp
      show "bit (0x80 :: u32) n \<Longrightarrow> n = 7" unfolding e bit_push_bit_iff by (simp add: bit_1_iff)
    qed
    then show "\<not> (bit (0x80 :: u32) n \<and> bit (take_bit 7 v) n)" by (auto simp: bit_take_bit_iff)
  qed
  moreover have "unat (0x80 + take_bit 7 v) = 128 + unat v mod 128"
    by (simp only: unat_word_ariths t) simp
  ultimately have "unat (0x80 OR (v AND 0x7f)) = 128 + unat v mod 128" by (simp only: m)
  moreover have "128 + unat v mod 128 < 256" by simp
  ultimately show ?thesis by (simp only: unsigned_ucast_eq) (simp add: take_bit_nat_eq_self)
qed

lemma small_byte: "v \<le> 0x7f \<Longrightarrow> unat (ucast (v :: u32) :: u8) = unat v \<and> unat v < 128"
  by (simp add: word_le_nat_alt unsigned_ucast_eq take_bit_nat_eq_self)

lemma rfc_more_bytes: "rfc_int_more (more_bytes v @ rest) = Some (unat v, length (more_bytes v))"
proof (induction v rule: more_bytes.induct)
  case (1 v)
  show ?case
  proof (cases "v > 0x7f")
    case True
    then have "rfc_int_more (more_bytes v @ rest) =
        Some (unat v mod 128 + 128 * (unat v div 128), length (more_bytes v))"
      using 1 by (subst (1 2) more_bytes.simps) (simp add: group_byte unat_drop_7)
    then show ?thesis by simp
  next
    case False
    then have "more_bytes v = [ucast v]" by (subst more_bytes.simps) simp
    with False show ?thesis using small_byte[of v] by (simp add: not_less)
  qed
qed

lemma length_more_bytes: "unat v < 128 ^ Suc k \<Longrightarrow> length (more_bytes v) \<le> Suc k"
proof (induction k arbitrary: v)
  case 0
  then show ?case by (subst more_bytes.simps) (simp add: word_less_nat_alt)
next
  case (Suc k)
  have "length (more_bytes (drop_bit 7 v)) \<le> Suc k"
    using Suc.prems by (intro Suc.IH) (simp add: unat_drop_7 less_mult_imp_div_less mult.commute)
  then show ?case by (subst more_bytes.simps) simp
qed

lemma length_int_bytes: "1 \<le> length (int_bytes p pv v) \<and> length (int_bytes p pv v) \<le> 6"
proof -
  have "unat w < 128 ^ Suc 4" for w :: u32 using unat_u32[of w] by simp
  then have "length (more_bytes w) \<le> 5" for w using length_more_bytes[of w 4] by simp
  then show ?thesis by (simp add: int_bytes_def)
qed

lemma prefix_byte:
  assumes "p < 8" "unat pv mod 2 ^ (8 - p) = 0" "unat x < 2 ^ (8 - p)"
  shows "unat (pv OR x :: u8) mod 2 ^ (8 - p) = unat x"
proof -
  have "unat (take_bit (8 - p) pv) = 0" "unat (take_bit (8 - p) x) = unat x"
    using assms by (simp_all only: unsigned_take_bit_eq) (simp_all only: take_bit_eq_mod mod_less)
  then have "take_bit (8 - p) pv = 0" "take_bit (8 - p) x = x"
    by (simp_all add: word_unat_eq_iff)
  then have "take_bit (8 - p) (pv OR x) = x" by (simp add: take_bit_or)
  then have "unat (take_bit (8 - p) (pv OR x)) = unat x" by simp
  then show ?thesis by (simp only: unsigned_take_bit_eq) (simp only: take_bit_eq_mod)
qed

lemma rfc_int_bytes:
  assumes "p < 8" "unat pv mod 2 ^ (8 - p) = 0"
  shows "rfc_int (8 - p) (int_bytes p pv v @ rest) = Some (unat v, length (int_bytes p pv v))"
proof -
  note m = int_mask_simps(1)[OF assms(1)]
  have le: "(2::nat) ^ (8 - p) \<le> 2 ^ 8" by (rule power_increasing) simp_all
  have c: "unat (ucast w :: u8) = unat w" if "unat (w :: u32) < 2 ^ (8 - p)" for w
    using that le by (simp add: unsigned_ucast_eq take_bit_nat_eq_self)
  show ?thesis
  proof (cases "v < int_mask p")
    case True
    then have "unat v < 2 ^ (8 - p) - 1" by (simp add: word_less_nat_alt m)
    then show ?thesis
      using True prefix_byte[OF assms, of "ucast v"] c[of v] by (simp add: int_bytes_def rfc_int_def)
  next
    case False
    then have ge: "unat (int_mask p) \<le> unat v" by (simp add: word_less_nat_alt)
    then have "unat (v - int_mask p) = unat v - unat (int_mask p)" by (simp add: unat_sub_if')
    moreover have "2 ^ (8 - p) + (Suc (unat v) - 2 ^ (8 - p)) - Suc 0 = unat v"
      using ge one_le_power[of "2::nat" "8 - p"] unfolding m by linarith
    ultimately show ?thesis
      using False ge prefix_byte[OF assms, of "ucast (int_mask p)"] c[of "int_mask p"]
      by (simp add: int_bytes_def rfc_int_def rfc_more_bytes m)
  qed
qed


section \<open>Properties\<close>

text \<open>
  C34: On a buffer of at least one byte, \<open>Xdecode_int2\<close> returns a value exactly
  when the bytes it was given start with an HPACK integer of at most six bytes
  whose unbounded value fits in 32 bits; it returns that value and the number
  of bytes, and changes nothing.  No overflow goes unnoticed.
\<close>

theorem Xdecode_int2_exact:
  assumes "prefix_len < 8" and "1 \<le> len" and "len \<le> length buf"
  shows "Xdecode_int2 buf len prefix_len env = Ok (n, v) env' \<longleftrightarrow>
    env' = env \<and> n \<le> 6 \<and> rfc_int (8 - prefix_len) (take len buf) = Some (unat v, n)"
  using assms by (rule decode_int_exact)

theorem Xdecode_int2_exact_witness:
  "Xdecode_int2 [0x1f, 0x9a, 0x0a, 0xff] 4 3 http2_init = Ok (3, 1337) http2_init"
proof -
  have "rfc_int (8 - 3) (take 4 [0x1f, 0x9a, 0x0a, 0xff]) = Some (unat (1337 :: u32), 3)"
    by code_simp
  then show ?thesis
    using Xdecode_int2_exact[of 3 4 "[0x1f, 0x9a, 0x0a, 0xff]" http2_init 3 1337 http2_init] by simp
qed

text \<open>
  What \<open>add_length2\<close> appends to the header block is one to six bytes, and
  \<open>Xdecode_int2\<close> with the same prefix reads the value back from them, whatever
  follows.
\<close>

theorem int_roundtrip:
  assumes "headers_ok env" and "prefix_len < 8" and "unat prefix_value mod 2 ^ (8 - prefix_len) = 0"
  shows "\<exists>bs. http2_headers (add_length2 env prefix_len prefix_value v) = http2_headers env @ bs \<and>
    1 \<le> length bs \<and> length bs \<le> 6 \<and>
    Xdecode_int2 (bs @ rest) (length bs + length rest) prefix_len env2 = Ok (length bs, v) env2"
proof (intro exI conjI)
  let ?bs = "int_bytes prefix_len prefix_value v"
  show "http2_headers (add_length2 env prefix_len prefix_value v) = http2_headers env @ ?bs"
    using add_length2_headers[OF assms(1)] by simp
  show len: "1 \<le> length ?bs" "length ?bs \<le> 6" using length_int_bytes by blast+
  show "Xdecode_int2 (?bs @ rest) (length ?bs + length rest) prefix_len env2 = Ok (length ?bs, v) env2"
    using len rfc_int_bytes[OF assms(2,3)] by (subst decode_int_exact[OF assms(2)]) simp_all
qed

theorem int_roundtrip_witness:
  "\<exists>bs. http2_headers (add_length2 http2_init 1 0x80 300) = bs \<and> 1 \<le> length bs \<and> length bs \<le> 6 \<and>
    Xdecode_int2 (bs @ [7]) (length bs + 1) 1 http2_init = Ok (length bs, 300) http2_init"
proof -
  have ok: "headers_ok http2_init" and e: "http2_headers http2_init = []"
    by (simp_all add: headers_ok_def http2_init_def)
  have p: "(1::nat) < 8" "unat (0x80 :: u8) mod 2 ^ (8 - 1) = 0" by simp_all
  show ?thesis using int_roundtrip[OF ok p, of 300 "[7]" http2_init] by (simp add: e)
qed

end
