(* ===== verification/Bit_Window.thy ===== *)
theory Bit_Window
  imports Probe_Prelude
begin

text \<open>
  A word as a window on a bit stream: the list of its \<open>n\<close> low bits, most
  significant first.  The lemmas say what shifting, joining and cutting do to
  the window.
\<close>

definition win :: "u32 \<Rightarrow> nat \<Rightarrow> bool list" where
  "win w n = map (\<lambda>i. bit w (n - 1 - i)) [0..<n]"

definition byte_bits :: "u8 \<Rightarrow> bool list" where
  "byte_bits b = map (\<lambda>i. bit b (7 - i)) [0..<8]"

named_theorems win_simps \<open>windows under shifts, cuts and joins\<close>

lemma length_win [simp]: "length (win w n) = n"
  by (simp add: win_def)

lemma length_byte_bits [simp]: "length (byte_bits b) = 8"
  by (simp add: byte_bits_def)

lemma nth_win [simp]: "i < n \<Longrightarrow> win w n ! i = bit w (n - 1 - i)"
  by (simp add: win_def)

lemma win_0 [simp]: "win w 0 = []"
  by (simp add: win_def)

lemma win_append [win_simps]: "win w (a + b) = win (drop_bit b w) a @ win w b"
  by (rule nth_equalityI) (auto simp: nth_append bit_drop_bit_eq algebra_simps intro!: arg_cong[of _ _ "bit w"])

lemma win_eq_iff: "win w n = win v n \<longleftrightarrow> (\<forall>i < n. bit w i = bit v i)"
proof
  assume e: "win w n = win v n"
  show "\<forall>i < n. bit w i = bit v i"
  proof (intro allI impI)
    fix i assume "i < n"
    then have "win w n ! (n - 1 - i) = win v n ! (n - 1 - i)" using e by simp
    with \<open>i < n\<close> show "bit w i = bit v i" by simp
  qed
qed (simp add: list_eq_iff_nth_eq)

lemma win_cong_mod: "n \<le> 32 \<Longrightarrow> unat w mod 2 ^ n = unat v mod 2 ^ n \<Longrightarrow> win w n = win v n"
proof -
  assume "unat w mod 2 ^ n = unat v mod 2 ^ n"
  then have "take_bit n (unat w) = take_bit n (unat v)" by (simp only: take_bit_eq_mod)
  then have "unat (take_bit n w) = unat (take_bit n v)" by (simp only: unsigned_take_bit_eq)
  then have "take_bit n w = take_bit n v" by (rule word_unat_eq_iff[THEN iffD2])
  then show ?thesis unfolding win_eq_iff by (metis bit_take_bit_iff)
qed

lemma drop_win [win_simps]: "l \<le> n \<Longrightarrow> drop l (win w n) = win w (n - l)"
  by (rule nth_equalityI) (auto intro!: arg_cong[of _ _ "bit w"])

lemma take_win [win_simps]: "l \<le> n \<Longrightarrow> take l (win w n) = win (drop_bit (n - l) w) l"
  using win_append[of w l "n - l"] by simp

lemma win_push_byte [win_simps]:
  "n \<le> 24 \<Longrightarrow> win (push_bit 8 w OR ucast b) (n + 8) = win w n @ byte_bits b"
  by (rule nth_equalityI)
     (auto simp: nth_append byte_bits_def bit_simps intro!: arg_cong[of _ _ "bit w"] arg_cong[of _ _ "bit b"]
       dest: bit_imp_le_length)

lemma byte_bits_win: "byte_bits b = win (of_nat (unat b)) 8"
  by (rule nth_equalityI) (auto simp: byte_bits_def bit_simps)

lemma byte_bits_peek [win_simps]:
  "8 \<le> n \<Longrightarrow> n \<le> 32 \<Longrightarrow> byte_bits (ucast (drop_bit (n - 8) w)) = take 8 (win w n)"
  by (rule nth_equalityI) (auto simp: byte_bits_def bit_simps intro!: arg_cong[of _ _ "bit w"])

lemma byte_bits_peek_short [win_simps]:
  "n < 8 \<Longrightarrow> byte_bits (ucast (push_bit (8 - n) w)) = win w n @ replicate (8 - n) False"
  by (rule nth_equalityI) (auto simp: byte_bits_def bit_simps nth_append intro!: arg_cong[of _ _ "bit w"])

lemma byte_bits_inject: "byte_bits a = byte_bits b \<longleftrightarrow> a = b"
proof
  assume e: "byte_bits a = byte_bits b"
  show "a = b"
  proof (rule bit_word_eqI)
    fix n assume "n < LENGTH(8)"
    then have "byte_bits a ! (7 - n) = byte_bits b ! (7 - n)" using e by simp
    then show "bit a n = bit b n" using \<open>n < LENGTH(8)\<close> by (simp add: byte_bits_def)
  qed
qed simp

end
