(* ===== verification/Huffman_Table.thy ===== *)
theory Huffman_Table
  imports Bit_Window
begin

text \<open>
  The Huffman code of HPACK (\<open>huffman_encode\<close> of \<^verbatim>\<open>eperd/http2.c\<close>) and the
  construction of the eight decoding tables by \<open>init_huffman\<close>.  The tables are
  computed here by running the model of that function; the lemmas show that it
  does not stop at one of its consistency checks, that the code is prefix-free
  together with the end-of-string symbol, and that every entry of every table
  is the one the code calls for.
\<close>


section \<open>The code\<close>

datatype huffman_encode = HE (encoding: u32) (bits: nat) (symbol: u8)

definition huffman_encode :: "huffman_encode list" where
  "huffman_encode = [
     HE 0x1ff8 13 0, HE 0x7fffd8 23 1, HE 0xfffffe2 28 2, HE 0xfffffe3 28 3, HE 0xfffffe4 28 4,
     HE 0xfffffe5 28 5, HE 0xfffffe6 28 6, HE 0xfffffe7 28 7, HE 0xfffffe8 28 8, HE 0xffffea 24 9,
     HE 0x3ffffffc 30 10, HE 0xfffffe9 28 11, HE 0xfffffea 28 12, HE 0x3ffffffd 30 13, HE 0xfffffeb 28 14,
     HE 0xfffffec 28 15, HE 0xfffffed 28 16, HE 0xfffffee 28 17, HE 0xfffffef 28 18, HE 0xffffff0 28 19,
     HE 0xffffff1 28 20, HE 0xffffff2 28 21, HE 0x3ffffffe 30 22, HE 0xffffff3 28 23, HE 0xffffff4 28 24,
     HE 0xffffff5 28 25, HE 0xffffff6 28 26, HE 0xffffff7 28 27, HE 0xffffff8 28 28, HE 0xffffff9 28 29,
     HE 0xffffffa 28 30, HE 0xffffffb 28 31, HE 0x14 6 32, HE 0x3f8 10 33, HE 0x3f9 10 34,
     HE 0xffa 12 35, HE 0x1ff9 13 36, HE 0x15 6 37, HE 0xf8 8 38, HE 0x7fa 11 39,
     HE 0x3fa 10 40, HE 0x3fb 10 41, HE 0xf9 8 42, HE 0x7fb 11 43, HE 0xfa 8 44,
     HE 0x16 6 45, HE 0x17 6 46, HE 0x18 6 47, HE 0x0 5 48, HE 0x1 5 49,
     HE 0x2 5 50, HE 0x19 6 51, HE 0x1a 6 52, HE 0x1b 6 53, HE 0x1c 6 54,
     HE 0x1d 6 55, HE 0x1e 6 56, HE 0x1f 6 57, HE 0x5c 7 58, HE 0xfb 8 59,
     HE 0x7ffc 15 60, HE 0x20 6 61, HE 0xffb 12 62, HE 0x3fc 10 63, HE 0x1ffa 13 64,
     HE 0x21 6 65, HE 0x5d 7 66, HE 0x5e 7 67, HE 0x5f 7 68, HE 0x60 7 69,
     HE 0x61 7 70, HE 0x62 7 71, HE 0x63 7 72, HE 0x64 7 73, HE 0x65 7 74,
     HE 0x66 7 75, HE 0x67 7 76, HE 0x68 7 77, HE 0x69 7 78, HE 0x6a 7 79,
     HE 0x6b 7 80, HE 0x6c 7 81, HE 0x6d 7 82, HE 0x6e 7 83, HE 0x6f 7 84,
     HE 0x70 7 85, HE 0x71 7 86, HE 0x72 7 87, HE 0xfc 8 88, HE 0xf3 7 89,
     HE 0xfd 8 90, HE 0x1ffb 13 91, HE 0x7fff0 19 92, HE 0x1ffc 13 93, HE 0x3ffc 14 94,
     HE 0x22 6 95, HE 0x7ffd 15 96, HE 0x3 5 97, HE 0x23 6 98, HE 0x4 5 99,
     HE 0x24 6 100, HE 0x5 5 101, HE 0x25 6 102, HE 0x26 6 103, HE 0x27 6 104,
     HE 0x6 5 105, HE 0x74 7 106, HE 0x75 7 107, HE 0x28 6 108, HE 0x29 6 109,
     HE 0x2a 6 110, HE 0x7 5 111, HE 0x2b 6 112, HE 0x76 7 113, HE 0x2c 6 114,
     HE 0x8 5 115, HE 0x9 5 116, HE 0x2d 6 117, HE 0x77 7 118, HE 0x78 7 119,
     HE 0x79 7 120, HE 0x7a 7 121, HE 0x7b 7 122, HE 0x7ffe 15 123, HE 0x7fc 11 124,
     HE 0x3ffd 14 125, HE 0x1ffd 13 126, HE 0xffffffc 28 127, HE 0xfffe6 20 128, HE 0x3fffd2 22 129,
     HE 0xfffe7 20 130, HE 0xfffe8 20 131, HE 0x3fffd3 22 132, HE 0x3fffd4 22 133, HE 0x3fffd5 22 134,
     HE 0x7fffd9 23 135, HE 0x3fffd6 22 136, HE 0x7fffda 23 137, HE 0x7fffdb 23 138, HE 0x7fffdc 23 139,
     HE 0x7fffdd 23 140, HE 0x7fffde 23 141, HE 0xffffeb 24 142, HE 0x7fffdf 23 143, HE 0xffffec 24 144,
     HE 0xffffed 24 145, HE 0x3fffd7 22 146, HE 0x7fffe0 23 147, HE 0xffffee 24 148, HE 0x7fffe1 23 149,
     HE 0x7fffe2 23 150, HE 0x7fffe3 23 151, HE 0x7fffe4 23 152, HE 0x1fffdc 21 153, HE 0x3fffd8 22 154,
     HE 0x7fffe5 23 155, HE 0x3fffd9 22 156, HE 0x7fffe6 23 157, HE 0x7fffe7 23 158, HE 0xffffef 24 159,
     HE 0x3fffda 22 160, HE 0x1fffdd 21 161, HE 0xfffe9 20 162, HE 0x3fffdb 22 163, HE 0x3fffdc 22 164,
     HE 0x7fffe8 23 165, HE 0x7fffe9 23 166, HE 0x1fffde 21 167, HE 0x7fffea 23 168, HE 0x3fffdd 22 169,
     HE 0x3fffde 22 170, HE 0xfffff0 24 171, HE 0x1fffdf 21 172, HE 0x3fffdf 22 173, HE 0x7fffeb 23 174,
     HE 0x7fffec 23 175, HE 0x1fffe0 21 176, HE 0x1fffe1 21 177, HE 0x3fffe0 22 178, HE 0x1fffe2 21 179,
     HE 0x7fffed 23 180, HE 0x3fffe1 22 181, HE 0x7fffee 23 182, HE 0x7fffef 23 183, HE 0xfffea 20 184,
     HE 0x3fffe2 22 185, HE 0x3fffe3 22 186, HE 0x3fffe4 22 187, HE 0x7ffff0 23 188, HE 0x3fffe5 22 189,
     HE 0x3fffe6 22 190, HE 0x7ffff1 23 191, HE 0x3ffffe0 26 192, HE 0x3ffffe1 26 193, HE 0xfffeb 20 194,
     HE 0x7fff1 19 195, HE 0x3fffe7 22 196, HE 0x7ffff2 23 197, HE 0x3fffe8 22 198, HE 0x1ffffec 25 199,
     HE 0x3ffffe2 26 200, HE 0x3ffffe3 26 201, HE 0x3ffffe4 26 202, HE 0x7ffffde 27 203, HE 0x7ffffdf 27 204,
     HE 0x3ffffe5 26 205, HE 0xfffff1 24 206, HE 0x1ffffed 25 207, HE 0x7fff2 19 208, HE 0x1fffe3 21 209,
     HE 0x3ffffe6 26 210, HE 0x7ffffe0 27 211, HE 0x7ffffe1 27 212, HE 0x3ffffe7 26 213, HE 0x7ffffe2 27 214,
     HE 0xfffff2 24 215, HE 0x1fffe4 21 216, HE 0x1fffe5 21 217, HE 0x3ffffe8 26 218, HE 0x3ffffe9 26 219,
     HE 0xffffffd 28 220, HE 0x7ffffe3 27 221, HE 0x7ffffe4 27 222, HE 0x7ffffe5 27 223, HE 0xfffec 20 224,
     HE 0xfffff3 24 225, HE 0xfffed 20 226, HE 0x1fffe6 21 227, HE 0x3fffe9 22 228, HE 0x1fffe7 21 229,
     HE 0x1fffe8 21 230, HE 0x7ffff3 23 231, HE 0x3fffea 22 232, HE 0x3fffeb 22 233, HE 0x1ffffee 25 234,
     HE 0x1ffffef 25 235, HE 0xfffff4 24 236, HE 0xfffff5 24 237, HE 0x3ffffea 26 238, HE 0x7ffff4 23 239,
     HE 0x3ffffeb 26 240, HE 0x7ffffe6 27 241, HE 0x3ffffec 26 242, HE 0x3ffffed 26 243, HE 0x7ffffe7 27 244,
     HE 0x7ffffe8 27 245, HE 0x7ffffe9 27 246, HE 0x7ffffea 27 247, HE 0x7ffffeb 27 248, HE 0xffffffe 28 249,
     HE 0x7ffffec 27 250, HE 0x7ffffed 27 251, HE 0x7ffffee 27 252, HE 0x7ffffef 27 253, HE 0x7fffff0 27 254,
     HE 0x3ffffee 26 255]"

datatype huffman_decode = HD (dec_bits: nat) (dec_value: u8)

type_synonym decode_table = "huffman_decode list"

record huffman_tables =
  huffman_decode0 :: decode_table
  huffman_decode_fe :: decode_table
  huffman_decode_ff :: decode_table
  huffman_decode_fffe :: decode_table
  huffman_decode_ffff :: decode_table
  huffman_decode_fffff :: decode_table
  huffman_decode_fffffe :: decode_table
  huffman_decode_ffffff :: decode_table


section \<open>Filling the tables\<close>

text \<open>The loop over \<open>j\<close> that gives one symbol a run of entries.\<close>

fun fill_range :: "decode_table \<Rightarrow> nat \<Rightarrow> nat \<Rightarrow> nat \<Rightarrow> u8 \<Rightarrow> decode_table outcome" where
  "fill_range T byte 0 len v = Done T"
| "fill_range T byte (Suc n) len v =
     (if \<not> byte < length T then Abort (Undefined ''index outside the table'')
      else if dec_bits (T ! byte) \<noteq> 0 then Abort (Fatal ''init_huffman: duplicate entry'')
      else fill_range (T[byte := HD len v]) (byte + 1) n len v)"

text \<open>
  One row of a table indexed by the byte after a prefix of \<open>k\<close> bits with value
  \<open>pfx\<close>.  \<open>long\<close> tells whether the block handles codes that do not end within
  that byte; where it does not, such a code would shift by a negative amount.
\<close>

definition fill_row :: "nat \<Rightarrow> u32 \<Rightarrow> bool \<Rightarrow> huffman_encode \<Rightarrow> decode_table \<Rightarrow> decode_table outcome" where
  "fill_row k pfx long h T =
     (if bits h \<le> k \<or> drop_bit (bits h - k) (encoding h) AND (push_bit k 1 - 1) \<noteq> pfx then Done T
      else let len = bits h - k in
        if long \<and> 8 \<le> len then
          let byte = unat (ucast (drop_bit (len - 8) (encoding h)) :: u8) in
          if dec_bits (T ! byte) = 0 then Done (T[byte := HD len (symbol h)])
          else if dec_bits (T ! byte) \<le> 8 \<or> len \<le> 8
          then Abort (Fatal ''init_huffman: inconsistent entry'')
          else Done T
        else if 8 < len then Abort (Undefined ''negative shift'')
        else fill_range T (unat (ucast (push_bit (8 - len) (encoding h)) :: u8)) (2 ^ (8 - len))
               len (symbol h))"

text \<open>
  The table after the prefix \<open>0xfffffe\<close> is indexed by four bits.  Its branch for
  an entry that is already taken looks at \<open>byte\<close>, which still has the value of
  the previous block, instead of \<open>nibble\<close>.
\<close>

definition fill_row4 :: "nat \<Rightarrow> u32 \<Rightarrow> huffman_encode \<Rightarrow> decode_table \<Rightarrow> decode_table outcome" where
  "fill_row4 k pfx h T =
     (if bits h \<le> k \<or> drop_bit (bits h - k) (encoding h) AND (push_bit k 1 - 1) \<noteq> pfx then Done T
      else let len = bits h - k in
        if 4 \<le> len then
          let nibble = unat (drop_bit (len - 4) (encoding h) AND 0xf) in
          if dec_bits (T ! nibble) = 0 then Done (T[nibble := HD len (symbol h)])
          else Abort (Undefined ''index left over from the previous block'')
        else fill_range T (unat (push_bit (4 - len) (encoding h) AND 0xf)) (2 ^ (4 - len)) len (symbol h))"

fun fill_rows :: "(huffman_encode \<Rightarrow> decode_table \<Rightarrow> decode_table outcome) \<Rightarrow> huffman_encode list \<Rightarrow>
    decode_table \<Rightarrow> decode_table outcome" where
  "fill_rows row [] T = Done T"
| "fill_rows row (h # hs) T =
     (case row h T of Done T' \<Rightarrow> fill_rows row hs T' | Fail \<Rightarrow> Fail | Abort r \<Rightarrow> Abort r)"

definition empty_table :: "nat \<Rightarrow> decode_table" where
  "empty_table n = replicate n (HD 0 0)"

definition check_filled :: "decode_table \<Rightarrow> decode_table outcome" where
  "check_filled T = (if list_all (\<lambda>d. dec_bits d \<noteq> 0) T then Done T
     else Abort (Fatal ''init_huffman: empty entry''))"

definition init_decode0 :: "decode_table outcome" where
  "init_decode0 = fill_rows (fill_row 0 0 True) huffman_encode (empty_table 256)"

definition init_decode_fe :: "decode_table outcome" where
  "init_decode_fe =
     bindO (fill_rows (fill_row 8 0xfe False) huffman_encode (empty_table 256)) check_filled"

definition init_decode_ff :: "decode_table outcome" where
  "init_decode_ff =
     bindO (fill_rows (fill_row 8 0xff True) huffman_encode (empty_table 256)) check_filled"

definition init_decode_fffe :: "decode_table outcome" where
  "init_decode_fffe =
     bindO (fill_rows (fill_row 16 0xfffe False) huffman_encode (empty_table 256)) check_filled"

definition init_decode_ffff :: "decode_table outcome" where
  "init_decode_ffff =
     bindO (fill_rows (fill_row 16 0xffff True) huffman_encode (empty_table 256)) check_filled"

definition init_decode_fffff :: "decode_table outcome" where
  "init_decode_fffff =
     bindO (fill_rows (fill_row 20 0xfffff True) huffman_encode (empty_table 256)) check_filled"

definition init_decode_fffffe :: "decode_table outcome" where
  "init_decode_fffffe =
     bindO (fill_rows (fill_row4 24 0xfffffe) huffman_encode (empty_table 16)) check_filled"

definition claim_unused :: "decode_table \<Rightarrow> decode_table" where
  "claim_unused T = take 252 T @ replicate 4 (HD 42 42)"

definition init_decode_ffffff :: "decode_table outcome" where
  "init_decode_ffffff =
     bindO (fill_rows (fill_row 24 0xffffff False) huffman_encode (empty_table 256))
       (\<lambda>T. check_filled (claim_unused T))"

definition init_huffman :: "huffman_tables outcome" where
  "init_huffman =
     (if map (unat \<circ> symbol) huffman_encode \<noteq> [0..<256]
      then Abort (Fatal ''init_huffman: bad value in huffman_encode'')
      else bindO init_decode0 (\<lambda>t0. bindO init_decode_fe (\<lambda>fe. bindO init_decode_ff (\<lambda>ff.
           bindO init_decode_fffe (\<lambda>fffe. bindO init_decode_ffff (\<lambda>ffff.
           bindO init_decode_fffff (\<lambda>fffff. bindO init_decode_fffffe (\<lambda>fffffe.
           bindO init_decode_ffffff (\<lambda>ffffff.
             Done \<lparr>huffman_decode0 = t0, huffman_decode_fe = fe, huffman_decode_ff = ff,
                   huffman_decode_fffe = fffe, huffman_decode_ffff = ffff,
                   huffman_decode_fffff = fffff, huffman_decode_fffffe = fffffe,
                   huffman_decode_ffffff = ffffff\<rparr>)))))))))"

section \<open>Prefix-freeness\<close>

definition code_of :: "huffman_encode \<Rightarrow> bool list" where
  "code_of h = win (encoding h) (bits h)"

definition codes :: "bool list list" where
  "codes = map code_of huffman_encode"

definition code :: "u8 \<Rightarrow> bool list" where
  "code v = codes ! unat v"

text \<open>The end-of-string symbol, which no encoder may write.\<close>

definition eos :: "bool list" where
  "eos = replicate 30 True"

datatype trie = Empty | Leaf | Node trie trie

fun insert_code :: "trie \<Rightarrow> bool list \<Rightarrow> trie option" where
  "insert_code Empty [] = Some Leaf"
| "insert_code Empty (b # bs) =
     map_option (\<lambda>t. if b then Node Empty t else Node t Empty) (insert_code Empty bs)"
| "insert_code Leaf bs = None"
| "insert_code (Node l r) [] = None"
| "insert_code (Node l r) (b # bs) =
     (if b then map_option (Node l) (insert_code r bs)
      else map_option (\<lambda>t. Node t r) (insert_code l bs))"

fun build_trie :: "trie \<Rightarrow> bool list list \<Rightarrow> trie option" where
  "build_trie t [] = Some t"
| "build_trie t (c # cs) =
     (case insert_code t c of None \<Rightarrow> None | Some t' \<Rightarrow> build_trie t' cs)"

fun paths :: "trie \<Rightarrow> bool list set" where
  "paths Empty = {}"
| "paths Leaf = {[]}"
| "paths (Node l r) = Cons False ` paths l \<union> Cons True ` paths r"

definition incomparable :: "bool list \<Rightarrow> bool list \<Rightarrow> bool" where
  "incomparable c d \<longleftrightarrow> \<not> prefix c d \<and> \<not> prefix d c"

lemma insert_code_paths:
  "insert_code t c = Some t' \<Longrightarrow> paths t' = insert c (paths t) \<and> (\<forall>p \<in> paths t. incomparable p c)"
  by (induction t c arbitrary: t' rule: insert_code.induct)
     (auto simp: incomparable_def split: if_splits)

lemma build_trie_incomparable:
  "build_trie t cs = Some t' \<Longrightarrow>
     sorted_wrt incomparable cs \<and> (\<forall>p \<in> paths t. \<forall>c \<in> set cs. incomparable p c)"
proof (induction t cs rule: build_trie.induct)
  case (2 t c cs)
  then obtain t1 where t1: "insert_code t c = Some t1" "build_trie t1 cs = Some t'"
    by (auto split: option.splits)
  with 2 insert_code_paths[OF t1(1)] show ?case by auto
qed simp

lemma trie_built: "build_trie Empty (codes @ [eos]) \<noteq> None"
  by code_simp

lemma length_codes: "length codes = 256"
  by code_simp

lemma codes_incomparable: "sorted_wrt incomparable (codes @ [eos])"
  using trie_built build_trie_incomparable by blast

lemma code_prefix_eq: "prefix (code v) (code w) \<Longrightarrow> v = w"
proof (rule ccontr)
  assume p: "prefix (code v) (code w)" and "v \<noteq> w"
  then have "unat v < unat w \<or> unat w < unat v" by (metis linorder_neqE_nat word_unat_eq_iff)
  moreover have "sorted_wrt incomparable codes"
    using codes_incomparable by (simp add: sorted_wrt_append)
  moreover have "unat v < length codes" "unat w < length codes"
    using unat_u8 by (simp_all add: length_codes)
  ultimately show False
    using p by (auto simp: code_def incomparable_def dest: sorted_wrt_nth_less)
qed

lemma code_eos: "\<not> prefix (code v) eos" "\<not> prefix eos (code v)"
proof -
  have "code v \<in> set codes" using unat_u8[of v] by (simp add: code_def length_codes)
  then have "incomparable (code v) eos" using codes_incomparable by (simp add: sorted_wrt_append)
  then show "\<not> prefix (code v) eos" "\<not> prefix eos (code v)" by (simp_all add: incomparable_def)
qed

lemma code_not_empty: "code v \<noteq> []"
  using code_eos(1)[of v] by auto


section \<open>Every entry is the right one\<close>

text \<open>
  What the loops put into entry \<open>i\<close> of a table indexed by \<open>w\<close> bits after the
  \<open>k\<close>-bit prefix \<open>pfx\<close>: nothing yet, or a symbol whose code has this prefix and
  continues with the bits of \<open>i\<close>, as far as both go.
\<close>

definition entry_from :: "nat \<Rightarrow> nat \<Rightarrow> u32 \<Rightarrow> nat \<Rightarrow> huffman_decode \<Rightarrow> huffman_encode \<Rightarrow> bool" where
  "entry_from w k pfx i d h \<longleftrightarrow>
     k < bits h \<and> drop_bit (bits h - k) (encoding h) AND (push_bit k 1 - 1) = pfx \<and>
     symbol h = dec_value d \<and> dec_bits d = bits h - k \<and>
     (if w \<le> dec_bits d then i = unat (encoding h) div 2 ^ (dec_bits d - w) mod 2 ^ w
      else i div 2 ^ (w - dec_bits d) = unat (encoding h) mod 2 ^ dec_bits d)"

definition entries_from :: "nat \<Rightarrow> nat \<Rightarrow> u32 \<Rightarrow> huffman_encode set \<Rightarrow> decode_table \<Rightarrow> bool" where
  "entries_from w k pfx H T \<longleftrightarrow>
     length T = 2 ^ w \<and>
     (\<forall>i < 2 ^ w. dec_bits (T ! i) = 0 \<or> (\<exists>h \<in> H. entry_from w k pfx i (T ! i) h))"

lemma fill_range_spec:
  "fill_range T byte n len v = Done T' \<Longrightarrow> length T' = length T \<and>
     (\<forall>i < length T. T' ! i = (if byte \<le> i \<and> i < byte + n then HD len v else T ! i))"
proof (induction T byte n len v arbitrary: T' rule: fill_range.induct)
  case (2 T byte n len v)
  have c: "\<not> \<not> byte < length T" "\<not> dec_bits (T ! byte) \<noteq> 0"
    and f: "fill_range (T[byte := HD len v]) (byte + 1) n len v = Done T'"
    using "2.prems" by (simp_all split: if_splits)
  from "2.IH"[OF c f] show ?case by (simp add: nth_list_update)
qed auto

lemma entries_update:
  assumes "entries_from w k pfx H T" "length T' = length T"
    and "\<And>i. i < 2 ^ w \<Longrightarrow> T' ! i = T ! i \<or> (\<exists>h \<in> H. entry_from w k pfx i (T' ! i) h)"
  shows "entries_from w k pfx H T'"
  using assms unfolding entries_from_def by metis

lemma run_index:
  assumes "l < w" "e * 2 ^ (w - l) mod 2 ^ w \<le> i" "i < e * 2 ^ (w - l) mod 2 ^ w + 2 ^ (w - l)"
  shows "i div 2 ^ (w - l) = (e :: nat) mod 2 ^ l"
proof -
  have "(2::nat) ^ w = 2 ^ l * 2 ^ (w - l)" using assms(1) by (simp flip: power_add)
  then have s: "e * 2 ^ (w - l) mod 2 ^ w = e mod 2 ^ l * 2 ^ (w - l)"
    by (simp only: mult_mod_left)
  then obtain j where "i = e mod 2 ^ l * 2 ^ (w - l) + j" "j < 2 ^ (w - l)"
    using assms(2,3) by (metis add_less_cancel_left le_Suc_ex)
  then show ?thesis by simp
qed

lemma unat_ucast_push: "unat (ucast (push_bit n (e :: u32)) :: u8) = unat e * 2 ^ n mod 2 ^ 8"
proof -
  have "unat (push_bit n e) = unat e * 2 ^ n mod 2 ^ 32"
    by (simp only: unsigned_push_bit_eq) (simp add: push_bit_eq_mult take_bit_eq_mod)
  then have "unat (ucast (push_bit n e) :: u8) = unat e * 2 ^ n mod 2 ^ 32 mod 2 ^ 8"
    by (simp only: unsigned_ucast_eq) (simp add: take_bit_eq_mod)
  then show ?thesis by (simp add: mod_mod_cancel)
qed

lemma unat_ucast_drop: "unat (ucast (drop_bit n (e :: u32)) :: u8) = unat e div 2 ^ n mod 2 ^ 8"
  by (simp only: unsigned_ucast_eq) (simp add: take_bit_eq_mod unat_drop_bit)

lemma unat_and_f: "unat ((e :: u32) AND 0xf) = unat e mod 2 ^ 4"
proof -
  have "e AND 0xf = take_bit 4 e" by (simp add: take_bit_eq_mask mask_eq_exp_minus_1)
  then show ?thesis by (simp only: unsigned_take_bit_eq) (simp only: take_bit_eq_mod)
qed

lemma fill_row_Done:
  assumes "fill_row k pfx long h T = Done T'"
  defines "len \<equiv> bits h - k"
  shows "T' = T \<or>
    k < bits h \<and> drop_bit len (encoding h) AND (push_bit k 1 - 1) = pfx \<and>
    (8 \<le> len \<and> T' = T[unat (ucast (drop_bit (len - 8) (encoding h)) :: u8) := HD len (symbol h)] \<or>
     len \<le> 8 \<and> fill_range T (unat (ucast (push_bit (8 - len) (encoding h)) :: u8)) (2 ^ (8 - len)) len (symbol h)
       = Done T')"
  using assms(1) unfolding fill_row_def Let_def len_def[symmetric]
  by (simp split: if_splits)

lemma entry_run:
  assumes "len = bits h - k" "len \<le> w" "k < bits h"
    and "drop_bit len (encoding h) AND (push_bit k 1 - 1) = pfx"
    and "unat (encoding h) * 2 ^ (w - len) mod 2 ^ w \<le> i"
    and "i < unat (encoding h) * 2 ^ (w - len) mod 2 ^ w + 2 ^ (w - len)"
  shows "entry_from w k pfx i (HD len (symbol h)) h"
proof (cases "len = w")
  case True
  with assms show ?thesis by (simp add: entry_from_def)
next
  case False
  then have "len < w" using assms(2) by simp
  from run_index[OF this assms(5,6)] this assms show ?thesis by (simp add: entry_from_def)
qed

lemma entries_run:
  assumes E: "entries_from w k pfx H T" and h: "h \<in> H"
    and len: "len = bits h - k" "len \<le> w" "k < bits h"
    and pfx: "drop_bit len (encoding h) AND (push_bit k 1 - 1) = pfx"
    and fill: "fill_range T (unat (encoding h) * 2 ^ (w - len) mod 2 ^ w) (2 ^ (w - len)) len (symbol h) = Done T'"
  shows "entries_from w k pfx H T'"
proof (rule entries_update[OF E])
  show "length T' = length T" using fill_range_spec[OF fill] by simp
  fix i :: nat
  assume "i < 2 ^ w"
  then have "T' ! i = (if unat (encoding h) * 2 ^ (w - len) mod 2 ^ w \<le> i \<and>
      i < unat (encoding h) * 2 ^ (w - len) mod 2 ^ w + 2 ^ (w - len) then HD len (symbol h) else T ! i)"
    using fill_range_spec[OF fill] E by (simp add: entries_from_def)
  then show "T' ! i = T ! i \<or> (\<exists>h \<in> H. entry_from w k pfx i (T' ! i) h)"
    using entry_run[OF len pfx] h by auto
qed

lemma entries_single:
  assumes E: "entries_from w k pfx H T" and h: "h \<in> H"
    and len: "len = bits h - k" "w \<le> len" "k < bits h"
    and pfx: "drop_bit len (encoding h) AND (push_bit k 1 - 1) = pfx"
  shows "entries_from w k pfx H (T[unat (encoding h) div 2 ^ (len - w) mod 2 ^ w := HD len (symbol h)])"
proof -
  let ?j = "unat (encoding h) div 2 ^ (len - w) mod 2 ^ w" and ?d = "HD len (symbol h)"
  have e: "entry_from w k pfx ?j ?d h" using len pfx by (simp add: entry_from_def)
  show ?thesis
  proof (rule entries_update[OF E])
    fix i :: nat
    assume "i < 2 ^ w"
    with e h show "T[?j := ?d] ! i = T ! i \<or> (\<exists>g \<in> H. entry_from w k pfx i (T[?j := ?d] ! i) g)"
      using E by (cases "i = ?j") (auto simp: entries_from_def)
  qed simp
qed

lemma entries_step:
  assumes E: "entries_from w k pfx H T" and h: "h \<in> H"
    and "T' = T \<or>
      k < bits h \<and> drop_bit (bits h - k) (encoding h) AND (push_bit k 1 - 1) = pfx \<and>
      (w \<le> bits h - k \<and>
         T' = T[unat (encoding h) div 2 ^ (bits h - k - w) mod 2 ^ w := HD (bits h - k) (symbol h)] \<or>
       bits h - k \<le> w \<and>
         fill_range T (unat (encoding h) * 2 ^ (w - (bits h - k)) mod 2 ^ w) (2 ^ (w - (bits h - k)))
           (bits h - k) (symbol h) = Done T')"
  shows "entries_from w k pfx H T'"
  using assms(3) E entries_single[OF E h refl] entries_run[OF E h refl] by blast

lemma fill_row_entries:
  assumes "entries_from 8 k pfx H T" "h \<in> H" "fill_row k pfx long h T = Done T'"
  shows "entries_from 8 k pfx H T'"
  using fill_row_Done[OF assms(3)] unfolding unat_ucast_push unat_ucast_drop
  by (rule entries_step[OF assms(1,2)])

lemma fill_row4_Done:
  assumes "fill_row4 k pfx h T = Done T'"
  defines "len \<equiv> bits h - k"
  shows "T' = T \<or>
    k < bits h \<and> drop_bit len (encoding h) AND (push_bit k 1 - 1) = pfx \<and>
    (4 \<le> len \<and> T' = T[unat (drop_bit (len - 4) (encoding h) AND 0xf) := HD len (symbol h)] \<or>
     len \<le> 4 \<and> fill_range T (unat (push_bit (4 - len) (encoding h) AND 0xf)) (2 ^ (4 - len)) len (symbol h)
       = Done T')"
  using assms(1) unfolding fill_row4_def Let_def len_def[symmetric]
  by (simp split: if_splits)

lemma unat_push_mod4: "unat (push_bit n (e :: u32) AND 0xf) = unat e * 2 ^ n mod 2 ^ 4"
proof -
  have "unat (push_bit n e) = unat e * 2 ^ n mod 2 ^ 32"
    by (simp only: unsigned_push_bit_eq) (simp add: push_bit_eq_mult take_bit_eq_mod)
  then show ?thesis by (simp only: unat_and_f) (simp add: mod_mod_cancel)
qed

lemma fill_row4_entries:
  assumes "entries_from 4 k pfx H T" "h \<in> H" "fill_row4 k pfx h T = Done T'"
  shows "entries_from 4 k pfx H T'"
  using fill_row4_Done[OF assms(3)] unfolding unat_push_mod4 unfolding unat_and_f unat_drop_bit
  by (rule entries_step[OF assms(1,2)])

lemma fill_rows_invariant:
  assumes "\<And>h T T'. h \<in> H \<Longrightarrow> I T \<Longrightarrow> row h T = Done T' \<Longrightarrow> I T'"
  shows "fill_rows row hs T = Done T' \<Longrightarrow> set hs \<subseteq> H \<Longrightarrow> I T \<Longrightarrow> I T'"
  by (induction hs arbitrary: T) (auto split: outcome.splits dest: assms)

lemma empty_entries: "entries_from w k pfx H (empty_table (2 ^ w))"
  by (simp add: entries_from_def empty_table_def)

text \<open>
  What the decoder needs of an entry: one of at most \<open>w\<close> bits ends the code of
  its symbol, a longer one stands for a code that goes on, or lies below the
  end-of-string symbol.  \<open>short\<close> are the indices for which the decoder does not
  look any further.
\<close>

definition entry_ok :: "nat \<Rightarrow> bool list \<Rightarrow> bool list \<Rightarrow> huffman_decode \<Rightarrow> bool" where
  "entry_ok w P ib d \<longleftrightarrow>
     (if dec_bits d \<le> w then 0 < dec_bits d \<and> code (dec_value d) = P @ take (dec_bits d) ib
      else prefix (P @ ib) (code (dec_value d)) \<or> prefix eos (P @ ib) \<and> 15 < dec_bits d)"

definition table_ok :: "nat \<Rightarrow> bool list \<Rightarrow> (nat \<Rightarrow> bool) \<Rightarrow> decode_table \<Rightarrow> bool" where
  "table_ok w P short T \<longleftrightarrow> length T = 2 ^ w \<and>
     (\<forall>i < 2 ^ w. entry_ok w P (win (of_nat i) w) (T ! i) \<and> (short i \<longrightarrow> dec_bits (T ! i) \<le> w))"

text \<open>The part of it that is checked by running the construction.\<close>

definition table_full :: "nat \<Rightarrow> (nat \<Rightarrow> bool) \<Rightarrow> decode_table \<Rightarrow> bool" where
  "table_full w short T \<longleftrightarrow>
     list_all2 (\<lambda>i d. 0 < dec_bits d \<and> (short i \<longrightarrow> dec_bits d \<le> w)) [0..<2 ^ w] T"

lemma symbols_in_order: "map (unat \<circ> symbol) huffman_encode = [0..<256]"
  by code_simp

lemma codes_at_most_30: "list_all (\<lambda>h. bits h \<le> 30) huffman_encode"
  by code_simp

lemma code_symbol: "h \<in> set huffman_encode \<Longrightarrow> code (symbol h) = code_of h"
proof -
  assume "h \<in> set huffman_encode"
  then obtain j where j: "j < length huffman_encode" "huffman_encode ! j = h" by (auto simp: in_set_conv_nth)
  have "length huffman_encode = 256" using arg_cong[OF symbols_in_order, of length] by simp
  then have "unat (symbol h) = j" using arg_cong[OF symbols_in_order, of "\<lambda>l. l ! j"] j by simp
  then show ?thesis using j by (simp add: code_def codes_def)
qed

lemma win_prefix_mask: "win (drop_bit l e AND (push_bit k 1 - 1)) k = win (drop_bit l e) k"
proof -
  have "push_bit k 1 - 1 = (mask k :: u32)" by (simp add: mask_eq_exp_minus_1 push_bit_eq_mult)
  then show ?thesis by (auto simp: win_eq_iff bit_and_iff bit_mask_iff bit_drop_bit_eq dest: bit_imp_le_length)
qed

lemma entry_from_ok:
  assumes f: "entry_from w k pfx i d h" and h: "h \<in> set huffman_encode"
    and i: "i < 2 ^ w" and w: "w \<le> 8"
  shows "entry_ok w (win pfx k) (win (of_nat i) w) d"
proof -
  let ?l = "dec_bits d" and ?e = "encoding h"
  have l: "bits h = k + ?l" "0 < ?l" and p: "win pfx k = win (drop_bit ?l ?e) k"
    using f by (auto simp: entry_from_def win_prefix_mask[simplified])
  have l32: "?l \<le> 30" using l h codes_at_most_30 by (auto simp: list_all_iff)
  have "code (dec_value d) = win ?e (k + ?l)"
    using f code_symbol[OF h] by (simp add: entry_from_def l code_of_def)
  then have c: "code (dec_value d) = win pfx k @ win ?e ?l" by (simp add: win_append p)
  have "(2::nat) ^ w \<le> 2 ^ 8" using w by (rule power_increasing) simp
  then have ui: "unat (of_nat i :: u32) = i" using i by (intro unat_of_nat_u32) simp
  show ?thesis
  proof (cases "?l \<le> w")
    case True
    have "take ?l (win (of_nat i) w) = win (drop_bit (w - ?l) (of_nat i)) ?l" using True by (rule take_win)
    also have "\<dots> = win ?e ?l"
    proof (rule win_cong_mod)
      have "i div 2 ^ (w - ?l) mod 2 ^ ?l = unat ?e mod 2 ^ ?l"
        using f True i by (cases "?l = w") (auto simp: entry_from_def)
      then show "unat (drop_bit (w - ?l) (of_nat i :: u32)) mod 2 ^ ?l = unat ?e mod 2 ^ ?l"
        unfolding unat_drop_bit ui .
    qed (use l32 in simp)
    finally show ?thesis using True l c by (simp add: entry_ok_def)
  next
    case False
    have "win (of_nat i) w = win (drop_bit (?l - w) ?e) w"
    proof (rule win_cong_mod)
      show "unat (of_nat i :: u32) mod 2 ^ w = unat (drop_bit (?l - w) ?e) mod 2 ^ w"
        unfolding ui unat_drop_bit using f False by (auto simp: entry_from_def)
    qed (use w in simp)
    moreover have "win ?e ?l = win (drop_bit (?l - w) ?e) w @ win ?e (?l - w)"
      using win_append[of ?e w "?l - w"] False by simp
    ultimately show ?thesis using False c by (simp add: entry_ok_def)
  qed
qed

lemma table_okI:
  assumes "entries_from w k pfx (set huffman_encode) T" "table_full w short T" "w \<le> 8"
  shows "table_ok w (win pfx k) short T"
  using assms entry_from_ok
  unfolding table_ok_def entries_from_def table_full_def list_all2_conv_all_nth by fastforce

definition outcome_ok :: "('a \<Rightarrow> bool) \<Rightarrow> 'a outcome \<Rightarrow> bool" where
  "outcome_ok P m \<longleftrightarrow> (case m of Done x \<Rightarrow> P x | Fail \<Rightarrow> False | Abort r \<Rightarrow> False)"

lemma outcome_okE: "outcome_ok P m \<Longrightarrow> (\<And>x. m = Done x \<Longrightarrow> P x \<Longrightarrow> R) \<Longrightarrow> R"
  by (cases m) (auto simp: outcome_ok_def)

lemma decode0_full: "outcome_ok (table_full 8 (\<lambda>i. i < 0xfe)) init_decode0"
  by code_simp

lemma decode_fe_full: "outcome_ok (table_full 8 (\<lambda>i. True)) init_decode_fe"
  by code_simp

lemma decode_ff_full: "outcome_ok (table_full 8 (\<lambda>i. i < 0xfe)) init_decode_ff"
  by code_simp

lemma decode_fffe_full: "outcome_ok (table_full 8 (\<lambda>i. True)) init_decode_fffe"
  by code_simp

lemma decode_ffff_full: "outcome_ok (table_full 8 (\<lambda>i. i < 0xf0)) init_decode_ffff"
  by code_simp

lemma decode_fffff_full: "outcome_ok (table_full 8 (\<lambda>i. i < 0xe0)) init_decode_fffff"
  by code_simp

lemma decode_fffffe_full:
  "outcome_ok (\<lambda>T. table_full 4 (\<lambda>i. True) T \<and>
     list_all (\<lambda>d. dec_bits d = 4 \<or> dec_bits d = 3 \<and> dec_value d = 254) T) init_decode_fffffe"
  by code_simp

lemma decode_ffffff_full: "outcome_ok (table_full 8 (\<lambda>i. i < 252)) init_decode_ffffff"
  by code_simp

lemma bindO_Done: "bindO m f = Done y \<longleftrightarrow> (\<exists>x. m = Done x \<and> f x = Done y)"
  by (cases m) (simp_all add: bindO_def)

lemma rows_entries:
  "fill_rows (fill_row k pfx long) huffman_encode (empty_table 256) = Done T \<Longrightarrow>
     entries_from 8 k pfx (set huffman_encode) T"
  using fill_rows_invariant[of "set huffman_encode" "entries_from 8 k pfx (set huffman_encode)"
      "fill_row k pfx long" huffman_encode "empty_table 256" T]
    fill_row_entries empty_entries[of 8] by simp

lemma rows4_entries:
  "fill_rows (fill_row4 k pfx) huffman_encode (empty_table 16) = Done T \<Longrightarrow>
     entries_from 4 k pfx (set huffman_encode) T"
  using fill_rows_invariant[of "set huffman_encode" "entries_from 4 k pfx (set huffman_encode)"
      "fill_row4 k pfx" huffman_encode "empty_table 16" T]
    fill_row4_entries empty_entries[of 4] by simp

lemma check_filled_Done: "check_filled T = Done T' \<Longrightarrow> T' = T"
  by (simp add: check_filled_def split: if_splits)

lemma checked_rows_ok:
  assumes "outcome_ok (table_full 8 short) (bindO (fill_rows (fill_row k pfx long) huffman_encode (empty_table 256)) check_filled)"
  shows "outcome_ok (table_ok 8 (win pfx k) short)
    (bindO (fill_rows (fill_row k pfx long) huffman_encode (empty_table 256)) check_filled)"
proof (rule outcome_okE[OF assms])
  fix T
  assume T: "bindO (fill_rows (fill_row k pfx long) huffman_encode (empty_table 256)) check_filled = Done T"
    and full: "table_full 8 short T"
  then have "fill_rows (fill_row k pfx long) huffman_encode (empty_table 256) = Done T"
    by (auto simp: bindO_Done dest: check_filled_Done)
  then show ?thesis using table_okI[OF rows_entries full] unfolding outcome_ok_def T by simp
qed

lemma decode0_ok: "outcome_ok (table_ok 8 [] (\<lambda>i. i < 0xfe)) init_decode0"
proof (rule outcome_okE[OF decode0_full])
  fix T
  assume T: "init_decode0 = Done T" and full: "table_full 8 (\<lambda>i. i < 0xfe) T"
  then have "fill_rows (fill_row 0 0 True) huffman_encode (empty_table 256) = Done T"
    unfolding init_decode0_def by simp
  then have "table_ok 8 (win 0 0) (\<lambda>i. i < 0xfe) T"
    using full by (intro table_okI rows_entries) simp_all
  then show ?thesis unfolding outcome_ok_def T by simp
qed

lemmas checked_tables_ok =
  decode_fe_full[unfolded init_decode_fe_def, THEN checked_rows_ok, folded init_decode_fe_def]
  decode_ff_full[unfolded init_decode_ff_def, THEN checked_rows_ok, folded init_decode_ff_def]
  decode_fffe_full[unfolded init_decode_fffe_def, THEN checked_rows_ok, folded init_decode_fffe_def]
  decode_ffff_full[unfolded init_decode_ffff_def, THEN checked_rows_ok, folded init_decode_ffff_def]
  decode_fffff_full[unfolded init_decode_fffff_def, THEN checked_rows_ok, folded init_decode_fffff_def]

lemma decode_fffffe_ok:
  "outcome_ok (\<lambda>T. table_ok 4 (win 0xfffffe 24) (\<lambda>i. True) T \<and>
     list_all (\<lambda>d. dec_bits d = 4 \<or> dec_bits d = 3 \<and> dec_value d = 254) T) init_decode_fffffe"
proof (rule outcome_okE[OF decode_fffffe_full])
  fix T
  assume T: "init_decode_fffffe = Done T" and full: "table_full 4 (\<lambda>i. True) T \<and>
     list_all (\<lambda>d. dec_bits d = 4 \<or> dec_bits d = 3 \<and> dec_value d = 254) T"
  then have "fill_rows (fill_row4 24 0xfffffe) huffman_encode (empty_table 16) = Done T"
    unfolding init_decode_fffffe_def bindO_Done by (auto dest: check_filled_Done)
  then have "table_ok 4 (win 0xfffffe 24) (\<lambda>i. True) T"
    using full by (intro table_okI rows4_entries) simp_all
  then show ?thesis using full unfolding outcome_ok_def T by simp
qed

lemma unused_below_eos:
  "list_all (\<lambda>i. prefix eos (win 0xffffff 24 @ win (of_nat i) 8)) [252..<256]"
  by code_simp

lemma decode_ffffff_ok: "outcome_ok (table_ok 8 (win 0xffffff 24) (\<lambda>i. i < 252)) init_decode_ffffff"
proof (rule outcome_okE[OF decode_ffffff_full])
  fix T
  assume T: "init_decode_ffffff = Done T" and full: "table_full 8 (\<lambda>i. i < 252) T"
  then obtain T0 where rows: "fill_rows (fill_row 24 0xffffff False) huffman_encode (empty_table 256) = Done T0"
    and Tc: "T = claim_unused T0"
    unfolding init_decode_ffffff_def bindO_Done by (auto dest: check_filled_Done)
  have e0: "entries_from 8 24 0xffffff (set huffman_encode) T0" by (rule rows_entries[OF rows])
  then have len: "length T0 = 256" by (simp add: entries_from_def)
  have "entry_ok 8 (win 0xffffff 24) (win (of_nat i) 8) (T ! i)" if i: "i < 256" for i
  proof (cases "i < 252")
    case True
    then have Ti: "T ! i = T0 ! i" by (simp add: Tc claim_unused_def nth_append len)
    have "0 < dec_bits (T ! i)" using full i by (simp add: table_full_def list_all2_conv_all_nth)
    then obtain h where "h \<in> set huffman_encode" "entry_from 8 24 0xffffff i (T ! i) h"
      using e0 i by (auto simp: entries_from_def Ti)
    then show ?thesis using i by (intro entry_from_ok) simp_all
  next
    case False
    then have "T ! i = HD 42 42" using i by (simp add: Tc claim_unused_def nth_append len)
    moreover have "prefix eos (win 0xffffff 24 @ win (of_nat i) 8)"
      using unused_below_eos False i unfolding list_all_iff set_upt by (simp del: upt_rec_numeral)
    ultimately show ?thesis by (simp add: entry_ok_def)
  qed
  then have "table_ok 8 (win 0xffffff 24) (\<lambda>i. i < 252) T"
    using full by (simp add: table_ok_def table_full_def list_all2_conv_all_nth)
  then show ?thesis unfolding outcome_ok_def T by simp
qed

definition tables_ok :: "huffman_tables \<Rightarrow> bool" where
  "tables_ok T \<longleftrightarrow>
     table_ok 8 [] (\<lambda>i. i < 0xfe) (huffman_decode0 T) \<and>
     table_ok 8 (win 0xfe 8) (\<lambda>i. True) (huffman_decode_fe T) \<and>
     table_ok 8 (win 0xff 8) (\<lambda>i. i < 0xfe) (huffman_decode_ff T) \<and>
     table_ok 8 (win 0xfffe 16) (\<lambda>i. True) (huffman_decode_fffe T) \<and>
     table_ok 8 (win 0xffff 16) (\<lambda>i. i < 0xf0) (huffman_decode_ffff T) \<and>
     table_ok 8 (win 0xfffff 20) (\<lambda>i. i < 0xe0) (huffman_decode_fffff T) \<and>
     table_ok 4 (win 0xfffffe 24) (\<lambda>i. True) (huffman_decode_fffffe T) \<and>
     list_all (\<lambda>d. dec_bits d = 4 \<or> dec_bits d = 3 \<and> dec_value d = 254) (huffman_decode_fffffe T) \<and>
     table_ok 8 (win 0xffffff 24) (\<lambda>i. i < 252) (huffman_decode_ffffff T)"

lemma outcome_ok_bindO:
  "outcome_ok P m \<Longrightarrow> (\<And>x. P x \<Longrightarrow> outcome_ok Q (f x)) \<Longrightarrow> outcome_ok Q (bindO m f)"
  by (cases m) (auto simp: outcome_ok_def bindO_def)

lemma init_huffman_ok: "outcome_ok tables_ok init_huffman"
  unfolding init_huffman_def
  by (subst if_not_P, simp add: symbols_in_order)
     (rule outcome_ok_bindO decode0_ok checked_tables_ok decode_fffffe_ok decode_ffffff_ok
       | simp add: outcome_ok_def tables_ok_def)+

end
