(* ===== verification/Huffman.thy ===== *)
theory Huffman
  imports Huffman_Table Http2_Env
begin

text \<open>
  The table-driven Huffman decoder \<open>Xdecode_huffman2\<close> of \<^verbatim>\<open>eperd/http2.c\<close>.  It
  keeps the bits not yet decoded in the low part of a 32-bit word; the lemmas
  relate that window to the bit stream of the input, each table lookup to the
  code, and the loop to the decomposition of the stream into codes.
\<close>


section \<open>Model\<close>

text \<open>The local variables \<open>bits\<close>, \<open>bitslen\<close> and \<open>o\<close>.\<close>

type_synonym huff_state = "u32 \<times> nat \<times> nat"

text \<open>What one round of the loop does.\<close>

datatype huff_result =
    Emit u8 huff_state    \<comment> \<open>a symbol, then \<open>continue\<close>\<close>
  | Finish                \<comment> \<open>\<open>break\<close>\<close>
  | Garbage string        \<comment> \<open>GOAWAY and return 0\<close>
  | Stray string          \<comment> \<open>an access outside an array\<close>

text \<open>
  ``Try to have at least \<open>k\<close> bits'', with \<open>None\<close> for a read past the buffer; then
  the next byte of the stream, filled up with zeros at the end of the input.
\<close>

definition refill :: "bytes \<Rightarrow> nat \<Rightarrow> nat \<Rightarrow> huff_state \<Rightarrow> huff_state option" where
  "refill buf len k = (\<lambda>(b, n, i).
     if n < k \<and> i < len then
       if i < length buf then Some (push_bit 8 b OR ucast (buf ! i), n + 8, i + 1) else None
     else Some (b, n, i))"

definition peek8 :: "u32 \<Rightarrow> nat \<Rightarrow> u8" where
  "peek8 b n = (if n < 8 then ucast (push_bit (8 - n) b) else ucast (drop_bit (n - 8) b AND 0xff))"

definition peek4 :: "u32 \<Rightarrow> nat \<Rightarrow> u8" where
  "peek4 b n = (if n < 4 then ucast (push_bit (4 - n) b) else ucast (drop_bit (n - 4) b AND 0xf))"

definition with_byte :: "bytes \<Rightarrow> nat \<Rightarrow> huff_state \<Rightarrow> (u8 \<Rightarrow> huff_state \<Rightarrow> huff_result) \<Rightarrow> huff_result" where
  "with_byte buf len st f =
     (case refill buf len 8 st of None \<Rightarrow> Stray ''read past the buffer''
      | Some (b, n, i) \<Rightarrow> f (peek8 b n) (b, n, i))"

definition huff_lookup :: "decode_table \<Rightarrow> string \<Rightarrow> u8 \<Rightarrow> huff_state \<Rightarrow> huff_result" where
  "huff_lookup T err byte = (\<lambda>(b, n, i).
     let declen = dec_bits (T ! unat byte); decval = dec_value (T ! unat byte) in
     if declen \<le> n then Emit decval (b, n - declen, i) else Garbage err)"

text \<open>\<open>bitslen -= k\<close>.\<close>

definition skip_bits :: "nat \<Rightarrow> huff_state \<Rightarrow> huff_state" where
  "skip_bits k = (\<lambda>(b, n, i). (b, n - k, i))"

text \<open>After \<open>0xfffffe\<close>: four bits select the entry; the index is not reduced to them.\<close>

definition huff_fffffe :: "huffman_tables \<Rightarrow> bytes \<Rightarrow> nat \<Rightarrow> huff_state \<Rightarrow> huff_result" where
  "huff_fffffe T buf len st =
     (case refill buf len 4 st of None \<Rightarrow> Stray ''read past the buffer''
      | Some (b, n, i) \<Rightarrow>
          let nibble = peek4 b n in
          if \<not> unat nibble < length (huffman_decode_fffffe T)
          then Stray ''index outside huffman_decode_fffffe''
          else huff_lookup (huffman_decode_fffffe T) ''not enough bits'' nibble (b, n, i))"

text \<open>After \<open>0xffffff\<close>.\<close>

definition huff_ffffff :: "huffman_tables \<Rightarrow> bytes \<Rightarrow> nat \<Rightarrow> huff_state \<Rightarrow> huff_result" where
  "huff_ffffff T buf len st = with_byte buf len st (\<lambda>byte st.
     if byte \<noteq> 0xff then huff_lookup (huffman_decode_ffffff T) ''garbage at end of string'' byte st
     else Garbage ''should decode ff'')"

text \<open>After \<open>0xffff\<close>.\<close>

definition huff_ffff :: "huffman_tables \<Rightarrow> bytes \<Rightarrow> nat \<Rightarrow> huff_state \<Rightarrow> huff_result" where
  "huff_ffff T buf len st = with_byte buf len st (\<lambda>byte st.
     let n = fst (snd st) in
     if 8 \<le> n \<and> byte = 0xfe then huff_fffffe T buf len (skip_bits 8 st)
     else if 8 \<le> n \<and> byte AND 0xf0 = 0xf0 \<and> byte \<noteq> 0xff
     then with_byte buf len (skip_bits 4 st) (\<lambda>byte st.
            huff_lookup (huffman_decode_fffff T) ''not enough bits'' byte st)
     else if byte \<noteq> 0xff then huff_lookup (huffman_decode_ffff T) ''garbage at end of string'' byte st
     else huff_ffffff T buf len (skip_bits 8 st))"

text \<open>After \<open>0xff\<close>.\<close>

definition huff_ff :: "huffman_tables \<Rightarrow> bytes \<Rightarrow> nat \<Rightarrow> huff_state \<Rightarrow> huff_result" where
  "huff_ff T buf len st = with_byte buf len st (\<lambda>byte st.
     let n = fst (snd st) in
     if 8 \<le> n \<and> byte = 0xfe
     then with_byte buf len (skip_bits 8 st) (\<lambda>byte st.
            huff_lookup (huffman_decode_fffe T) ''not enough bits'' byte st)
     else if byte \<noteq> 0xff then huff_lookup (huffman_decode_ff T) ''garbage at end of string'' byte st
     else huff_ffff T buf len (skip_bits 8 st))"

text \<open>The end-of-string test: the bits that are left must all be one.\<close>

definition all_ones :: "huff_state \<Rightarrow> bool" where
  "all_ones = (\<lambda>(b, n, i). let mask = ucast (push_bit n 1 - 1 :: u32) :: u8 in
     b AND ucast mask = ucast mask)"

definition huff_step :: "huffman_tables \<Rightarrow> bytes \<Rightarrow> nat \<Rightarrow> huff_state \<Rightarrow> huff_result" where
  "huff_step T buf len st = with_byte buf len st (\<lambda>byte st.
     let n = fst (snd st) in
     if 8 \<le> n \<and> byte = 0xfe
     then with_byte buf len (skip_bits 8 st) (\<lambda>byte st.
            huff_lookup (huffman_decode_fe T) ''not enough bits'' byte st)
     else if byte \<noteq> 0xff then
       (case huff_lookup (huffman_decode0 T) ''garbage at end of string'' byte st of
          Garbage err \<Rightarrow> if all_ones st then Finish else Garbage err
        | r \<Rightarrow> r)
     else huff_ff T buf len (skip_bits 8 st))"

function huff_loop :: "huffman_tables \<Rightarrow> bytes \<Rightarrow> nat \<Rightarrow> nat \<Rightarrow> huff_state \<Rightarrow> bytes \<Rightarrow> bytes h2m" where
  "huff_loop T buf len outbuflen st out =
     (case huff_step T buf len st of
        Emit v st' \<Rightarrow>
          if outbuflen \<le> length out
          then failH HTTP2_COMPRESSION_ERROR ''no space in output buffer''
          else huff_loop T buf len outbuflen st' (out @ [v])
      | Finish \<Rightarrow> retH out
      | Garbage err \<Rightarrow> failH HTTP2_COMPRESSION_ERROR err
      | Stray r \<Rightarrow> crashH (Undefined r))"
  by pat_completeness auto

termination
  by (relation "measure (\<lambda>(T, buf, len, outbuflen, st, out). outbuflen - length out)") auto

declare huff_loop.simps [simp del]

definition Xdecode_huffman2 :: "huffman_tables \<Rightarrow> bytes \<Rightarrow> nat \<Rightarrow> nat \<Rightarrow> bytes h2m" where
  "Xdecode_huffman2 T buf len outbuflen = huff_loop T buf len outbuflen (0, 0, 0) []"


section \<open>The window and the stream\<close>

definition stream :: "bytes \<Rightarrow> bool list" where
  "stream bs = concat (map byte_bits bs)"

text \<open>The bits still to be decoded: those in the window, then those of the bytes not read.\<close>

definition pending :: "bytes \<Rightarrow> nat \<Rightarrow> huff_state \<Rightarrow> bool list" where
  "pending buf len = (\<lambda>(b, n, i). win b n @ stream (drop i (take len buf)))"

definition st_ok :: "nat \<Rightarrow> huff_state \<Rightarrow> bool" where
  "st_ok len = (\<lambda>(b, n, i). n \<le> 15 \<and> i \<le> len)"

text \<open>The window holds \<open>k\<close> bits, unless the input is used up.\<close>

definition filled :: "nat \<Rightarrow> nat \<Rightarrow> huff_state \<Rightarrow> bool" where
  "filled len k = (\<lambda>(b, n, i). k \<le> n \<or> i = len)"

lemma refill_ok:
  assumes "st_ok len st" "len \<le> length buf" "k \<le> 8"
  shows "\<exists>st'. refill buf len k st = Some st' \<and> st_ok len st' \<and> filled len k st' \<and>
    pending buf len st' = pending buf len st"
proof -
  obtain b n i where st: "st = (b, n, i)" by (cases st)
  show ?thesis
  proof (cases "n < k \<and> i < len")
    case True
    then have d: "drop i (take len buf) = buf ! i # drop (i + 1) (take len buf)"
      using assms(2) by (simp add: Cons_nth_drop_Suc[symmetric] min_absorb2)
    have "win (push_bit 8 b OR ucast (buf ! i)) (n + 8) = win b n @ byte_bits (buf ! i)"
      using True assms(3) by (intro win_push_byte) simp
    then show ?thesis
      using True assms unfolding st
      by (simp add: refill_def st_ok_def filled_def pending_def stream_def d)
  next
    case False
    then show ?thesis
      using assms unfolding st by (auto simp: refill_def st_ok_def filled_def)
  qed
qed

lemma refill_stays: "\<not> (n < k \<and> i < len) \<Longrightarrow> refill buf len k (b, n, i) = Some (b, n, i)"
  by (auto simp: refill_def)

lemma ucast_and_ff: "ucast (w AND 0xff :: u32) = (ucast w :: u8)"
proof (rule bit_word_eqI)
  have "(0xff :: u32) = mask 8" by (simp add: mask_eq_exp_minus_1)
  then show "n < LENGTH(8) \<Longrightarrow> bit (ucast (w AND 0xff :: u32) :: u8) n = bit (ucast w :: u8) n" for n
    by (simp only: bit_ucast_iff bit_and_iff bit_mask_iff) auto
qed

lemma peek8_bits:
  assumes "filled len 8 (b, n, i)" "n \<le> 15" "len \<le> length buf"
  shows "byte_bits (peek8 b n) = take 8 (pending buf len (b, n, i) @ replicate 8 False)"
proof (cases "n < 8")
  case True
  then show ?thesis
    using assms by (simp add: peek8_def filled_def pending_def stream_def byte_bits_peek_short)
next
  case False
  then show ?thesis
    using assms byte_bits_peek[of n b] by (simp add: peek8_def pending_def ucast_and_ff)
qed

lemma peek8_full:
  assumes "8 \<le> n" "n \<le> 15"
  shows "pending buf len (b, n, i) = byte_bits (peek8 b n) @ pending buf len (skip_bits 8 (b, n, i))"
proof -
  have "byte_bits (peek8 b n) = take 8 (win b n)"
    using assms byte_bits_peek[of n b] by (simp add: peek8_def ucast_and_ff)
  moreover have "win b n = take 8 (win b n) @ win b (n - 8)"
    using assms append_take_drop_id[of 8 "win b n"] by (simp add: drop_win)
  ultimately show ?thesis by (simp add: pending_def skip_bits_def)
qed

lemma skip_ok: "st_ok len st \<Longrightarrow> st_ok len (skip_bits k st)"
  by (cases st) (auto simp: st_ok_def skip_bits_def)

lemma skip_pending:
  "k \<le> n \<Longrightarrow> pending buf len (b, n - k, i) = drop k (pending buf len (b, n, i))"
  by (simp add: pending_def drop_win)


section \<open>A table lookup\<close>

definition short_ones :: "bool list \<Rightarrow> bool" where
  "short_ones bs \<longleftrightarrow> length bs < 8 \<and> bs = replicate (length bs) True"

definition no_code :: "bool list \<Rightarrow> bool" where
  "no_code bs \<longleftrightarrow> (\<forall>v. \<not> prefix (code v) bs)"

text \<open>What the outcome of a round means for the bits that were pending.\<close>

definition result_ok :: "bytes \<Rightarrow> nat \<Rightarrow> bool list \<Rightarrow> huff_result \<Rightarrow> bool" where
  "result_ok buf len bs r \<longleftrightarrow>
     (case r of
        Emit v st' \<Rightarrow> st_ok len st' \<and> bs = code v @ pending buf len st'
      | Finish \<Rightarrow> short_ones bs
      | Garbage err \<Rightarrow> no_code bs \<and> \<not> short_ones bs
      | Stray e \<Rightarrow> e = ''index outside huffman_decode_fffffe'' \<and> 24 \<le> length bs \<and>
          (bs = code 254 \<or> no_code bs))"

text \<open>An entry longer than what is left rules out every code.\<close>

lemma entry_blocks:
  assumes e: "entry_ok w P ib d" and ib: "ib = take w (bs @ replicate w False)"
    and long: "length bs < dec_bits d \<or> dec_bits d > w"
    and C: "w \<le> length bs \<Longrightarrow> dec_bits d \<le> w \<or> prefix eos (P @ ib)"
  shows "no_code (P @ bs)"
  unfolding no_code_def
proof (intro allI notI)
  fix c
  assume p: "prefix (code c) (P @ bs)"
  have lc: "length (code c) \<le> length P + length bs" using prefix_length_le[OF p] by simp
  consider (eos) "prefix eos (P @ ib)" | (short) "dec_bits d \<le> w" "\<not> prefix eos (P @ ib)"
    | (long) "w < dec_bits d" "prefix (P @ ib) (code (dec_value d))" "\<not> prefix eos (P @ ib)"
    using e by (auto simp: entry_ok_def split: if_splits)
  then show False
  proof cases
    case eos
    have "prefix (P @ ib) (P @ bs) \<or> prefix (P @ bs) (P @ ib)"
      by (cases "w \<le> length bs") (auto simp: ib take_is_prefix)
    then show False
      using p eos code_eos[of c] by (metis prefix_order.trans prefix_same_cases)
  next
    case short
    have w: "length bs < dec_bits d" using long short(1) by simp
    have bs: "prefix bs ib" using w short(1) by (simp add: ib)
    have v: "code (dec_value d) = P @ take (dec_bits d) ib" using e short(1) by (simp add: entry_ok_def)
    have l: "length (code (dec_value d)) = length P + dec_bits d"
      using short(1) unfolding v by (simp add: ib)
    have p1: "prefix (code c) (P @ ib)" using p bs by (meson prefix_order.trans same_prefix_prefix)
    have p2: "prefix (code (dec_value d)) (P @ ib)" unfolding v by (simp add: take_is_prefix)
    have "prefix (code c) (code (dec_value d))"
      by (rule prefix_length_prefix[OF p1 p2]) (use lc w l in simp)
    then have "code c = code (dec_value d)" using code_prefix_eq by blast
    with lc w l show False by simp
  next
    case long': long
    have w: "length bs < w" by (rule ccontr) (use C long' in \<open>simp add: not_less\<close>)
    have "prefix bs ib" using w by (simp add: ib)
    then have "prefix (code c) (code (dec_value d))"
      using p long'(2) by (meson prefix_order.trans same_prefix_prefix)
    then have "code c = code (dec_value d)" using code_prefix_eq by blast
    moreover have "length P + w \<le> length (code (dec_value d))"
      using prefix_length_le[OF long'(2)] by (simp add: ib)
    ultimately show False using lc w by simp
  qed
qed

lemma entry_emits:
  assumes e: "entry_ok w P ib d" and ib: "ib = take w (bs @ replicate w False)"
    and "dec_bits d \<le> w" "dec_bits d \<le> length bs"
  shows "P @ bs = code (dec_value d) @ drop (dec_bits d) bs"
  using assms by (simp add: entry_ok_def)

lemma table_entry:
  "table_ok w P short T \<Longrightarrow> j < 2 ^ w \<Longrightarrow> entry_ok w P (win (of_nat j) w) (T ! j)"
  "table_ok w P short T \<Longrightarrow> j < 2 ^ w \<Longrightarrow> short j \<Longrightarrow> dec_bits (T ! j) \<le> w"
  by (simp_all add: table_ok_def)

lemma byte_entry:
  assumes "table_ok 8 P short T"
  shows "entry_ok 8 P (byte_bits byte) (T ! unat byte)"
    and "short (unat byte) \<Longrightarrow> dec_bits (T ! unat byte) \<le> 8"
  using table_entry[OF assms, of "unat byte"] unat_u8[of byte] by (simp_all add: byte_bits_win)

lemma pending_length: "n \<le> length (pending buf len (b, n, i))"
  by (simp add: pending_def)

lemma lookup_cases:
  assumes T: "table_ok 8 P short T" and ok: "st_ok len (b, n, i)" and fl: "filled len 8 (b, n, i)"
    and len: "len \<le> length buf"
    and C: "8 \<le> n \<Longrightarrow> short (unat (peek8 b n)) \<or> prefix eos (P @ byte_bits (peek8 b n))"
  defines "d \<equiv> T ! unat (peek8 b n)" and "bs \<equiv> pending buf len (b, n, i)"
  shows "dec_bits d \<le> n \<Longrightarrow> st_ok len (b, n - dec_bits d, i) \<and>
      P @ bs = code (dec_value d) @ pending buf len (b, n - dec_bits d, i)"
    and "\<not> dec_bits d \<le> n \<Longrightarrow> no_code (P @ bs) \<and> (8 \<le> n \<longrightarrow> prefix eos (P @ byte_bits (peek8 b n)))"
proof -
  let ?ib = "byte_bits (peek8 b n)"
  have n15: "n \<le> 15" using ok by (simp add: st_ok_def)
  have ib: "?ib = take 8 (bs @ replicate 8 False)" unfolding bs_def by (rule peek8_bits[OF fl n15 len])
  have e: "entry_ok 8 P ?ib d" unfolding d_def by (rule byte_entry[OF T])
  have C': "8 \<le> n \<Longrightarrow> dec_bits d \<le> 8 \<or> prefix eos (P @ ?ib) \<and> 15 < dec_bits d"
  proof -
    assume "8 \<le> n"
    moreover have "\<not> (prefix eos (P @ ?ib) \<and> prefix (P @ ?ib) (code (dec_value d)))"
      using code_eos(2) prefix_order.trans by blast
    ultimately show ?thesis using C byte_entry(2)[OF T] e unfolding d_def by (auto simp: entry_ok_def split: if_splits)
  qed
  have bsn: "n < 8 \<Longrightarrow> length bs = n" using fl len by (simp add: filled_def bs_def pending_def stream_def)
  have bs8: "8 \<le> n \<Longrightarrow> 8 \<le> length bs" using pending_length[of n buf len b i] by (simp add: bs_def)
  show "dec_bits d \<le> n \<Longrightarrow> st_ok len (b, n - dec_bits d, i) \<and>
      P @ bs = code (dec_value d) @ pending buf len (b, n - dec_bits d, i)"
  proof -
    assume l: "dec_bits d \<le> n"
    have "dec_bits d \<le> 8" using l C' n15 by (cases "8 \<le> n") auto
    moreover have "dec_bits d \<le> length bs" using l pending_length[of n buf len b i] by (simp add: bs_def)
    ultimately have "P @ bs = code (dec_value d) @ drop (dec_bits d) bs" by (rule entry_emits[OF e ib])
    then show ?thesis using l ok unfolding bs_def skip_pending[OF l] by (auto simp: st_ok_def)
  qed
  assume l: "\<not> dec_bits d \<le> n"
  have "no_code (P @ bs)"
  proof (rule entry_blocks[OF e ib])
    show "length bs < dec_bits d \<or> 8 < dec_bits d" using l bsn by (cases "n < 8") auto
    show "8 \<le> length bs \<Longrightarrow> dec_bits d \<le> 8 \<or> prefix eos (P @ ?ib)"
      using C' bsn by (cases "n < 8") auto
  qed
  then show "no_code (P @ bs) \<and> (8 \<le> n \<longrightarrow> prefix eos (P @ ?ib))" using l C' by auto
qed

lemma lookup_result:
  assumes "table_ok 8 P short T" "st_ok len st" "filled len 8 st" "len \<le> length buf"
    and "\<And>b n i. st = (b, n, i) \<Longrightarrow> byte = peek8 b n"
    and "8 \<le> fst (snd st) \<Longrightarrow> short (unat byte) \<or> prefix eos (P @ byte_bits byte)"
    and "8 \<le> length P" and "bs = P @ pending buf len st"
  shows "result_ok buf len bs (huff_lookup T err byte st)"
proof -
  obtain b n i where st: "st = (b, n, i)" by (cases st)
  note c = lookup_cases[of P short T len b n i buf] 
  show ?thesis
    using c assms unfolding st
    by (auto simp: huff_lookup_def result_ok_def Let_def short_ones_def)
qed


section \<open>One round\<close>

lemma with_byte_result:
  assumes "st_ok len st" "len \<le> length buf"
    and "\<And>b n i. st_ok len (b, n, i) \<Longrightarrow> filled len 8 (b, n, i) \<Longrightarrow>
      pending buf len (b, n, i) = pending buf len st \<Longrightarrow> result_ok buf len bs (f (peek8 b n) (b, n, i))"
  shows "result_ok buf len bs (with_byte buf len st f)"
proof -
  obtain st' where st': "refill buf len 8 st = Some st'" "st_ok len st'" "filled len 8 st'"
    "pending buf len st' = pending buf len st"
    using refill_ok[OF assms(1,2), of 8] by auto
  then show ?thesis using assms(3) by (cases st') (simp add: with_byte_def)
qed

text \<open>Facts about all bytes, by going through them.\<close>

lemma all_bytes: "(\<forall>k < 256. P (of_nat k :: u8)) \<Longrightarrow> P b"
  using unat_u8[of b] by (metis of_nat_unat ucast_id)

lemma byte_facts:
  "list_all (\<lambda>k. let b = of_nat k :: u8 in
     (b AND 0xf0 = 0xf0 \<and> b \<noteq> 0xfe \<and> b \<noteq> 0xff \<longrightarrow>
        take 4 (byte_bits b) = replicate 4 True \<and> take 3 (drop 4 (byte_bits b)) \<noteq> replicate 3 True) \<and>
     (b AND 0xf0 \<noteq> 0xf0 \<longrightarrow> unat b < 0xf0) \<and>
     (take 3 (byte_bits b) \<noteq> replicate 3 True \<longrightarrow> unat b < 0xe0) \<and>
     (last (byte_bits b) = odd (unat b))) [0..<256]"
  by code_simp

lemma high_nibble:
  assumes "b AND 0xf0 = 0xf0" "b \<noteq> 0xfe" "b \<noteq> (0xff :: u8)"
  shows "take 4 (byte_bits b) = replicate 4 True" "take 3 (drop 4 (byte_bits b)) \<noteq> replicate 3 True"
proof -
  have "b AND 0xf0 = 0xf0 \<and> b \<noteq> 0xfe \<and> b \<noteq> 0xff \<longrightarrow>
      take 4 (byte_bits b) = replicate 4 True \<and> take 3 (drop 4 (byte_bits b)) \<noteq> replicate 3 True"
    by (rule all_bytes) (use byte_facts in \<open>simp add: list_all_iff Let_def del: upt_rec_numeral\<close>)
  with assms show "take 4 (byte_bits b) = replicate 4 True" "take 3 (drop 4 (byte_bits b)) \<noteq> replicate 3 True"
    by auto
qed

lemma below_f0: "b AND 0xf0 \<noteq> (0xf0 :: u8) \<Longrightarrow> unat b < 0xf0"
proof -
  have "b AND 0xf0 \<noteq> 0xf0 \<longrightarrow> unat b < 0xf0"
    by (rule all_bytes) (use byte_facts in \<open>simp add: list_all_iff Let_def del: upt_rec_numeral\<close>)
  then show "b AND 0xf0 \<noteq> 0xf0 \<Longrightarrow> unat b < 0xf0" by simp
qed

lemma below_e0: "take 3 (byte_bits b) \<noteq> replicate 3 True \<Longrightarrow> unat b < 0xe0"
proof -
  have "take 3 (byte_bits b) \<noteq> replicate 3 True \<longrightarrow> unat b < 0xe0"
    by (rule all_bytes) (use byte_facts in \<open>simp add: list_all_iff Let_def del: upt_rec_numeral\<close>)
  then show "take 3 (byte_bits b) \<noteq> replicate 3 True \<Longrightarrow> unat b < 0xe0" by simp
qed

lemma peek8_ff: "peek8 b n = 0xff \<Longrightarrow> 8 \<le> n"
proof (rule ccontr)
  assume p: "peek8 b n = 0xff" and "\<not> 8 \<le> n"
  then have n: "n < 8" by simp
  then have "byte_bits (0xff :: u8) = win b n @ replicate (8 - n) False"
    using byte_bits_peek_short[OF n, of b] p by (simp add: peek8_def)
  then have "last (byte_bits (0xff :: u8)) = False" using n by simp
  moreover have "last (byte_bits (0xff :: u8))" by code_simp
  ultimately show False by simp
qed

lemma below_fe: "b \<noteq> 0xfe \<Longrightarrow> b \<noteq> (0xff :: u8) \<Longrightarrow> unat b < 0xfe"
proof -
  assume "b \<noteq> 0xfe" "b \<noteq> 0xff"
  then have "unat b \<noteq> 0xfe" "unat b \<noteq> 0xff" by (auto simp: word_unat_eq_iff)
  then show ?thesis using unat_u8[of b] by simp
qed

lemma prefix_windows:
  "win 0xfe 8 = byte_bits 0xfe" "win 0xff 8 = byte_bits 0xff"
  "win 0xfffe 16 = byte_bits 0xff @ byte_bits 0xfe" "win 0xffff 16 = byte_bits 0xff @ byte_bits 0xff"
  "win 0xfffff 20 = byte_bits 0xff @ byte_bits 0xff @ replicate 4 True"
  "win 0xfffffe 24 = byte_bits 0xff @ byte_bits 0xff @ byte_bits 0xfe"
  "win 0xffffff 24 = byte_bits 0xff @ byte_bits 0xff @ byte_bits 0xff"
  by code_simp+

lemma byte_bits_fe: "byte_bits (0xfe :: u8) ! 4"
  by code_simp

lemma bit_imp_le_unat: "bit (w :: u8) k \<Longrightarrow> 2 ^ k \<le> unat w"
proof -
  assume "bit w k"
  then have "bit (unat w) k" by (simp add: bit_unsigned_iff)
  then have "odd (unat w div 2 ^ k)" by (simp add: bit_iff_odd)
  then have "0 < unat w div 2 ^ k" by (simp add: odd_pos)
  then show ?thesis by (simp add: div_greater_zero_iff)
qed

lemma ffffff_result:
  assumes "tables_ok T" "st_ok len st" "len \<le> length buf" "bs = win 0xffffff 24 @ pending buf len st"
  shows "result_ok buf len bs (huff_ffffff T buf len st)"
  unfolding huff_ffffff_def
proof (rule with_byte_result[OF assms(2,3)])
  fix b n i
  assume st: "st_ok len (b, n, i)" "filled len 8 (b, n, i)" "pending buf len (b, n, i) = pending buf len st"
  have eos: "prefix eos (win 0xffffff 24 @ byte_bits byte)" if "\<not> unat byte < 252" for byte :: u8
    using unused_below_eos that unat_u8[of byte] unfolding list_all_iff set_upt byte_bits_win
    by (meson atLeastLessThan_iff not_less)
  show "result_ok buf len bs (if peek8 b n \<noteq> 0xff
     then huff_lookup (huffman_decode_ffffff T) ''garbage at end of string'' (peek8 b n) (b, n, i)
     else Garbage ''should decode ff'')"
  proof (cases "peek8 b n = 0xff")
    case False
    then show ?thesis
      using assms st eos by (auto simp: tables_ok_def intro!: lookup_result)
  next
    case True
    then have n: "8 \<le> n" by (rule peek8_ff)
    have bs: "bs = win 0xffffff 24 @ byte_bits 0xff @ pending buf len (skip_bits 8 (b, n, i))"
      using peek8_full[OF n] st True assms(4) by (simp add: st_ok_def)
    have "prefix eos (win 0xffffff 24 @ byte_bits 0xff)" by (rule eos) simp
    then have "prefix eos bs" unfolding bs by (metis append.assoc prefix_prefix)
    then have "no_code bs" unfolding no_code_def by (metis code_eos prefix_same_cases)
    then show ?thesis using True bs by (simp add: result_ok_def short_ones_def)
  qed
qed

text \<open>
  After \<open>0xfffffe\<close> with fewer than four bits left, the bits already consumed
  shift into the index, which then lies outside the table.
\<close>

lemma peek4_stray:
  assumes "peek8 b n = 0xfe" "8 \<le> n" "n < 12" "n \<le> 15"
  shows "16 \<le> unat (peek4 b (n - 8))"
proof -
  have "byte_bits (0xfe :: u8) = take 8 (win b n)"
    using assms byte_bits_peek[of n b] by (simp add: peek8_def ucast_and_ff)
  then have "take 8 (win b n) ! 4" by (metis (mono_tags) byte_bits_fe)
  then have "bit b (n - 5)" using assms(2) by simp
  then have "bit (peek4 b (n - 8)) 7"
    using assms by (auto simp: peek4_def bit_simps)
  then have "2 ^ 7 \<le> unat (peek4 b (n - 8))"
    by (rule bit_imp_le_unat)
  then show ?thesis by simp
qed

lemma nibble_window:
  assumes "length xs = 4"
  shows "\<exists>j < 16. win (of_nat j) 4 = xs"
proof -
  have "\<forall>xs \<in> set (List.n_lists 4 [False, True]). \<exists>j \<in> set [0..<16]. win (of_nat j) 4 = xs"
    by code_simp
  moreover have "xs \<in> set (List.n_lists 4 [False, True])"
    using assms by (auto simp: set_n_lists)
  ultimately obtain j where "j \<in> set [0..<16]" "win (of_nat j) 4 = xs" by blast
  then show ?thesis by (auto intro!: exI[of _ j])
qed

lemma fffffe_result:
  assumes T: "tables_ok T" and st: "st_ok len (b, n, i)" and len: "len \<le> length buf"
    and fe: "peek8 b n = 0xfe" "8 \<le> n"
    and bs: "bs = win 0xfffffe 24 @ pending buf len (skip_bits 8 (b, n, i))"
  shows "result_ok buf len bs (huff_fffffe T buf len (skip_bits 8 (b, n, i)))"
proof -
  let ?P = "win 0xfffffe 24" and ?T = "huffman_decode_fffffe T"
  have tab: "table_ok 4 ?P (\<lambda>i. True) ?T"
    and bits: "list_all (\<lambda>d. dec_bits d = 4 \<or> dec_bits d = 3 \<and> dec_value d = 254) ?T"
    using T by (simp_all add: tables_ok_def)
  have lenT: "length ?T = 16" using tab by (simp add: table_ok_def)
  have n15: "n \<le> 15" using st by (simp add: st_ok_def)
  obtain b' n' i' where r: "refill buf len 4 (b, n - 8, i) = Some (b', n', i')" "st_ok len (b', n', i')"
    "filled len 4 (b', n', i')" "pending buf len (b', n', i') = pending buf len (b, n - 8, i)"
    using refill_ok[OF skip_ok[OF st, of 8] len, of 4] by (auto simp: skip_bits_def)
  define p where "p = pending buf len (b', n', i')"
  have bsp: "bs = ?P @ p" using bs r(4) by (simp add: p_def skip_bits_def)
  have e: "entry_ok 4 ?P (win (of_nat j) 4) (?T ! j)" "dec_bits (?T ! j) \<le> 4" if "j < 16" for j
    using table_entry[OF tab, of j] that by simp_all
  show ?thesis
  proof (cases "4 \<le> n'")
    case True
    define j where "j = unat (peek4 b' n')"
    have pk: "peek4 b' n' = ucast (drop_bit (n' - 4) b' AND 0xf)" using True by (simp add: peek4_def)
    have j: "j = unat (drop_bit (n' - 4) b') mod 16"
      using unat_and_f[of "drop_bit (n' - 4) b'"]
      by (simp add: j_def pk unsigned_ucast_eq take_bit_nat_eq_self)
    have w: "win (of_nat j) 4 = take 4 p"
    proof -
      have "unat (of_nat j :: u32) = j" by (rule unat_of_nat_u32) (simp add: j)
      then have "win (of_nat j) 4 = win (drop_bit (n' - 4) b') 4"
        by (intro win_cong_mod) (simp_all add: j)
      then show ?thesis using True by (simp add: p_def pending_def take_win)
    qed
    have jl: "j < 16" by (simp add: j)
    have "?P @ p = code (dec_value (?T ! j)) @ drop (dec_bits (?T ! j)) p"
      using e[OF jl] pending_length[of n' buf len b' i'] True
      by (intro entry_emits[where w = 4 and ib = "take 4 p"]) (auto simp: w p_def)
    moreover have "pending buf len (b', n' - dec_bits (?T ! j), i') = drop (dec_bits (?T ! j)) p"
      unfolding p_def using e(2)[OF jl] True by (intro skip_pending) simp
    ultimately show ?thesis
      using r e(2)[OF jl] jl True lenT
      by (auto simp: huff_fffffe_def skip_bits_def huff_lookup_def result_ok_def Let_def bsp st_ok_def j_def[symmetric])
  next
    case False
    then have used: "i' = len" using r(3) by (simp add: filled_def)
    have same: "b' = b \<and> n' = n - 8 \<and> i' = i"
      using r(1) False by (auto simp: refill_def split: if_splits)
    have "16 \<le> unat (peek4 b' n')" using same False fe n15 peek4_stray[of b n] by simp
    then have stray: "huff_fffffe T buf len (skip_bits 8 (b, n, i)) = Stray ''index outside huffman_decode_fffffe''"
      using r(1) lenT by (simp add: huff_fffffe_def skip_bits_def)
    have p: "p = win b' n'" "length p = n'" using used len by (simp_all add: p_def pending_def stream_def)
    have "bs = code 254 \<or> no_code bs"
    proof -
      obtain j where j: "j < 16" "win (of_nat j) 4 = take 4 (p @ replicate 4 False)"
        using nibble_window[of "take 4 (p @ replicate 4 False)"] p(2) False by auto
      show ?thesis
      proof (cases "dec_bits (?T ! j) \<le> length p")
        case True
        then have "dec_bits (?T ! j) = 3" "dec_value (?T ! j) = 254" "length p = 3"
          using bits j(1) False p lenT by (auto simp: list_all_length)
        moreover have "?P @ p = code (dec_value (?T ! j)) @ drop (dec_bits (?T ! j)) p"
          using e[OF j(1)] True by (intro entry_emits[where w = 4]) (auto simp: j(2))
        ultimately show ?thesis by (simp add: bsp)
      next
        case long: False
        have "no_code (?P @ p)"
          using e[OF j(1)] long by (intro entry_blocks[where w = 4]) (auto simp: j(2))
        then show ?thesis by (simp add: bsp)
      qed
    qed
    then show ?thesis by (simp add: stray result_ok_def bsp)
  qed
qed

lemma ffff_result:
  assumes T: "tables_ok T" and st: "st_ok len st" and len: "len \<le> length buf"
    and bs: "bs = win 0xffff 16 @ pending buf len st"
  shows "result_ok buf len bs (huff_ffff T buf len st)"
  unfolding huff_ffff_def Let_def
proof (rule with_byte_result[OF st len])
  fix b n i
  assume ok: "st_ok len (b, n, i)" and fl: "filled len 8 (b, n, i)"
    and p: "pending buf len (b, n, i) = pending buf len st"
  let ?byte = "peek8 b n" and ?st = "(b, n, i)"
  have n15: "n \<le> 15" using ok by (simp add: st_ok_def)
  note full = peek8_full[OF _ n15, of buf len b i]
  have fe: "result_ok buf len bs (huff_fffffe T buf len (skip_bits 8 ?st))" if "8 \<le> n" "?byte = 0xfe"
    using that full bs p
    by (intro fffffe_result[OF T ok len]) (simp_all add: prefix_windows)
  have ff: "result_ok buf len bs (huff_ffffff T buf len (skip_bits 8 ?st))" if "?byte = 0xff"
    using that full[OF peek8_ff] bs p
    by (intro ffffff_result[OF T skip_ok[OF ok] len]) (simp_all add: prefix_windows)
  have low: "result_ok buf len bs (huff_lookup (huffman_decode_ffff T) ''garbage at end of string'' ?byte ?st)"
    if "\<not> (8 \<le> n \<and> ?byte AND 0xf0 = 0xf0)"
    using that T ok fl len bs p below_f0[of ?byte] by (intro lookup_result) (auto simp: tables_ok_def)
  have f: "result_ok buf len bs (with_byte buf len (skip_bits 4 ?st)
      (\<lambda>byte st. huff_lookup (huffman_decode_fffff T) ''not enough bits'' byte st))"
    if n8: "8 \<le> n" and hi: "?byte AND 0xf0 = 0xf0" "?byte \<noteq> 0xfe" "?byte \<noteq> 0xff"
  proof (rule with_byte_result[OF skip_ok[OF ok] len])
    fix b2 n2 i2
    assume ok2: "st_ok len (b2, n2, i2)" and fl2: "filled len 8 (b2, n2, i2)"
      and p2: "pending buf len (b2, n2, i2) = pending buf len (skip_bits 4 ?st)"
    let ?q = "pending buf len ?st"
    have q: "?q = byte_bits ?byte @ pending buf len (skip_bits 8 ?st)" using full[OF n8] .
    have d4: "pending buf len (skip_bits 4 ?st) = drop 4 ?q"
      unfolding skip_bits_def using n8 by (simp add: skip_pending)
    have t4: "take 4 ?q = replicate 4 True" unfolding q using high_nibble(1)[OF hi] by simp
    have "take 3 (drop 4 ?q) \<noteq> replicate 3 True" unfolding q using high_nibble(2)[OF hi] by simp
    moreover have "take 3 (pending buf len (b2, n2, i2)) = take 3 (byte_bits (peek8 b2 n2))" if "8 \<le> n2"
      using peek8_full[OF that, of buf len b2 i2] ok2 by (simp add: st_ok_def)
    ultimately have "8 \<le> n2 \<Longrightarrow> take 3 (byte_bits (peek8 b2 n2)) \<noteq> replicate 3 True"
      unfolding p2 d4 by simp
    then have "8 \<le> n2 \<Longrightarrow> unat (peek8 b2 n2) < 0xe0" by (rule below_e0)
    moreover have "bs = win 0xfffff 20 @ pending buf len (b2, n2, i2)"
      using bs p t4 append_take_drop_id[of 4 ?q] unfolding p2 d4 by (simp add: prefix_windows)
    ultimately show "result_ok buf len bs
       (huff_lookup (huffman_decode_fffff T) ''not enough bits'' (peek8 b2 n2) (b2, n2, i2))"
      using T ok2 fl2 len by (intro lookup_result) (auto simp: tables_ok_def)
  qed
  show "result_ok buf len bs
     (if 8 \<le> fst (snd ?st) \<and> ?byte = 0xfe then huff_fffffe T buf len (skip_bits 8 ?st)
      else if 8 \<le> fst (snd ?st) \<and> ?byte AND 0xf0 = 0xf0 \<and> ?byte \<noteq> 0xff
      then with_byte buf len (skip_bits 4 ?st)
             (\<lambda>byte st. huff_lookup (huffman_decode_fffff T) ''not enough bits'' byte st)
      else if ?byte \<noteq> 0xff
      then huff_lookup (huffman_decode_ffff T) ''garbage at end of string'' ?byte ?st
      else huff_ffffff T buf len (skip_bits 8 ?st))"
    using fe f low ff by auto
qed

text \<open>A block that looks up the byte after one more prefix byte.\<close>

lemma second_byte_result:
  assumes "table_ok 8 (P @ byte_bits byte) (\<lambda>i. True) T" "8 \<le> length P + 8"
    and ok: "st_ok len (b, n, i)" and len: "len \<le> length buf" and n: "8 \<le> n" and byte: "peek8 b n = byte"
    and bs: "bs = P @ pending buf len (b, n, i)"
  shows "result_ok buf len bs (with_byte buf len (skip_bits 8 (b, n, i)) (\<lambda>byte st. huff_lookup T err byte st))"
proof (rule with_byte_result[OF skip_ok[OF ok] len])
  fix b2 n2 i2
  assume s2: "st_ok len (b2, n2, i2)" "filled len 8 (b2, n2, i2)"
    "pending buf len (b2, n2, i2) = pending buf len (skip_bits 8 (b, n, i))"
  have "bs = (P @ byte_bits byte) @ pending buf len (b2, n2, i2)"
    using peek8_full[OF n, of buf len b i] ok s2(3) byte bs by (simp add: st_ok_def)
  then show "result_ok buf len bs (huff_lookup T err (peek8 b2 n2) (b2, n2, i2))"
    using assms(1) s2 len by (intro lookup_result) auto
qed

lemma ff_result:
  assumes T: "tables_ok T" and st: "st_ok len st" and len: "len \<le> length buf"
    and bs: "bs = win 0xff 8 @ pending buf len st"
  shows "result_ok buf len bs (huff_ff T buf len st)"
  unfolding huff_ff_def Let_def
proof (rule with_byte_result[OF st len])
  fix b n i
  assume ok: "st_ok len (b, n, i)" and fl: "filled len 8 (b, n, i)"
    and p: "pending buf len (b, n, i) = pending buf len st"
  let ?byte = "peek8 b n" and ?st = "(b, n, i)"
  have n15: "n \<le> 15" using ok by (simp add: st_ok_def)
  have fe: "result_ok buf len bs (with_byte buf len (skip_bits 8 ?st)
      (\<lambda>byte st. huff_lookup (huffman_decode_fffe T) ''not enough bits'' byte st))"
    if "8 \<le> n" "?byte = 0xfe"
    using T bs p that by (intro second_byte_result[OF _ _ ok len]) (simp_all add: tables_ok_def prefix_windows)
  have ff: "result_ok buf len bs (huff_ffff T buf len (skip_bits 8 ?st))" if "?byte = 0xff"
    using that peek8_full[OF peek8_ff[OF that] n15] bs p
    by (intro ffff_result[OF T skip_ok[OF ok] len]) (simp add: prefix_windows)
  have low: "result_ok buf len bs (huff_lookup (huffman_decode_ff T) ''garbage at end of string'' ?byte ?st)"
    if "\<not> (8 \<le> n \<and> ?byte = 0xfe)" "?byte \<noteq> 0xff"
    using that T ok fl len bs p below_fe[of ?byte] by (intro lookup_result) (auto simp: tables_ok_def)
  show "result_ok buf len bs
     (if 8 \<le> fst (snd ?st) \<and> ?byte = 0xfe
      then with_byte buf len (skip_bits 8 ?st)
             (\<lambda>byte st. huff_lookup (huffman_decode_fffe T) ''not enough bits'' byte st)
      else if ?byte \<noteq> 0xff
      then huff_lookup (huffman_decode_ff T) ''garbage at end of string'' ?byte ?st
      else huff_ffff T buf len (skip_bits 8 ?st))"
    using fe ff low by auto
qed

lemma all_ones_iff:
  assumes "n < 8"
  shows "all_ones (b, n, i) \<longleftrightarrow> win b n = replicate n True"
proof -
  have m: "ucast (ucast (push_bit n 1 - 1 :: u32) :: u8) = (mask n :: u32)"
  proof -
    have "push_bit n 1 - 1 = (mask n :: u32)" by (simp add: mask_eq_exp_minus_1 push_bit_eq_mult)
    moreover have "ucast (ucast (mask n :: u32) :: u8) = (mask n :: u32)"
      using assms by (intro bit_word_eqI) (auto simp: bit_simps)
    ultimately show ?thesis by simp
  qed
  have "b AND mask n = mask n \<longleftrightarrow> (\<forall>k < n. bit b k)"
  proof
    assume e: "b AND mask n = mask n"
    show "\<forall>k < n. bit b k"
    proof (intro allI impI)
      fix k assume "k < n"
      then show "bit b k" using arg_cong[OF e, of "\<lambda>w. bit w k"] assms by (simp add: bit_and_iff bit_mask_iff)
    qed
  qed (auto intro!: bit_word_eqI simp: bit_and_iff bit_mask_iff)
  also have "\<dots> \<longleftrightarrow> win b n = win (mask n) n"
    using assms by (auto simp: win_eq_iff bit_mask_iff)
  also have "win (mask n) n = replicate n True"
    using assms by (intro nth_equalityI) (auto simp: bit_mask_iff)
  finally show ?thesis unfolding all_ones_def Let_def prod.case m .
qed

lemma step_result:
  assumes T: "tables_ok T" and st: "st_ok len st" and len: "len \<le> length buf"
    and bs: "bs = pending buf len st"
  shows "result_ok buf len bs (huff_step T buf len st)"
  unfolding huff_step_def Let_def
proof (rule with_byte_result[OF st len])
  fix b n i
  assume ok: "st_ok len (b, n, i)" and fl: "filled len 8 (b, n, i)"
    and p: "pending buf len (b, n, i) = pending buf len st"
  let ?byte = "peek8 b n" and ?st = "(b, n, i)" and ?T = "huffman_decode0 T"
  let ?l = "huff_lookup ?T ''garbage at end of string'' ?byte ?st"
  have n15: "n \<le> 15" using ok by (simp add: st_ok_def)
  have fe: "result_ok buf len bs (with_byte buf len (skip_bits 8 ?st)
      (\<lambda>byte st. huff_lookup (huffman_decode_fe T) ''not enough bits'' byte st))"
    if "8 \<le> n" "?byte = 0xfe"
    using T bs p that by (intro second_byte_result[where P = "[]", OF _ _ ok len])
      (simp_all add: tables_ok_def prefix_windows)
  have ff: "result_ok buf len bs (huff_ff T buf len (skip_bits 8 ?st))" if "?byte = 0xff"
    using that peek8_full[OF peek8_ff[OF that] n15] bs p
    by (intro ff_result[OF T skip_ok[OF ok] len]) (simp add: prefix_windows)
  have low: "result_ok buf len bs (case ?l of
      Garbage err \<Rightarrow> if all_ones ?st then Finish else Garbage err | r \<Rightarrow> r)"
    if c: "\<not> (8 \<le> n \<and> ?byte = 0xfe)" "?byte \<noteq> 0xff"
  proof -
    have C: "8 \<le> n \<Longrightarrow> unat ?byte < 0xfe \<or> prefix eos ([] @ byte_bits ?byte)"
      using c below_fe[of ?byte] by auto
    have tab: "table_ok 8 [] (\<lambda>i. i < 0xfe) ?T" using T by (simp add: tables_ok_def)
    have lc: "dec_bits (?T ! unat ?byte) \<le> n \<Longrightarrow> st_ok len (b, n - dec_bits (?T ! unat ?byte), i) \<and>
        [] @ pending buf len ?st = code (dec_value (?T ! unat ?byte)) @ pending buf len (b, n - dec_bits (?T ! unat ?byte), i)"
      "\<not> dec_bits (?T ! unat ?byte) \<le> n \<Longrightarrow> no_code ([] @ pending buf len ?st) \<and>
        (8 \<le> n \<longrightarrow> prefix eos ([] @ byte_bits ?byte))"
      by (rule lookup_cases[OF tab ok fl len]; use C in blast)+
    show ?thesis
    proof (cases "dec_bits (?T ! unat ?byte) \<le> n")
      case True
      then show ?thesis using lc(1) bs p by (simp add: huff_lookup_def Let_def result_ok_def)
    next
      case False
      have n8: "n < 8"
      proof (rule ccontr)
        assume "\<not> n < 8"
        then have "prefix eos (byte_bits ?byte)" using lc(2)[OF False] by simp
        then show False using prefix_length_le[of eos "byte_bits ?byte"] by (simp add: eos_def)
      qed
      have w: "bs = win b n"
        using n8 fl len bs p by (simp add: filled_def pending_def stream_def)
      have "all_ones ?st \<longleftrightarrow> short_ones bs" using all_ones_iff[OF n8, of b i] n8 by (simp add: w short_ones_def)
      then show ?thesis
        using False lc(2)[OF False] bs p by (auto simp: huff_lookup_def Let_def result_ok_def)
    qed
  qed
  show "result_ok buf len bs
     (if 8 \<le> fst (snd ?st) \<and> ?byte = 0xfe
      then with_byte buf len (skip_bits 8 ?st)
             (\<lambda>byte st. huff_lookup (huffman_decode_fe T) ''not enough bits'' byte st)
      else if ?byte \<noteq> 0xff
      then (case ?l of Garbage err \<Rightarrow> if all_ones ?st then Finish else Garbage err | r \<Rightarrow> r)
      else huff_ff T buf len (skip_bits 8 ?st))"
    using fe ff low by auto
qed


section \<open>The loop\<close>

definition coded :: "bytes \<Rightarrow> bool list" where
  "coded s = concat (map code s)"

lemma coded_simps [simp]: "coded [] = []" "coded (v # s) = code v @ coded s"
  by (simp_all add: coded_def)

lemma ones_no_code: "no_code (replicate k True)" if "k \<le> 30"
proof -
  have "prefix (replicate k True) eos" using that unfolding eos_def prefix_def
    by (metis le_add_diff_inverse replicate_add)
  then show ?thesis using code_eos(1) unfolding no_code_def by (meson prefix_order.trans)
qed

lemma short_ones_no_code: "short_ones bs \<Longrightarrow> no_code bs"
proof -
  assume s: "short_ones bs"
  then have "no_code (replicate (length bs) True)" by (intro ones_no_code) (simp add: short_ones_def)
  then show "no_code bs" using s unfolding short_ones_def by metis
qed

lemma code_unique: "code v @ r = code v' @ r' \<Longrightarrow> v = v' \<and> r = r'"
proof -
  assume e: "code v @ r = code v' @ r'"
  have "prefix (code v) (code v @ r)" by simp
  moreover have "prefix (code v') (code v @ r)" unfolding e by simp
  ultimately have "v = v'" using code_prefix_eq by (metis prefix_same_cases)
  with e show ?thesis by simp
qed

lemma loop_sound:
  "tables_ok T \<Longrightarrow> len \<le> length buf \<Longrightarrow> st_ok len st \<Longrightarrow> length out \<le> outbuflen \<Longrightarrow>
   huff_loop T buf len outbuflen st out env = Ok r env' \<Longrightarrow>
   env' = env \<and> length r \<le> outbuflen \<and>
   (\<exists>s k. r = out @ s \<and> k < 8 \<and> pending buf len st = coded s @ replicate k True)"
proof (induction "outbuflen - length out" arbitrary: st out)
  case 0
  then show ?case
    by (subst (asm) huff_loop.simps)
       (use step_result[OF 0(2,4,3) refl] 0 in
         \<open>auto simp: result_ok_def short_ones_def retH_def crashH_def split: huff_result.splits if_splits
           intro!: exI[of _ "[]"] exI[of _ "length (pending buf len st)"]\<close>)
next
  case (Suc d)
  show ?case
  proof (cases "huff_step T buf len st")
    case (Emit v st')
    then have ok': "st_ok len st'" and p: "pending buf len st = code v @ pending buf len st'"
      using step_result[OF Suc.prems(1,3,2) refl] by (simp_all add: result_ok_def)
    have "huff_loop T buf len outbuflen st' (out @ [v]) env = Ok r env'"
      using Suc.prems(5) Suc.hyps(2) by (subst (asm) huff_loop.simps) (simp add: Emit split: if_splits)
    then have "env' = env \<and> length r \<le> outbuflen \<and>
      (\<exists>s k. r = (out @ [v]) @ s \<and> k < 8 \<and> pending buf len st' = coded s @ replicate k True)"
      using Suc.prems Suc.hyps(2) ok' by (intro Suc.hyps(1)) auto
    then obtain s k where "env' = env" "length r \<le> outbuflen" "r = out @ v # s" "k < 8"
      "pending buf len st' = coded s @ replicate k True" by auto
    then show ?thesis using p by (intro conjI exI[of _ "v # s"] exI[of _ k]) auto
  next
    case Finish
    have "r = out \<and> env' = env"
      using Suc.prems(5) by (subst (asm) huff_loop.simps) (simp add: Finish retH_def)
    moreover have "short_ones (pending buf len st)"
      using step_result[OF Suc.prems(1,3,2) refl] by (simp add: Finish result_ok_def)
    ultimately show ?thesis
      using Suc.prems(4) unfolding short_ones_def
      by (intro conjI exI[of _ "[]"] exI[of _ "length (pending buf len st)"]) auto
  next
    case (Garbage e)
    then show ?thesis using Suc.prems(5) by (subst (asm) huff_loop.simps) simp
  next
    case (Stray e)
    then show ?thesis using Suc.prems(5) by (subst (asm) huff_loop.simps) (simp add: crashH_def)
  qed
qed

lemma loop_complete:
  "tables_ok T \<Longrightarrow> len \<le> length buf \<Longrightarrow> st_ok len st \<Longrightarrow>
   pending buf len st = coded s @ replicate k True \<Longrightarrow> k < 8 \<Longrightarrow>
   length out + length s \<le> outbuflen \<Longrightarrow> \<not> (k = 0 \<and> s \<noteq> [] \<and> last s = 254) \<Longrightarrow>
   huff_loop T buf len outbuflen st out env = Ok (out @ s) env"
proof (induction s arbitrary: st out)
  case Nil
  have r: "result_ok buf len (replicate k True) (huff_step T buf len st)"
    using step_result[OF Nil.prems(1,3,2) refl] Nil.prems(4) by simp
  have "no_code (replicate k True)" using Nil.prems(5) by (intro ones_no_code) simp
  then have "huff_step T buf len st = Finish"
    using r Nil.prems(5)
    by (auto simp: result_ok_def no_code_def short_ones_def prefix_def split: huff_result.splits)
  then show ?case by (subst huff_loop.simps) (simp add: retH_def)
next
  case (Cons v s)
  have bs: "pending buf len st = code v @ coded s @ replicate k True" using Cons.prems(4) by simp
  have r: "result_ok buf len (code v @ coded s @ replicate k True) (huff_step T buf len st)"
    using step_result[OF Cons.prems(1,3,2) refl] bs by simp
  have code: "\<not> no_code (code v @ coded s @ replicate k True)"
    by (auto simp: no_code_def intro!: exI[of _ v])
  then have ones: "\<not> short_ones (code v @ coded s @ replicate k True)"
    using short_ones_no_code by blast
  have not254: "code v @ coded s @ replicate k True \<noteq> code 254"
  proof
    assume e: "code v @ coded s @ replicate k True = code 254"
    then have v: "v = 254" and "coded s @ replicate k True = []"
      using code_unique[of v "coded s @ replicate k True" 254 "[]"] by simp_all
    then have "k = 0" and "s = []" using code_not_empty by (cases s; simp)+
    then show False using Cons.prems(7) v by simp
  qed
  have "\<exists>v' st'. huff_step T buf len st = Emit v' st' \<and> st_ok len st' \<and>
    code v @ coded s @ replicate k True = code v' @ pending buf len st'"
    using r code ones not254
    by (cases "huff_step T buf len st") (simp_all only: result_ok_def huff_result.simps simp_thms, blast)
  then obtain v' st' where st': "huff_step T buf len st = Emit v' st'" "st_ok len st'"
    "code v @ coded s @ replicate k True = code v' @ pending buf len st'" by blast
  then have v': "v' = v" "pending buf len st' = coded s @ replicate k True"
    using code_unique[OF st'(3)] by simp_all
  have fits: "length (out @ [v]) + length s \<le> outbuflen" using Cons.prems(6) by simp
  have "\<not> (k = 0 \<and> s \<noteq> [] \<and> last s = 254)" using Cons.prems(7) by auto
  from Cons.IH[OF Cons.prems(1,2) st'(2) v'(2) Cons.prems(5) fits this]
  have "huff_loop T buf len outbuflen st' (out @ [v]) env = Ok ((out @ [v]) @ s) env" .
  then show ?case using st' v' Cons.prems(6) by (subst huff_loop.simps) simp
qed


section \<open>Properties\<close>

text \<open>
  C25: With the tables that \<open>init_huffman\<close> builds, a string that
  \<open>Xdecode_huffman2\<close> returns fits the output buffer, and the bits of the input
  are its code followed by fewer than eight one bits; the state is unchanged.
\<close>

theorem Xdecode_huffman2_sound:
  assumes "init_huffman = Done T" and "len \<le> length buf"
    and "Xdecode_huffman2 T buf len outbuflen env = Ok s env'"
  shows "env' = env \<and> length s \<le> outbuflen \<and>
    (\<exists>k < 8. stream (take len buf) = coded s @ replicate k True)"
proof -
  have T: "tables_ok T" using init_huffman_ok unfolding assms(1) by (simp add: outcome_ok_def)
  have "st_ok len (0, 0, 0)" by (simp add: st_ok_def)
  from loop_sound[OF T assms(2) this _ assms(3)[unfolded Xdecode_huffman2_def]]
  show ?thesis by (auto simp: pending_def)
qed

lemma init_huffman_Done: "\<exists>T. init_huffman = Done T \<and> tables_ok T"
  using init_huffman_ok by (auto elim: outcome_okE)

theorem Xdecode_huffman2_sound_witness:
  "\<exists>T. init_huffman = Done T \<and> Xdecode_huffman2 T [0x07] 1 9 http2_init = Ok [48] http2_init \<and>
     (\<exists>k < 8. stream [0x07] = coded [48] @ replicate k True)"
proof -
  obtain T where T: "init_huffman = Done T" "tables_ok T" using init_huffman_Done by blast
  have "stream [0x07] = coded [48] @ replicate 3 True" by code_simp
  then have d: "Xdecode_huffman2 T [0x07] 1 9 http2_init = Ok [48] http2_init"
    unfolding Xdecode_huffman2_def
    using loop_complete[OF T(2), of 1 "[0x07]" "(0, 0, 0)" "[48]" 3 "[]" 9 http2_init]
    by (simp add: st_ok_def pending_def)
  then show ?thesis using Xdecode_huffman2_sound[OF T(1) _ d] T(1) by auto
qed



lemma first_entry:
  assumes "tables_ok T"
  shows "huffman_decode0 T ! 7 = HD 5 48"
proof -
  let ?d = "huffman_decode0 T ! 7"
  have tab: "table_ok 8 [] (\<lambda>i. i < 0xfe) (huffman_decode0 T)" using assms by (simp add: tables_ok_def)
  have l: "dec_bits ?d \<le> 8" using byte_entry(2)[OF tab, of 7] by simp
  then have c: "code (dec_value ?d) = take (dec_bits ?d) (byte_bits 7)"
    using byte_entry(1)[OF tab, of 7] by (simp add: entry_ok_def)
  have c48: "code 48 = take 5 (byte_bits 7)" by code_simp
  have "prefix (code (dec_value ?d)) (byte_bits 7)" "prefix (code 48) (byte_bits 7)"
    unfolding c c48 by (rule take_is_prefix)+
  then have v: "dec_value ?d = 48" using code_prefix_eq by (metis prefix_same_cases)
  then have "length (take (dec_bits ?d) (byte_bits 7)) = length (take 5 (byte_bits 7))" using c c48 by simp
  then have "dec_bits ?d = 5" using l by simp
  with v show ?thesis by (cases ?d) simp
qed

text \<open>
  The exception is real: the four bytes below are the code of the two
  symbols 48 and 254, without padding, and on them the decoder leaves the
  sixteen entries of \<open>huffman_decode_fffffe\<close>.
\<close>

theorem Xdecode_huffman2_stray:
  assumes "init_huffman = Done T" and "1 \<le> outbuflen"
  shows "stream [0x07, 0xff, 0xff, 0xf0] = coded [48, 254] \<and>
    Xdecode_huffman2 T [0x07, 0xff, 0xff, 0xf0] 4 outbuflen env
      = Crash (Undefined ''index outside huffman_decode_fffffe'')"
proof
  show "stream [0x07, 0xff, 0xff, 0xf0] = coded [48, 254]" by code_simp
  let ?buf = "[0x07, 0xff, 0xff, 0xf0] :: bytes"
  have T: "tables_ok T" using init_huffman_ok unfolding assms(1) by (simp add: outcome_ok_def)
  have len: "length (huffman_decode_fffffe T) = 16" using T by (simp add: tables_ok_def table_ok_def)
  have s1: "huff_step T ?buf 4 (0, 0, 0) = Emit 48 (7, 3, 1)"
    by (simp add: huff_step_def with_byte_def refill_def peek8_def huff_lookup_def first_entry[OF T])
  have s2: "huff_step T ?buf 4 (7, 3, 1) = Stray ''index outside huffman_decode_fffffe''"
    by (simp add: huff_step_def with_byte_def refill_def peek8_def peek4_def skip_bits_def
        huff_ff_def huff_ffff_def huff_fffffe_def len)
  show "Xdecode_huffman2 T ?buf 4 outbuflen env = Crash (Undefined ''index outside huffman_decode_fffffe'')"
    unfolding Xdecode_huffman2_def
    by (subst huff_loop.simps, simp only: s1 huff_result.case, subst huff_loop.simps)
       (use assms(2) in \<open>simp add: s2[unfolded One_nat_def] crashH_def\<close>)
qed

theorem Xdecode_huffman2_stray_witness:
  "\<exists>T. init_huffman = Done T \<and>
     Xdecode_huffman2 T [0x07, 0xff, 0xff, 0xf0] 4 255 http2_init
       = Crash (Undefined ''index outside huffman_decode_fffffe'')"
proof -
  obtain T where T: "init_huffman = Done T" using init_huffman_Done by blast
  then show ?thesis using Xdecode_huffman2_stray[OF T, of 255 http2_init] by auto
qed

end
