(* ===== verification/Hpack.thy ===== *)
theory Hpack
  imports Hpack_Int Huffman
begin

text \<open>
  Header compression of \<^verbatim>\<open>eperd/http2.c\<close>: the static and the dynamic table,
  writing a header, decoding one (\<open>Xdecode_header2\<close>) and what the client takes
  from it (\<open>Xreport_header\<close>).  The lemmas show how far a header reaches, that
  decoding stays inside the frame, what a plain literal decodes to, and which
  entry an index selects.
\<close>


section \<open>Model\<close>

definition HPACK_STATIC_NR :: u32 where "HPACK_STATIC_NR = 61"
definition HPACK_IHF :: u8 where "HPACK_IHF = 0x80"
definition HPACK_IHF_MASK :: u8 where "HPACK_IHF_MASK = 0x80"
definition HPACK_IHF_PREFIX_LEN :: nat where "HPACK_IHF_PREFIX_LEN = 1"
definition HPACK_LHFII :: u8 where "HPACK_LHFII = 0x40"
definition HPACK_LHFII_MASK :: u8 where "HPACK_LHFII_MASK = 0xC0"
definition HPACK_LHFII_PREFIX_LEN :: nat where "HPACK_LHFII_PREFIX_LEN = 2"
definition HPACK_LHFwI :: u8 where "HPACK_LHFwI = 0x00"
definition HPACK_LHFwI_MASK :: u8 where "HPACK_LHFwI_MASK = 0xF0"
definition HPACK_LHFwI_PREFIX_LEN :: nat where "HPACK_LHFwI_PREFIX_LEN = 4"
definition HPACK_LHFNI :: u8 where "HPACK_LHFNI = 0x10"
definition HPACK_H :: u8 where "HPACK_H = 0x80"
definition HPACK_H_MASK :: u8 where "HPACK_H_MASK = 0x80"
definition HPACK_H_PREFIX_LEN :: nat where "HPACK_H_PREFIX_LEN = 1"

lemmas hpack_consts = HPACK_STATIC_NR_def HPACK_IHF_def HPACK_IHF_MASK_def HPACK_IHF_PREFIX_LEN_def
  HPACK_LHFII_def HPACK_LHFII_MASK_def HPACK_LHFII_PREFIX_LEN_def HPACK_LHFwI_def HPACK_LHFwI_MASK_def
  HPACK_LHFwI_PREFIX_LEN_def HPACK_LHFNI_def HPACK_H_def HPACK_H_MASK_def HPACK_H_PREFIX_LEN_def

text \<open>Name and value of a static entry; \<open>None\<close> for NULL.\<close>

definition static_table :: "(string option \<times> string option) list" where
  "static_table = [
     (None, None), (Some '':authority'', None), (Some '':method'', Some ''GET''),
     (Some '':method'', Some ''POST''), (Some '':path'', Some ''/''),
     (Some '':path'', Some ''/index.html''), (Some '':scheme'', Some ''http''),
     (Some '':scheme'', Some ''https''), (Some '':status'', Some ''200''),
     (Some '':status'', Some ''204''), (Some '':status'', Some ''206''),
     (Some '':status'', Some ''304''), (Some '':status'', Some ''400''),
     (Some '':status'', Some ''404''), (Some '':status'', Some ''500''),
     (Some ''accept-charset'', None), (Some ''accept-encoding'', Some ''gzip, deflate''),
     (Some ''accept-language'', None), (Some ''accept-ranges'', None), (Some ''accept'', None),
     (Some ''accept-control-allow-origin'', None), (Some ''age'', None), (Some ''allow'', None),
     (Some ''authorization'', None), (Some ''cache-control'', None),
     (Some ''content-disposition'', None), (Some ''content-encoding'', None),
     (Some ''content-language'', None), (Some ''content-length'', None),
     (Some ''content-location'', None), (Some ''content-range'', None),
     (Some ''content-type'', None), (Some ''cookie'', None), (Some ''date'', None),
     (Some ''etag'', None), (Some ''expect'', None), (Some ''expires'', None),
     (Some ''from'', None), (Some ''host'', None), (Some ''if-match'', None),
     (Some ''if-modified-since'', None), (Some ''if-none-match'', None),
     (Some ''if-range'', None), (Some ''if-unmodified-since'', None),
     (Some ''last-modified'', None), (Some ''link'', None), (Some ''location'', None),
     (Some ''max-forwards'', None), (Some ''proxy-authentication'', None),
     (Some ''proxy-authorization'', None), (Some ''range'', None), (Some ''referer'', None),
     (Some ''refresh'', None), (Some ''retry-after'', None), (Some ''server'', None),
     (Some ''set-cookie'', None), (Some ''strict-transport-security'', None),
     (Some ''transfer-encoding'', None), (Some ''user-agent'', None), (Some ''vary'', None),
     (Some ''via'', None), (Some ''www-authenticate'', None)]"

definition add_header2 :: "http2_env \<Rightarrow> string \<Rightarrow> string \<Rightarrow> http2_env" where
  "add_header2 env name v =
     (let env = add_byte2 env HPACK_LHFNI;
          env = add_length2 env 1 0x00 (of_nat (length name));
          env = add_str2 env name;
          env = add_length2 env 1 0x00 (of_nat (length v))
      in add_str2 env v)"

text \<open>
  \<open>add_dyn\<close> enlarges the table when \<open>http2_dyn_max\<close> is too small, but stores the
  new capacity in \<open>http2_input_max\<close>.
\<close>

definition add_dyn :: "bytes \<Rightarrow> bytes \<Rightarrow> unit h2m" where
  "add_dyn k v = (\<lambda>env.
     let env1 = (if http2_dyn_max env < http2_dyn_idx env + 1
                 then env\<lparr>http2_dyn_alloc := http2_dyn_idx env + 16,
                          http2_input_max := http2_dyn_idx env + 16\<rparr>
                 else env)
     in if \<not> http2_dyn_idx env1 < http2_dyn_alloc env1
        then Crash (Undefined ''write past http2_dyn'')
        else Ok () (env1\<lparr>http2_dyn := take (http2_dyn_idx env1) (http2_dyn env1) @ [\<lparr>key = k, val = v\<rparr>],
                          http2_dyn_idx := http2_dyn_idx env1 + 1\<rparr>))"

definition Xget_dyn :: "u32 \<Rightarrow> (bytes \<times> bytes) h2m" where
  "Xget_dyn v = (\<lambda>env.
     if v < HPACK_STATIC_NR then Crash (Fatal ''bad value for get_dyn'')
     else let i = unat (v - HPACK_STATIC_NR) in
       if http2_dyn_idx env \<le> i
       then failH HTTP2_COMPRESSION_ERROR ''bad dynamic index'' env
       else let d = http2_dyn env ! (http2_dyn_idx env - 1 - i) in Ok (key d, val d) env)"

definition byte_is_space :: "u8 \<Rightarrow> bool" where
  "byte_is_space c \<longleftrightarrow> c = 32 \<or> 9 \<le> c \<and> c \<le> 13"

definition byte_is_digit :: "u8 \<Rightarrow> bool" where
  "byte_is_digit c \<longleftrightarrow> 48 \<le> c \<and> c \<le> 57"

definition to_lower :: "u8 \<Rightarrow> u8" where
  "to_lower c = (if 65 \<le> c \<and> c \<le> 90 then c + 32 else c)"

fun memcasecmp :: "bytes \<Rightarrow> bytes \<Rightarrow> int" where
  "memcasecmp (c1 # p1) (c2 # p2) =
     (if c1 = c2 then memcasecmp p1 p2
      else if c1 < 128 \<and> c2 < 128 \<and> to_lower c1 = to_lower c2 then memcasecmp p1 p2
      else if c1 < c2 then -1 else 1)"
| "memcasecmp _ _ = 0"

text \<open>\<open>strtoul\<close> in base ten on a string that starts with a digit: value and rest.\<close>

fun strtoul10 :: "nat \<Rightarrow> bytes \<Rightarrow> nat \<times> bytes" where
  "strtoul10 acc [] = (acc, [])"
| "strtoul10 acc (c # cs) =
     (if byte_is_digit c then strtoul10 (10 * acc + (unat c - 48)) cs else (acc, c # cs))"

definition Xparse_status_code2 :: "bytes \<Rightarrow> u32 h2m" where
  "Xparse_status_code2 v =
     (if length v \<noteq> 3 then failH HTTP2_PROTOCOL_ERROR ''bad status code''
      else if \<not> list_all byte_is_digit v
      then failH HTTP2_PROTOCOL_ERROR ''error parsing status code''
      else case strtoul10 0 v of (st, rest) \<Rightarrow>
        if rest \<noteq> [] then failH HTTP2_PROTOCOL_ERROR ''garbage after status code''
        else retH (of_nat st))"

text \<open>The media type of a content type, without parameters and white space.\<close>

definition media_type :: "bytes \<Rightarrow> bytes" where
  "media_type v =
     dropWhile byte_is_space (rev (dropWhile byte_is_space (rev (takeWhile (\<lambda>c. c \<noteq> 59) v))))"

definition same_nocase :: "bytes \<Rightarrow> string \<Rightarrow> bool" where
  "same_nocase p s \<longleftrightarrow> length p = length s \<and> memcasecmp p (bytes_of s) = 0"

definition Xreport_header :: "bytes \<Rightarrow> bytes \<Rightarrow> unit h2m" where
  "Xreport_header k v =
     bindH (if k = bytes_of '':status''
            then bindH (Xparse_status_code2 v) (\<lambda>st env. Ok () (env\<lparr>status := Some st\<rparr>))
            else retH ())
       (\<lambda>_ env.
          if k = bytes_of ''content-type'' then
            let p = media_type v;
                env1 = (if same_nocase p ''text/html'' then env\<lparr>type_html := True\<rparr> else env);
                env2 = (if same_nocase p ''application/dns-message''
                        then env1\<lparr>type_dns := True\<rparr> else env1)
            in Ok () env2
          else Ok () env)"

text \<open>
  The start of a string literal: its length, whether it is Huffman coded, and
  the offset of its bytes.
\<close>

definition string_start :: "bytes \<Rightarrow> nat \<Rightarrow> nat \<Rightarrow> (bool \<times> nat \<times> nat) h2m" where
  "string_start buf len off =
     (if len \<le> off then failH HTTP2_COMPRESSION_ERROR ''out of space''
      else bindH (readH buf off) (\<lambda>byte.
           bindH (Xdecode_int2 (drop off buf) (len - off) HPACK_H_PREFIX_LEN) (\<lambda>(tmplen, v).
             let off1 = off + tmplen in
             if len - off1 < unat v
             then failH HTTP2_COMPRESSION_ERROR ''string too large for space''
             else retH (byte AND HPACK_H_MASK = HPACK_H, unat v, off1))))"

text \<open>\<open>memcpy\<close> of \<open>n\<close> bytes from offset \<open>off\<close>.\<close>

definition copyH :: "bytes \<Rightarrow> nat \<Rightarrow> nat \<Rightarrow> bytes h2m" where
  "copyH buf off n = (if off + n \<le> length buf then retH (take n (drop off buf))
     else crashH (Undefined ''read past the buffer''))"

text \<open>A Huffman coded string; the length 0 is the error value of the decoder.\<close>

definition huffH :: "huffman_tables \<Rightarrow> bytes \<Rightarrow> nat \<Rightarrow> nat \<Rightarrow> nat \<Rightarrow> bytes h2m" where
  "huffH T buf off n outbuflen =
     bindH (Xdecode_huffman2 T (drop off buf) n outbuflen) (\<lambda>s env. if s = [] then Err env else Ok s env)"

text \<open>The name of a literal as the C string in \<open>namebuf\<close>, and the offset behind it.\<close>

definition literal_name :: "huffman_tables \<Rightarrow> bytes \<Rightarrow> nat \<Rightarrow> nat \<Rightarrow> (bytes \<times> nat) h2m" where
  "literal_name T buf len off =
     bindH (string_start buf len off) (\<lambda>(huff, n, off1).
       bindH (if huff then huffH T buf off1 n 255
              else if 255 < n then failH HTTP2_COMPRESSION_ERROR ''name too long''
              else copyH buf off1 n)
         (\<lambda>s. retH (takeWhile (\<lambda>c. c \<noteq> 0) s, off1 + n)))"

definition literal_value :: "huffman_tables \<Rightarrow> bytes \<Rightarrow> nat \<Rightarrow> nat \<Rightarrow> (bytes \<times> nat) h2m" where
  "literal_value T buf len off =
     bindH (string_start buf len off) (\<lambda>(huff, n, off1).
       bindH (if huff then huffH T buf off1 n 1024 else copyH buf off1 n)
         (\<lambda>s. retH (s, off1 + n)))"

definition indexed_name :: "u32 \<Rightarrow> bytes h2m" where
  "indexed_name v =
     (if v = 0 then failH HTTP2_COMPRESSION_ERROR ''bad index''
      else if HPACK_STATIC_NR < v then bindH (Xget_dyn v) (\<lambda>(k, _). retH k)
      else retH (bytes_of (case fst (static_table ! unat v) of None \<Rightarrow> [] | Some s \<Rightarrow> s)))"

definition decode_indexed :: "bytes \<Rightarrow> nat \<Rightarrow> nat h2m" where
  "decode_indexed buf len =
     bindH (Xdecode_int2 buf len HPACK_IHF_PREFIX_LEN) (\<lambda>(tmplen, v).
       if v = 0 then failH HTTP2_COMPRESSION_ERROR ''bad index''
       else if HPACK_STATIC_NR < v
       then bindH (Xget_dyn v) (\<lambda>(k, w). bindH (Xreport_header k w) (\<lambda>_. retH tmplen))
       else case static_table ! unat v of
         (_, None) \<Rightarrow> failH HTTP2_COMPRESSION_ERROR ''entry has no value''
       | (name, Some w) \<Rightarrow>
           let k = bytes_of (case name of None \<Rightarrow> [] | Some s \<Rightarrow> s) in
           bindH (add_dyn k (bytes_of w)) (\<lambda>_.
           bindH (Xreport_header k (bytes_of w)) (\<lambda>_. retH tmplen)))"

definition decode_new_name :: "huffman_tables \<Rightarrow> bytes \<Rightarrow> nat \<Rightarrow> nat h2m" where
  "decode_new_name T buf len =
     bindH (literal_name T buf len 1) (\<lambda>(k, off).
     bindH (literal_value T buf len off) (\<lambda>(w, off1).
     bindH (add_dyn k w) (\<lambda>_.
     bindH (Xreport_header k w) (\<lambda>_. retH off1))))"

definition decode_indexed_name :: "huffman_tables \<Rightarrow> bytes \<Rightarrow> nat \<Rightarrow> nat \<Rightarrow> bool \<Rightarrow> nat h2m" where
  "decode_indexed_name T buf len prefix_len add =
     bindH (Xdecode_int2 buf len prefix_len) (\<lambda>(tmplen, v).
     bindH (indexed_name v) (\<lambda>k.
     bindH (literal_value T buf len tmplen) (\<lambda>(w, off).
     bindH (if add then add_dyn k w else retH ()) (\<lambda>_.
     bindH (Xreport_header k w) (\<lambda>_. retH off)))))"

definition Xdecode_header2 :: "huffman_tables \<Rightarrow> bytes \<Rightarrow> nat \<Rightarrow> nat h2m" where
  "Xdecode_header2 T buf len =
     bindH (readH buf 0) (\<lambda>byte.
       if byte AND HPACK_IHF_MASK = HPACK_IHF then decode_indexed buf len
       else if byte = HPACK_LHFII \<or> byte = HPACK_LHFwI then decode_new_name T buf len
       else if byte AND HPACK_LHFII_MASK = HPACK_LHFII
       then decode_indexed_name T buf len HPACK_LHFII_PREFIX_LEN True
       else if byte AND HPACK_LHFwI_MASK = HPACK_LHFwI
       then decode_indexed_name T buf len HPACK_LHFwI_PREFIX_LEN False
       else failH HTTP2_COMPRESSION_ERROR ''bad first byte'')"


section \<open>Decoding stays inside the frame\<close>

lemma runs_copyH [runs_rules]: "off + n \<le> length buf \<Longrightarrow> runs A (copyH buf off n) (\<lambda>_. True)"
  by (simp add: copyH_def runs_retH)

definition decode_aborts :: "abort_reason set" where
  "decode_aborts =
     {Undefined ''shift beyond the width'', Undefined ''index outside huffman_decode_fffffe''}"

lemma rfc_int_more_used: "rfc_int_more bs = Some (v, k) \<Longrightarrow> 1 \<le> k \<and> k \<le> length bs"
  by (induction bs arbitrary: v k) (auto split: if_splits)

lemma rfc_int_used: "rfc_int w bs = Some (v, n) \<Longrightarrow> 1 \<le> n \<and> n \<le> length bs"
  by (auto simp: rfc_int_def Let_def split: list.splits if_splits dest: rfc_int_more_used)

lemma runs_Xdecode_int2 [runs_rules]:
  assumes "p < 8" "1 \<le> len" "len \<le> length buf"
  shows "runs decode_aborts (Xdecode_int2 buf len p) (\<lambda>(n, v). 1 \<le> n \<and> n \<le> len)"
proof (rule keeps_runs[OF decode_int_keeps[OF live.h2_invariant_axioms]])
  fix env x env'
  assume "Xdecode_int2 buf len p env = Ok x env'"
  moreover obtain n v where x: "x = (n, v)" by (cases x)
  ultimately have "rfc_int (8 - p) (take len buf) = Some (unat v, n)"
    using decode_int_exact[OF assms] by blast
  then show "case x of (n, v) \<Rightarrow> 1 \<le> n \<and> n \<le> len" using rfc_int_used x assms(3) by fastforce
next
  fix env r
  assume "live env" "Xdecode_int2 buf len p env = Crash r"
  then show "r \<in> decode_aborts"
    using decode_int_crash[OF _ assms(2,3)] by (auto simp: live_def decode_aborts_def)
qed

lemma refill_some: "len \<le> length buf \<Longrightarrow> refill buf len k st \<noteq> None"
  by (cases st) (auto simp: refill_def)

lemma with_byte_stray:
  assumes "with_byte buf len st f = Stray r" "len \<le> length buf"
  obtains byte st' where "f byte st' = Stray r"
  using assms refill_some[OF assms(2), of 8 st]
  by (auto simp: with_byte_def split: option.splits prod.splits)

lemma lookup_not_stray: "huff_lookup T err byte st \<noteq> Stray r"
  by (cases st) (simp add: huff_lookup_def Let_def)

lemma with_byte_not_stray:
  "len \<le> length buf \<Longrightarrow> (\<And>byte st. f byte st \<noteq> Stray r) \<Longrightarrow> with_byte buf len st' f \<noteq> Stray r"
  using with_byte_stray by metis

lemma step_stray:
  assumes "huff_step T buf len st = Stray r" and len: "len \<le> length buf"
  shows "r = ''index outside huffman_decode_fffffe''"
proof (rule ccontr)
  assume r: "r \<noteq> ''index outside huffman_decode_fffffe''"
  have l: "with_byte buf len st' (\<lambda>byte st. huff_lookup T' e byte st) \<noteq> Stray r" for T' e st'
    by (rule with_byte_not_stray[OF len lookup_not_stray])
  have f: "huff_fffffe T buf len st' \<noteq> Stray r" for st'
  proof -
    obtain b n i where "refill buf len 4 st' = Some (b, n, i)"
      using refill_some[OF len, of 4 st'] by auto
    then show ?thesis using r by (simp add: huff_fffffe_def Let_def lookup_not_stray)
  qed
  have ff3: "huff_ffffff T buf len st' \<noteq> Stray r" for st'
    unfolding huff_ffffff_def by (rule with_byte_not_stray[OF len]) (simp add: lookup_not_stray)
  have ff2: "huff_ffff T buf len st' \<noteq> Stray r" for st'
    unfolding huff_ffff_def Let_def
    by (rule with_byte_not_stray[OF len]) (simp add: lookup_not_stray l f ff3)
  have ff1: "huff_ff T buf len st' \<noteq> Stray r" for st'
    unfolding huff_ff_def Let_def
    by (rule with_byte_not_stray[OF len]) (simp add: lookup_not_stray l ff2)
  have "huff_step T buf len st \<noteq> Stray r"
    unfolding huff_step_def Let_def
    by (rule with_byte_not_stray[OF len])
       (simp add: lookup_not_stray l ff1 split: huff_result.split)
  with assms(1) show False by simp
qed

lemma huff_loop_keeps:
  assumes "h2_invariant P"
  shows "keeps P (huff_loop T buf len m st out)"
  by (induction T buf len m st out rule: huff_loop.induct)
     (subst huff_loop.simps, simp add: h2_invariant.keeps_failH[OF assms] split: huff_result.split)

lemma huff_loop_crash:
  "huff_loop T buf len m st out env = Crash r \<Longrightarrow> len \<le> length buf \<Longrightarrow> outbuf env \<noteq> None \<Longrightarrow>
     r = Undefined ''index outside huffman_decode_fffffe''"
proof (induction "m - length out" arbitrary: st out)
  case 0
  then show ?case
    by (subst (asm) huff_loop.simps)
       (auto simp: failH_eq retH_def crashH_def split: huff_result.splits if_splits option.splits dest: step_stray)
next
  case (Suc d)
  show ?case
  proof (cases "huff_step T buf len st")
    case (Emit v st')
    then have "huff_loop T buf len m st' (out @ [v]) env = Crash r"
      using Suc.prems(1) Suc.hyps(2) by (subst (asm) huff_loop.simps) (simp split: if_splits)
    then show ?thesis using Suc.hyps Suc.prems(2,3) by (intro Suc.hyps(1)) auto
  next
    case Finish
    then show ?thesis using Suc.prems(1) by (subst (asm) huff_loop.simps) (simp add: retH_def)
  next
    case (Garbage e)
    then show ?thesis
      using Suc.prems(1,3) by (subst (asm) huff_loop.simps) (auto simp: failH_eq)
  next
    case (Stray e)
    then show ?thesis
      using Suc.prems(1,2) step_stray by (subst (asm) huff_loop.simps) (auto simp: crashH_def)
  qed
qed

lemma runs_Xdecode_huffman2 [runs_rules]:
  "n \<le> length buf \<Longrightarrow> runs decode_aborts (Xdecode_huffman2 T buf n m) (\<lambda>_. True)"
  unfolding Xdecode_huffman2_def
  by (rule keeps_runs[OF huff_loop_keeps[OF live.h2_invariant_axioms]])
     (auto simp: decode_aborts_def live_def dest!: huff_loop_crash)

lemma runs_huffH [runs_rules]:
  "off + n \<le> length buf \<Longrightarrow> runs decode_aborts (huffH T buf off n m) (\<lambda>_. True)"
  unfolding huffH_def
  by (rule runs_bindH[OF runs_Xdecode_huffman2]) (auto simp: runs_def)

lemma runs_add_dyn [runs_rules]: "runs A (add_dyn k v) (\<lambda>_. True)"
  by (auto simp: runs_def add_dyn_def Let_def live_def env_ok_defs)

lemma runs_report [runs_rules]: "runs A (Xreport_header k v) (\<lambda>_. True)"
proof -
  have "runs A (Xparse_status_code2 v) (\<lambda>_. True)"
    unfolding Xparse_status_code2_def by (auto intro!: runs_rules split: prod.split)
  then have "runs A (bindH (Xparse_status_code2 v) (\<lambda>st env. Ok () (env\<lparr>status := Some st\<rparr>))) (\<lambda>_. True)"
    by (rule runs_bindH) (auto simp: runs_def live_def env_ok_defs)
  then have st: "runs A (if k = bytes_of '':status''
      then bindH (Xparse_status_code2 v) (\<lambda>st env. Ok () (env\<lparr>status := Some st\<rparr>)) else retH ()) (\<lambda>_. True)"
    by (intro runs_if runs_retH) simp_all
  show ?thesis
    unfolding Xreport_header_def
    by (rule runs_bindH[OF st]) (auto simp: runs_def Let_def live_def env_ok_defs)
qed

lemma runs_string_start [runs_rules]:
  assumes "len \<le> length buf"
  shows "runs decode_aborts (string_start buf len off) (\<lambda>(huff, n, off1). off < off1 \<and> off1 + n \<le> len)"
proof (cases "off < len")
  case True
  then have r: "runs decode_aborts (Xdecode_int2 (drop off buf) (len - off) HPACK_H_PREFIX_LEN)
      (\<lambda>(n, v). 1 \<le> n \<and> n \<le> len - off)"
    using assms by (intro runs_Xdecode_int2) (simp_all add: HPACK_H_PREFIX_LEN_def)
  show ?thesis
    unfolding string_start_def using True assms
    by (auto intro!: runs_bindH[OF runs_readH] runs_bindH[OF r] runs_rules simp: Let_def)
qed (simp add: string_start_def runs_failH)

lemma runs_literal [runs_rules]:
  assumes "len \<le> length buf"
  shows "runs decode_aborts (literal_name T buf len off) (\<lambda>(k, off1). off < off1 \<and> off1 \<le> len)"
    and "runs decode_aborts (literal_value T buf len off) (\<lambda>(k, off1). off < off1 \<and> off1 \<le> len)"
  unfolding literal_name_def literal_value_def using assms
  by (auto intro!: runs_bindH[OF runs_string_start] runs_bindH[where Q = "\<lambda>_. True"] runs_rules)

lemma runs_get_dyn [runs_rules]: "HPACK_STATIC_NR < v \<Longrightarrow> runs A (Xget_dyn v) (\<lambda>_. True)"
  using runs_failH[of A HTTP2_COMPRESSION_ERROR "''bad dynamic index''" "\<lambda>_. True"]
  by (auto simp: runs_def Xget_dyn_def Let_def not_less)

lemma runs_indexed_name [runs_rules]: "runs A (indexed_name v) (\<lambda>_. True)"
  unfolding indexed_name_def
  by (auto intro!: runs_rules runs_bindH[OF runs_get_dyn])

lemma runs_decode_header:
  assumes "1 \<le> len" "len \<le> length buf"
  shows "runs decode_aborts (Xdecode_header2 T buf len) (\<lambda>n. 1 \<le> n \<and> n \<le> len)"
proof -
  have int: "runs decode_aborts (Xdecode_int2 buf len p) (\<lambda>(n, v). 1 \<le> n \<and> n \<le> len)" if "p < 8" for p
    using that assms by (rule runs_Xdecode_int2)
  have ind: "runs decode_aborts (decode_indexed buf len) (\<lambda>n. 1 \<le> n \<and> n \<le> len)"
    unfolding decode_indexed_def
    by (rule runs_bindH[OF int])
       (auto simp: HPACK_IHF_PREFIX_LEN_def Let_def intro!: runs_if runs_failH runs_bindH[OF runs_get_dyn]
         runs_bindH[OF runs_report] runs_bindH[OF runs_add_dyn] runs_retH split: prod.split option.split)
  have new: "runs decode_aborts (decode_new_name T buf len) (\<lambda>n. 1 \<le> n \<and> n \<le> len)"
    unfolding decode_new_name_def
    by (rule runs_bindH[OF runs_literal(1)[OF assms(2)]])
       (auto intro!: runs_bindH[OF runs_literal(2)[OF assms(2)]] runs_bindH[OF runs_report]
         runs_bindH[OF runs_add_dyn] runs_retH)
  have name: "runs decode_aborts (decode_indexed_name T buf len p add) (\<lambda>n. 1 \<le> n \<and> n \<le> len)" if "p < 8" for p add
    unfolding decode_indexed_name_def
    by (rule runs_bindH[OF int[OF that]])
       (auto intro!: runs_bindH[OF runs_indexed_name] runs_bindH[OF runs_literal(2)[OF assms(2)]]
         runs_bindH[where Q = "\<lambda>_. True"] runs_report runs_if runs_add_dyn runs_retH)
  show ?thesis
    unfolding Xdecode_header2_def using assms
    by (intro runs_bindH[OF runs_readH] runs_if ind new name runs_failH)
       (auto simp: HPACK_LHFII_PREFIX_LEN_def HPACK_LHFwI_PREFIX_LEN_def)
qed


section \<open>Plain literals\<close>

lemma string_mark:
  fixes v :: u32
  shows "(int_bytes 1 0 v @ r) ! 0 AND HPACK_H_MASK \<noteq> HPACK_H"
proof -
  have "unat (int_mask 1) = 127" using int_mask_simps(1)[of 1] by simp
  then have m: "unat (ucast (int_mask 1) :: u8) < 128" and le: "w < int_mask 1 \<Longrightarrow> unat (ucast w :: u8) < 128" for w :: u32
    by (simp_all add: word_less_nat_alt unsigned_ucast_eq take_bit_nat_eq_self)
  have "unat ((int_bytes 1 0 v @ r) ! 0) < 128"
    using m le[of v] by (simp add: int_bytes_def)
  then have "(int_bytes 1 0 v @ r) ! 0 AND HPACK_INT_MORE = 0"
    using int_more_bits(2)[of "(int_bytes 1 0 v @ r) ! 0"] by auto
  then show ?thesis by (simp add: HPACK_H_MASK_def HPACK_H_def HPACK_INT_MORE_def)
qed

lemma int_bytes_not_Nil [simp]: "int_bytes p pv v \<noteq> []"
  using length_int_bytes[of p pv v] by auto

lemma string_start_plain:
  assumes "length s < 2 ^ 32" and "buf = pre @ int_bytes 1 0 (of_nat (length s)) @ s @ rest"
  shows "string_start buf (length buf) (length pre) env
    = Ok (False, length s, length pre + length (int_bytes 1 0 (of_nat (length s)))) env"
proof -
  let ?ib = "int_bytes 1 0 (of_nat (length s) :: u32)"
  have v: "unat (of_nat (length s) :: u32) = length s" by (rule unat_of_nat_u32[OF assms(1)])
  have ib: "1 \<le> length ?ib" "length ?ib \<le> 6" using length_int_bytes by blast+
  have d: "drop (length pre) buf = ?ib @ s @ rest" by (simp add: assms(2))
  have "Xdecode_int2 (?ib @ s @ rest) (length (?ib @ s @ rest)) 1 env = Ok (length ?ib, of_nat (length s)) env"
    using ib rfc_int_bytes[of 1 0 "of_nat (length s)" "s @ rest"]
    by (subst decode_int_exact) simp_all
  moreover have "buf ! length pre AND HPACK_H_MASK \<noteq> HPACK_H"
    using string_mark[of "of_nat (length s)" "s @ rest"] by (simp add: assms(2) nth_append)
  ultimately show ?thesis
    using ib unfolding string_start_def
    by (simp add: readH_def h2_simps bindH_def retH_def d HPACK_H_PREFIX_LEN_def v assms(2) Let_def)
qed

lemma literal_plain:
  assumes "length s < 2 ^ 32" and "buf = pre @ int_bytes 1 0 (of_nat (length s)) @ s @ rest"
  shows "literal_value T buf (length buf) (length pre) env = Ok (s, length buf - length rest) env"
    and "length s \<le> 255 \<Longrightarrow> 0 \<notin> set s \<Longrightarrow>
      literal_name T buf (length buf) (length pre) env = Ok (s, length buf - length rest) env"
proof -
  note st = string_start_plain[OF assms, of env]
  have c: "copyH buf (length pre + length (int_bytes 1 0 (of_nat (length s) :: u32))) (length s) env = Ok s env"
    by (simp add: copyH_def assms(2) retH_def)
  show "literal_value T buf (length buf) (length pre) env = Ok (s, length buf - length rest) env"
    using st c by (simp add: literal_value_def bindH_def retH_def assms(2))
  assume "length s \<le> 255" "0 \<notin> set s"
  then show "literal_name T buf (length buf) (length pre) env = Ok (s, length buf - length rest) env"
    using st c by (simp add: literal_name_def bindH_def retH_def assms(2) takeWhile_eq_all_conv)
       (metis takeWhile_eq_all_conv)
qed


section \<open>Tables, status and media type\<close>

lemma add_header2_headers:
  assumes "headers_ok env"
  shows "http2_headers (add_header2 env name v) = http2_headers env @ HPACK_LHFNI #
      int_bytes 1 0 (of_nat (length name)) @ bytes_of name @ int_bytes 1 0 (of_nat (length v)) @ bytes_of v
    \<and> headers_ok (add_header2 env name v)"
  unfolding add_header2_def Let_def add_str2_def
  using assms by (simp add: add_byte_headers add_byte_ok add_block_headers add_block_ok add_length2_headers)

lemma to_lower_ascii: "c < 128 \<longleftrightarrow> to_lower c < 128" "\<not> c < 128 \<Longrightarrow> to_lower c = c"
  unfolding to_lower_def using unat_u8[of c]
  by (auto simp: word_less_nat_alt word_le_nat_alt unat_word_ariths)

lemma memcasecmp_eq: "length p = length q \<Longrightarrow> memcasecmp p q = 0 \<longleftrightarrow> map to_lower p = map to_lower q"
proof (induction p q rule: memcasecmp.induct)
  case (1 c1 p1 c2 p2)
  have "to_lower c1 = to_lower c2 \<Longrightarrow> c1 = c2 \<or> c1 < 128 \<and> c2 < 128"
    using to_lower_ascii[of c1] to_lower_ascii[of c2] by metis
  then show ?case using 1 by auto
qed auto

lemma same_nocase_iff: "same_nocase p s \<longleftrightarrow> map to_lower p = map to_lower (bytes_of s)"
  unfolding same_nocase_def using memcasecmp_eq[of p "bytes_of s"]
  by (auto simp: bytes_of_def dest: map_eq_imp_length_eq)

lemma strtoul10_digits:
  "list_all byte_is_digit v \<Longrightarrow> strtoul10 acc v = (foldl (\<lambda>a c. 10 * a + (unat c - 48)) acc v, [])"
  by (induction v arbitrary: acc) simp_all


section \<open>Properties\<close>

text \<open>
  C28: Decoding a header from a well-formed state never reads outside the \<open>len\<close>
  bytes it is given, writes outside the dynamic table, or breaks the state.  It
  uses between 1 and \<open>len\<close> bytes, fails, or stops for one of two reasons: an
  integer of more than six bytes, or the index of the Huffman table for
  \<open>0xfffffe\<close>.
\<close>

theorem Xdecode_header2_inside:
  assumes "env_ok env" and "outbuf env \<noteq> None" and "1 \<le> len" and "len \<le> length buf"
  shows "case Xdecode_header2 T buf len env of
      Ok n env' \<Rightarrow> 1 \<le> n \<and> n \<le> len \<and> env_ok env'
    | Err env' \<Rightarrow> env_ok env'
    | Crash r \<Rightarrow> r \<in> {Undefined ''shift beyond the width'',
                       Undefined ''index outside huffman_decode_fffffe''}"
  using runs_decode_header[OF assms(3,4), of T] assms(1,2)
  unfolding runs_def live_def decode_aborts_def by (auto split: h2.splits)

theorem Xdecode_header2_inside_witness:
  "\<forall>T. case Xdecode_header2 T [0x88] 1 (http2_init\<lparr>outbuf := Some []\<rparr>) of
      Ok n env' \<Rightarrow> 1 \<le> n \<and> n \<le> 1 \<and> env_ok env'
    | Err env' \<Rightarrow> env_ok env'
    | Crash r \<Rightarrow> r \<in> {Undefined ''shift beyond the width'',
                       Undefined ''index outside huffman_decode_fffffe''}"
  using Xdecode_header2_inside[of "http2_init\<lparr>outbuf := Some []\<rparr>" 1 "[0x88]"]
  by (simp add: env_ok_defs http2_init_def)

text \<open>
  A literal header field with a new name, written with plain strings, is
  decoded to its name and value: both are entered into the dynamic table and
  reported, and exactly its bytes are used.
\<close>

lemma Xdecode_header2_literal:
  assumes "length name \<le> 255" and "0 \<notin> set name" and "length v < 2 ^ 32"
  shows "Xdecode_header2 T
      (HPACK_LHFII # int_bytes 1 0 (of_nat (length name)) @ name @
         int_bytes 1 0 (of_nat (length v)) @ v @ rest)
      (1 + length (int_bytes 1 0 (of_nat (length name))) + length name +
         length (int_bytes 1 0 (of_nat (length v))) + length v + length rest) env
    = bindH (add_dyn name v) (\<lambda>_. bindH (Xreport_header name v) (\<lambda>_.
        retH (1 + length (int_bytes 1 0 (of_nat (length name))) + length name +
         length (int_bytes 1 0 (of_nat (length v))) + length v))) env"
proof -
  let ?n = "int_bytes 1 0 (of_nat (length name) :: u32)" and ?v = "int_bytes 1 0 (of_nat (length v) :: u32)"
  let ?buf = "HPACK_LHFII # ?n @ name @ ?v @ v @ rest"
  have len: "1 + length ?n + length name + length ?v + length v + length rest = length ?buf" by simp
  have n: "literal_name T ?buf (length ?buf) 1 env' = Ok (name, 1 + length ?n + length name) env'" for env'
    using literal_plain(2)[of name ?buf "[HPACK_LHFII]" "?v @ v @ rest" T env'] assms by simp
  have v: "literal_value T ?buf (length ?buf) (1 + length ?n + length name) env'
      = Ok (v, 1 + length ?n + length name + length ?v + length v) env'" for env'
    using literal_plain(1)[of v ?buf "HPACK_LHFII # ?n @ name" rest T env'] assms by simp
  have "HPACK_LHFII AND HPACK_IHF_MASK \<noteq> HPACK_IHF" by (simp add: hpack_consts)
  then have "Xdecode_header2 T ?buf (length ?buf) env = decode_new_name T ?buf (length ?buf) env"
    by (simp add: Xdecode_header2_def readH_def bindH_def retH_def)
  also have "\<dots> = bindH (add_dyn name v) (\<lambda>_. bindH (Xreport_header name v) (\<lambda>_.
      retH (1 + length ?n + length name + length ?v + length v))) env"
    by (simp only: decode_new_name_def bindH_Ok[OF n] prod.case bindH_Ok[OF v])
  finally show ?thesis unfolding len .
qed


text \<open>
  A header that \<open>add_header2\<close> writes is appended to the header block in the
  form of a literal that is never indexed: the type byte, then name and value
  as plain strings with their lengths.  \<open>Xdecode_header2\<close> refuses every header of
  that form with a compression error.
\<close>

lemma add_header2_form:
  assumes "headers_ok env"
  shows "http2_headers (add_header2 env name v) = http2_headers env @ HPACK_LHFNI #
      int_bytes 1 0 (of_nat (length name)) @ bytes_of name @
      int_bytes 1 0 (of_nat (length v)) @ bytes_of v
    \<and> Xdecode_header2 T (drop (length (http2_headers env)) (http2_headers (add_header2 env name v))) len env'
      = failH HTTP2_COMPRESSION_ERROR ''bad first byte'' env'"
  unfolding conjunct1[OF add_header2_headers[OF assms]]
  by (simp add: Xdecode_header2_def readH_def bindH_def retH_def hpack_consts)

text \<open>
  The dynamic index 62 + \<open>i\<close> selects the entry before the one it should:
  HPACK numbers the entries from the newest, 62 being the last one added, but
  \<open>Xget_dyn\<close> returns entry \<open>i\<close> + 1 from the newest and rejects the index of the
  oldest entry.
\<close>

theorem Xget_dyn_shifted:
  assumes "dyn_ok env" and "i < 2 ^ 32 - 62"
  shows "Xget_dyn (of_nat (62 + i)) env =
    (if i + 1 < length (http2_dyn env)
     then Ok (key (rev (http2_dyn env) ! (i + 1)), val (rev (http2_dyn env) ! (i + 1))) env
     else failH HTTP2_COMPRESSION_ERROR ''bad dynamic index'' env)"
proof -
  have u: "unat (of_nat (62 + i) :: u32) = 62 + i"
    by (rule unat_of_nat_u32) (use assms(2) in simp)
  then have "\<not> (of_nat (62 + i) :: u32) < HPACK_STATIC_NR"
      and "unat (of_nat (62 + i) - HPACK_STATIC_NR :: u32) = i + 1"
    by (simp_all add: word_less_nat_alt HPACK_STATIC_NR_def unat_sub_if' del: of_nat_add)
  then show ?thesis
    using assms(1) unfolding Xget_dyn_def Let_def
    by (auto simp: dyn_ok_def rev_nth not_less [where x = "_ :: nat"] simp del: of_nat_add)
qed

theorem Xget_dyn_shifted_witness:
  "Xget_dyn (of_nat (62 + 0)) (http2_init\<lparr>http2_dyn := [\<lparr>key = [1], val = [2]\<rparr>],
      http2_dyn_idx := 1, http2_dyn_alloc := 16\<rparr>)
    = failH HTTP2_COMPRESSION_ERROR ''bad dynamic index'' (http2_init\<lparr>http2_dyn := [\<lparr>key = [1], val = [2]\<rparr>],
      http2_dyn_idx := 1, http2_dyn_alloc := 16\<rparr>)"
  by (subst Xget_dyn_shifted) (simp_all add: dyn_ok_def http2_init_def)

text \<open>
  The header \<open>:status\<close> sets the status exactly when its value consists of
  three digits, to the number they denote; anything else is a protocol error
  and leaves the state as it was.
\<close>

lemma Xreport_header_status:
  "Xreport_header (bytes_of '':status'') v env =
    (if length v = 3 \<and> (\<forall>i < 3. 48 \<le> v ! i \<and> v ! i \<le> 57)
     then Ok () (env\<lparr>status :=
            Some (of_nat (100 * (unat (v ! 0) - 48) + 10 * (unat (v ! 1) - 48) + (unat (v ! 2) - 48)))\<rparr>)
     else failH HTTP2_PROTOCOL_ERROR
            (if length v \<noteq> 3 then ''bad status code'' else ''error parsing status code'') env)"
proof (cases "length v = 3")
  case True
  then obtain a b c where v: "v = [a, b, c]"
    by (auto simp: length_Suc_conv eval_nat_numeral)
  have all: "(\<forall>i < 3. 48 \<le> v ! i \<and> v ! i \<le> 57) \<longleftrightarrow> list_all byte_is_digit v"
    by (simp add: v byte_is_digit_def numeral_3_eq_3 All_less_Suc) auto
  have "bytes_of '':status'' \<noteq> bytes_of ''content-type''" by (simp add: bytes_of_def)
  then show ?thesis
    using strtoul10_digits[of v 0] unfolding all
    by (auto simp: Xreport_header_def Xparse_status_code2_def bindH_def retH_def v failH_eq
        split: option.splits)
next
  case False
  then show ?thesis by (simp add: Xreport_header_def Xparse_status_code2_def bindH_def failH_eq split: option.splits)
qed

text \<open>
  The header \<open>content-type\<close> is recognised without regard to case, with its
  parameters and the white space around it removed: the text
  \<open>application/dns-message\<close> makes the client collect data, \<open>text/html\<close> makes it
  print them, and nothing else in the state changes.
\<close>

lemma Xreport_header_content_type:
  "Xreport_header (bytes_of ''content-type'') v env = Ok () (env\<lparr>
     type_html := type_html env \<or>
       map to_lower (media_type v) = bytes_of ''text/html'',
     type_dns := type_dns env \<or>
       map to_lower (media_type v) = bytes_of ''application/dns-message''\<rparr>)"
proof -
  have "bytes_of ''content-type'' \<noteq> bytes_of '':status''" by (simp add: bytes_of_def)
  moreover have "map to_lower (bytes_of ''text/html'') = bytes_of ''text/html''"
      "map to_lower (bytes_of ''application/dns-message'') = bytes_of ''application/dns-message''"
    by (simp_all add: bytes_of_def to_lower_def)
  ultimately show ?thesis
    by (simp add: Xreport_header_def same_nocase_iff bindH_def retH_def Let_def)
qed

end
