(* ===== verification/Http2.thy ===== *)
theory Http2
  imports Hpack
begin

text \<open>
  The frames the HTTP/2 client of \<^verbatim>\<open>eperd/http2.c\<close> receives: one function for
  each kind of frame, and the \<open>switch\<close> that selects it.  The lemmas show that
  every frame keeps the state well-formed, which accesses stay inside their
  buffers, and what data, window and padded header frames do.
\<close>


section \<open>Receiving frames\<close>

definition add_credits2 :: "u32 \<Rightarrow> u32 \<Rightarrow> unit h2m" where
  "add_credits2 stream_id credits = (\<lambda>env.
     let env1 = env\<lparr>http2_send_global_credits := http2_send_global_credits env + credits\<rparr> in
     if stream_id = 1
     then Ok () (env1\<lparr>http2_send_stream1_credits := http2_send_stream1_credits env1 + credits\<rparr>)
     else Crash (Fatal ''add_credits2: should handle more streams''))"

text \<open>The data of a frame, appended to what was received before.\<close>

definition add_data2 :: "bytes \<Rightarrow> http2_env \<Rightarrow> http2_env" where
  "add_data2 d env =
     (if type_dns env then
        let needed = http2_data_len env + length d;
            env1 = (if http2_data_max env < needed
                    then env\<lparr>http2_data_max := needed + 4096\<rparr> else env)
        in env1\<lparr>http2_data := take (http2_data_len env1) (http2_data env1) @ d,
                http2_data_len := http2_data_len env1 + length d\<rparr>
      else env)"

definition Xreceive_data2 :: "http2_hdr \<Rightarrow> nat \<Rightarrow> u32 \<Rightarrow> bytes \<Rightarrow> unit h2m" where
  "Xreceive_data2 hdrp len stream_id buf =
     bindH (if hdr_flags hdrp AND HTTP2_HDR_DATA_PADDED \<noteq> 0
            then bindH (readH buf 0) (\<lambda>b.
                   if len \<le> unat b then failH HTTP2_PROTOCOL_ERROR ''padding error''
                   else retH (1, unat b))
            else retH (0, 0))
       (\<lambda>(pad_offset, pad_length).
          bindH (add_credits2 stream_id (of_nat len)) (\<lambda>_.
          bindH (copyH buf pad_offset (len - (pad_offset + pad_length))) (\<lambda>d env.
            Ok () (add_data2 d env))))"

text \<open>\<open>headers_len-o\<close> on \<open>size_t\<close>: it wraps around once \<open>o\<close> is past the headers.\<close>

definition size_minus :: "nat \<Rightarrow> nat \<Rightarrow> nat" where
  "size_minus a b = (if b \<le> a then a - b else 2 ^ 64 + a - b)"

function headers_loop :: "huffman_tables \<Rightarrow> bytes \<Rightarrow> nat \<Rightarrow> nat \<Rightarrow> nat \<Rightarrow> unit h2m" where
  "headers_loop T buf len headers_len i =
     (if i < len
      then bindH (Xdecode_header2 T (drop i buf) (size_minus headers_len i))
             (\<lambda>n. if n = 0 then (\<lambda>env. Err env) else headers_loop T buf len headers_len (i + n))
      else retH ())"
  by pat_completeness auto

termination
  by (relation "measure (\<lambda>(T, buf, len, headers_len, i). len - i)") auto

declare headers_loop.simps [simp del]

definition Xreceive_headers2 :: "huffman_tables \<Rightarrow> http2_hdr \<Rightarrow> nat \<Rightarrow> u32 \<Rightarrow> bytes \<Rightarrow> unit h2m" where
  "Xreceive_headers2 T hdrp len stream_id buf =
     (if stream_id = 0 then failH HTTP2_PROTOCOL_ERROR ''0 stream ID''
      else if stream_id \<noteq> 1 then failH HTTP2_PROTOCOL_ERROR ''stream not open''
      else bindH (if hdr_flags hdrp AND HTTP2_HDR_HEADERS_PADDED \<noteq> 0
                  then bindH (readH buf 0) (\<lambda>b. retH (1, unat b))
                  else retH (0, 0))
        (\<lambda>(pad_offset, pad_length).
           let prio_offset = (if hdr_flags hdrp AND HTTP2_HDR_HEADERS_PRIORITY \<noteq> 0 then 5 else 0) in
           if len < pad_offset + prio_offset + pad_length
           then failH HTTP2_PROTOCOL_ERROR ''too much padding''
           else headers_loop T buf len (len - pad_length) (pad_offset + prio_offset)))"

definition Xreceive_rst_stream2 :: "nat \<Rightarrow> u32 \<Rightarrow> bytes \<Rightarrow> unit h2m" where
  "Xreceive_rst_stream2 len stream_id buf =
     (if len \<noteq> 4 then failH HTTP2_FRAME_SIZE_ERROR ''length''
      else bindH (copyH buf 0 4) (\<lambda>_.
        if stream_id = 0 then failH HTTP2_PROTOCOL_ERROR ''zero stream ID'' else retH ()))"

text \<open>The settings of a frame; every branch of the loop only prints.\<close>

function settings_loop :: "bytes \<Rightarrow> nat \<Rightarrow> nat \<Rightarrow> (u16 \<times> u32) list h2m" where
  "settings_loop buf len i =
     (if i < len
      then bindH (copyH buf i 2) (\<lambda>t. bindH (copyH buf (i + 2) 4) (\<lambda>v.
             bindH (settings_loop buf len (i + 6)) (\<lambda>rest.
               retH ((be16 (t ! 0) (t ! 1), be32 (v ! 0) (v ! 1) (v ! 2) (v ! 3)) # rest))))
      else retH [])"
  by pat_completeness auto

termination
  by (relation "measure (\<lambda>(buf, len, i). len - i)") auto

declare settings_loop.simps [simp del]

definition Xreceive_settings2 :: "http2_hdr \<Rightarrow> nat \<Rightarrow> u32 \<Rightarrow> bytes \<Rightarrow> unit h2m" where
  "Xreceive_settings2 hdrp len stream_id buf =
     (if len mod 6 \<noteq> 0 then failH HTTP2_FRAME_SIZE_ERROR ''frame''
      else if hdr_flags hdrp AND HTTP2_HDR_SETTINGS_ACK \<noteq> 0 \<and> len \<noteq> 0
      then failH HTTP2_FRAME_SIZE_ERROR ''non-empty ACK settings frame''
      else if stream_id \<noteq> 0 then failH HTTP2_PROTOCOL_ERROR ''non-zero stream ID''
      else bindH (settings_loop buf len 0) (\<lambda>_. retH ()))"

definition Xreceive_ping2 :: "nat \<Rightarrow> u32 \<Rightarrow> bytes \<Rightarrow> unit h2m" where
  "Xreceive_ping2 len stream_id d =
     (if stream_id \<noteq> 0 then failH HTTP2_PROTOCOL_ERROR ''non-zero stream ID''
      else if len \<noteq> 8 then failH HTTP2_FRAME_SIZE_ERROR ''ping frame not 8 octets''
      else bindH (copyH d 0 len) (\<lambda>_. retH ()))"

definition Xreceive_goaway2 :: "nat \<Rightarrow> u32 \<Rightarrow> bytes \<Rightarrow> unit h2m" where
  "Xreceive_goaway2 len stream_id d =
     (if stream_id \<noteq> 0 then failH HTTP2_PROTOCOL_ERROR ''non-zero stream ID''
      else if len < 8 then failH HTTP2_FRAME_SIZE_ERROR ''goaway frame not at least 8 octets''
      else bindH (copyH d 0 len) (\<lambda>_. retH ()))"

definition Xreceive_window_update2 :: "nat \<Rightarrow> u32 \<Rightarrow> bytes \<Rightarrow> unit h2m" where
  "Xreceive_window_update2 len stream_id buf =
     (if len \<noteq> 4 then failH HTTP2_FRAME_SIZE_ERROR ''window update frame not 4 octets''
      else bindH (copyH buf 0 4) (\<lambda>b.
        let v = be32 (b ! 0) (b ! 1) (b ! 2) (b ! 3) AND NOT HTTP2_HDR_R in
        if v = 0 then failH HTTP2_PROTOCOL_ERROR ''zero increment''
        else if stream_id = 0 then (\<lambda>env.
          let w = http2_connection_window env + v;
              env1 = env\<lparr>http2_connection_window := w\<rparr> in
          if HTTP2_MAX_WINDOW < w then failH HTTP2_FLOW_CONTROL_ERROR ''window overflow'' env1
          else Ok () env1)
        else if stream_id = 1 then (\<lambda>env.
          let w = http2_stream1_window env + v;
              env1 = env\<lparr>http2_stream1_window := w\<rparr> in
          if HTTP2_MAX_WINDOW < w then failH HTTP2_FLOW_CONTROL_ERROR ''window overflow'' env1
          else Ok () env1)
        else failH HTTP2_INTERNAL_ERROR ''window increment for unknown stream''))"

text \<open>The \<open>switch\<close> over the frame type, and the reset of the input behind it.\<close>

definition receive_frame :: "huffman_tables \<Rightarrow> http2_hdr \<Rightarrow> bytes \<Rightarrow> unit h2m" where
  "receive_frame T hdr d =
     (let len = frame_length hdr; stream_id = frame_stream_id hdr; type = hdr_type hdr in
      bindH
        (if type = HTTP2_HDR_TYPE_DATA then
           bindH (Xreceive_data2 hdr len stream_id d) (\<lambda>_ env.
             Ok () (if hdr_flags hdr AND HTTP2_HDR_DATA_END_STREAM \<noteq> 0
                    then env\<lparr>finished := True\<rparr> else env))
         else if type = HTTP2_HDR_TYPE_HEADERS then Xreceive_headers2 T hdr len stream_id d
         else if type = HTTP2_HDR_TYPE_RST_STREAM then Xreceive_rst_stream2 len stream_id d
         else if type = HTTP2_HDR_TYPE_SETTINGS then Xreceive_settings2 hdr len stream_id d
         else if type = HTTP2_HDR_TYPE_PING then Xreceive_ping2 len stream_id d
         else if type = HTTP2_HDR_TYPE_GOAWAY then Xreceive_goaway2 len stream_id d
         else if type = HTTP2_HDR_TYPE_WINDOW_UPDATE then Xreceive_window_update2 len stream_id d
         else failH HTTP2_PROTOCOL_ERROR ''unknown type'')
        (\<lambda>_ env. Ok () (env\<lparr>http2_input := [], http2_input_len := 0\<rparr>)))"



section \<open>Invariants of the receiving functions\<close>

lemma keeps_prod [keep_rules]: "(\<And>a b. x = (a, b) \<Longrightarrow> keeps P (f a b)) \<Longrightarrow> keeps P (case x of (a, b) \<Rightarrow> f a b)"
  by (cases x) simp

lemma keeps_option [keep_rules]:
  "(x = None \<Longrightarrow> keeps P f) \<Longrightarrow> (\<And>y. x = Some y \<Longrightarrow> keeps P (g y)) \<Longrightarrow> keeps P (case x of None \<Rightarrow> f | Some y \<Rightarrow> g y)"
  by (cases x) simp_all

lemma keeps_let [keep_rules]: "(\<And>y. keeps P (f y)) \<Longrightarrow> keeps P (let y = x in f y)"
  by simp

lemma keeps_copyH [keep_rules]: "keeps P (copyH buf off n)"
  by (simp add: copyH_def)

lemma keeps_update [keep_rules]: "(\<And>env. P env \<Longrightarrow> P (f env)) \<Longrightarrow> keeps P (\<lambda>env. Ok x (f env))"
  by (simp add: keeps_def)

lemma keeps_Err [keep_rules]: "keeps P (\<lambda>env. Err env)"
  by (simp add: keeps_def)

text \<open>
  An invariant of the dynamic table and of what a header reports is an
  invariant of decoding headers.
\<close>

locale header_invariant = h2_invariant +
  assumes dyn_kept: "keeps P (add_dyn k v)"
    and status_kept: "P env \<Longrightarrow> P (env\<lparr>status := st\<rparr>)"
    and html_kept: "P env \<Longrightarrow> P (env\<lparr>type_html := b\<rparr>)"
    and dns_kept: "P env \<Longrightarrow> P (env\<lparr>type_dns := b\<rparr>)"
begin

lemma keeps_report: "keeps P (Xreport_header k v)"
  unfolding Xreport_header_def Xparse_status_code2_def
  by (intro keep_rules keeps_failH keeps_prod) (simp_all add: keeps_def status_kept html_kept dns_kept Let_def)

lemma keeps_huffH: "keeps P (huffH T buf off n m)"
  unfolding huffH_def Xdecode_huffman2_def
  by (intro keeps_bindH huff_loop_keeps h2_invariant_axioms) (simp add: keeps_def)

lemma keeps_string_start: "keeps P (string_start buf len off)"
  unfolding string_start_def
  by (intro keep_rules keeps_failH decode_int_keeps h2_invariant_axioms)

lemmas header_rules = keep_rules keeps_failH dyn_kept keeps_report keeps_huffH keeps_string_start
  decode_int_keeps h2_invariant_axioms

lemma keeps_literal: "keeps P (literal_name T buf len off)" "keeps P (literal_value T buf len off)"
  unfolding literal_name_def literal_value_def by (intro header_rules)+

lemma keeps_get_dyn: "keeps P (Xget_dyn v)"
proof (rule keepsI)
  fix env x env'
  show "P env \<Longrightarrow> Xget_dyn v env = Ok x env' \<Longrightarrow> P env'"
    by (auto simp: Xget_dyn_def Let_def failH_eq split: if_splits option.splits)
  show "P env \<Longrightarrow> Xget_dyn v env = Err env' \<Longrightarrow> P env'"
    by (auto simp: Xget_dyn_def Let_def failH_eq outbuf_irrelevant split: if_splits option.splits)
qed

lemma keeps_indexed_name: "keeps P (indexed_name v)"
  unfolding indexed_name_def by (intro header_rules keeps_get_dyn)

lemma keeps_decode_header: "keeps P (Xdecode_header2 T buf len)"
  unfolding Xdecode_header2_def decode_indexed_def decode_new_name_def decode_indexed_name_def
  by (intro header_rules keeps_get_dyn keeps_indexed_name keeps_literal)

lemma keeps_headers_loop: "keeps P (headers_loop T buf len hlen i)"
proof (induction T buf len hlen i rule: headers_loop.induct)
  case (1 T buf len hlen i)
  show ?case
    by (subst headers_loop.simps) (intro keep_rules keeps_decode_header 1)
qed

lemma keeps_receive_headers: "keeps P (Xreceive_headers2 T hdr len sid buf)"
  unfolding Xreceive_headers2_def by (intro header_rules keeps_headers_loop)

end

text \<open>With what the other frames do, it is an invariant of all but the window updates.\<close>

locale frame_invariant = header_invariant +
  assumes credits_kept: "P env \<Longrightarrow> P (env\<lparr>http2_send_global_credits := c, http2_send_stream1_credits := c'\<rparr>)"
    and data_kept: "P env \<Longrightarrow> P (add_data2 d env)"
    and finished_kept: "P env \<Longrightarrow> P (env\<lparr>finished := True\<rparr>)"
    and reset_kept: "P env \<Longrightarrow> P (env\<lparr>http2_input := [], http2_input_len := 0\<rparr>)"
begin

lemma keeps_credits: "keeps P (add_credits2 sid n)"
proof (rule keepsI)
  fix env x env'
  show "P env \<Longrightarrow> add_credits2 sid n env = Ok x env' \<Longrightarrow> P env'"
    by (auto simp: add_credits2_def Let_def credits_kept split: if_splits)
  show "P env \<Longrightarrow> add_credits2 sid n env = Err env' \<Longrightarrow> P env'"
    by (simp add: add_credits2_def Let_def split: if_splits)
qed

lemma keeps_receive_data: "keeps P (Xreceive_data2 hdr len sid buf)"
  unfolding Xreceive_data2_def by (intro header_rules keeps_credits data_kept)

lemma keeps_settings: "keeps P (settings_loop buf len i)"
proof (induction buf len i rule: settings_loop.induct)
  case (1 buf len i)
  show ?case by (subst settings_loop.simps) (intro keep_rules 1)
qed

lemma keeps_receive_others:
  "keeps P (Xreceive_rst_stream2 len sid buf)" "keeps P (Xreceive_settings2 hdr len sid buf)"
  "keeps P (Xreceive_ping2 len sid buf)" "keeps P (Xreceive_goaway2 len sid buf)"
  unfolding Xreceive_rst_stream2_def Xreceive_settings2_def Xreceive_ping2_def Xreceive_goaway2_def
  by (intro header_rules keeps_settings)+

lemma keeps_receive_frame:
  assumes "hdr_type hdr = HTTP2_HDR_TYPE_WINDOW_UPDATE \<Longrightarrow>
    keeps P (Xreceive_window_update2 (frame_length hdr) (frame_stream_id hdr) d)"
  shows "keeps P (receive_frame T hdr d)"
  unfolding receive_frame_def Let_def
  by (intro header_rules keeps_receive_data keeps_receive_headers keeps_receive_others assms)
    (auto simp: reset_kept finished_kept)

end


lemma add_dyn_updates:
  "add_dyn k v env = Ok x env' \<Longrightarrow>
     http2_connection_window env' = http2_connection_window env \<and>
     http2_stream1_window env' = http2_stream1_window env \<and>
     http2_input_len env' = http2_input_len env \<and>
     (http2_input_max env' = http2_input_max env \<or> 16 \<le> http2_input_max env')"
  "add_dyn k v env \<noteq> Err env''"
  by (auto simp: add_dyn_def Let_def split: if_splits)

text \<open>The believed size of the input is 0 before the first frame and has room for a frame header then.\<close>

definition framed :: "http2_env \<Rightarrow> bool" where
  "framed env \<longleftrightarrow> (if http2_input_max env = 0 then http2_input_len env = 0
     else sizeof_hdr \<le> http2_input_max env)"

interpretation framed: frame_invariant framed
proof unfold_locales
  show "keeps framed (add_dyn k v)" for k v
    by (rule keepsI) (auto simp: framed_def sizeof_hdr_def add_dyn_updates(2)
        dest!: add_dyn_updates(1) split: if_splits)
  show "framed env \<Longrightarrow> framed (add_data2 d env)" for env d
    by (simp add: add_data2_def framed_def Let_def)
qed (simp_all add: framed_def)

interpretation env_ok: frame_invariant env_ok
proof unfold_locales
  show "keeps env_ok (add_dyn k v)" for k v
    by (rule keepsI) (auto simp: add_dyn_def env_ok_defs Let_def split: if_splits)
  show "env_ok env \<Longrightarrow> env_ok (add_data2 d env)" for env d
    by (auto simp: add_data2_def env_ok_defs Let_def)
qed (simp_all add: env_ok_defs)

interpretation windows_ok: frame_invariant windows_ok
proof unfold_locales
  show "keeps windows_ok (add_dyn k v)" for k v
    by (rule keepsI) (auto simp: windows_ok_def add_dyn_updates(2) dest!: add_dyn_updates(1))
  show "windows_ok env \<Longrightarrow> windows_ok (add_data2 d env)" for env d
    by (simp add: add_data2_def windows_ok_def Let_def)
qed (simp_all add: windows_ok_def)

interpretation live: frame_invariant live
proof unfold_locales
  show "keeps live (add_dyn k v)" for k v
    by (rule keepsI) (auto simp: add_dyn_def live_def env_ok_defs Let_def split: if_splits)
  show "live env \<Longrightarrow> live (add_data2 d env)" for env d
    by (auto simp: add_data2_def live_def env_ok_defs Let_def)
qed (simp_all add: live_def env_ok_defs)

lemma window_update_keeps:
  assumes "h2_invariant P" "\<And>env w. P env \<Longrightarrow> P (env\<lparr>http2_connection_window := w\<rparr>)"
    "\<And>env w. P env \<Longrightarrow> P (env\<lparr>http2_stream1_window := w\<rparr>)"
  shows "keeps P (Xreceive_window_update2 len sid buf)"
  unfolding Xreceive_window_update2_def Let_def
  by (intro keep_rules h2_invariant.keeps_failH[OF assms(1)])
    (auto intro!: keepsI simp: failH_eq assms h2_invariant.outbuf_irrelevant[OF assms(1)]
      split: if_splits option.splits)

lemma window_sum:
  fixes w v :: u32
  assumes "w \<le> HTTP2_MAX_WINDOW" "v \<le> HTTP2_MAX_WINDOW"
  shows "unat (w + v) = unat w + unat v" "HTTP2_MAX_WINDOW < w + v \<longleftrightarrow> 2 ^ 31 - 1 < unat w + unat v"
proof -
  have "unat w \<le> 2 ^ 31 - 1" "unat v \<le> 2 ^ 31 - 1"
    using assms by (simp_all add: word_le_nat_alt HTTP2_MAX_WINDOW_def)
  then show "unat (w + v) = unat w + unat v" by (simp add: unat_word_ariths)
  then show "HTTP2_MAX_WINDOW < w + v \<longleftrightarrow> 2 ^ 31 - 1 < unat w + unat v"
    by (simp add: word_less_nat_alt HTTP2_MAX_WINDOW_def)
qed

lemma window_increment: "v AND NOT HTTP2_HDR_R \<le> HTTP2_MAX_WINDOW"
proof -
  let ?x = "v AND NOT HTTP2_HDR_R"
  have "\<not> bit ?x k" if "31 \<le> k" for k
    using bit_imp_le_length[of v k] that by (cases "k = 31") (auto simp: bit_and_iff bit_not_iff bit_HDR_R)
  then have "bit (take_bit 31 ?x) k = bit ?x k" for k
    unfolding bit_take_bit_iff using not_le by blast
  then have "take_bit 31 ?x = ?x" by (intro bit_word_eqI)
  then have "unat ?x < 2 ^ 31" by (metis unsigned_take_bit_eq take_bit_nat_less_exp)
  then show ?thesis by (simp add: word_le_nat_alt HTTP2_MAX_WINDOW_def)
qed




section \<open>Accesses of the receiving functions\<close>

lemma runs_update: "(\<And>env. live env \<Longrightarrow> live (f env)) \<Longrightarrow> runs A (\<lambda>env. Ok () (f env)) (\<lambda>_. True)"
  by (simp add: runs_def)

lemma runs_Err: "runs A (\<lambda>env. Err env) Q"
  by (simp add: runs_def)

definition receive_aborts :: "abort_reason set" where
  "receive_aborts = insert (Fatal ''add_credits2: should handle more streams'') decode_aborts"

lemma runs_headers_loop:
  assumes "i \<le> len" "len \<le> length buf"
  shows "runs decode_aborts (headers_loop T buf len len i) (\<lambda>_. True)"
  using assms
proof (induction "len - i" arbitrary: i rule: less_induct)
  case less
  show ?case
  proof (cases "i < len")
    case True
    have "runs decode_aborts (Xdecode_header2 T (drop i buf) (len - i)) (\<lambda>n. 1 \<le> n \<and> n \<le> len - i)"
      using True less.prems by (intro runs_decode_header) auto
    moreover have "runs decode_aborts (headers_loop T buf len len (i + n)) (\<lambda>_. True)"
      if "1 \<le> n \<and> n \<le> len - i" for n
      using that True less.prems by (intro less.hyps) auto
    ultimately show ?thesis
      using True by (subst headers_loop.simps) (auto simp: size_minus_def intro!: runs_bindH runs_Err)
  next
    case False
    then show ?thesis by (subst headers_loop.simps) (simp add: runs_retH)
  qed
qed

lemma runs_settings_loop:
  assumes "len - i = 6 * k" "len \<le> length buf"
  shows "runs A (settings_loop buf len i) (\<lambda>_. True)"
  using assms
proof (induction k arbitrary: i)
  case 0
  then show ?case by (subst settings_loop.simps) (simp add: runs_retH)
next
  case (Suc k)
  then have "i + 6 \<le> len" "len - (i + 6) = 6 * k" by auto
  then show ?case
    using Suc.prems(2) by (subst settings_loop.simps) (auto intro!: runs_bindH runs_copyH runs_retH Suc.IH)
qed

lemma runs_credits: "runs receive_aborts (add_credits2 sid n) (\<lambda>_. True)"
  by (auto simp: runs_def add_credits2_def Let_def live.credits_kept receive_aborts_def)

lemma bindH_retH [simp]: "bindH (retH x) f = f x"
  by (simp add: bindH_def retH_def)

lemma receive_data_plain:
  assumes "hdr_flags hdr AND HTTP2_HDR_DATA_PADDED = 0"
  shows "Xreceive_data2 hdr len sid buf =
    bindH (add_credits2 sid (of_nat len)) (\<lambda>_. bindH (copyH buf 0 len) (\<lambda>d env. Ok () (add_data2 d env)))"
  using assms by (simp add: Xreceive_data2_def)

lemma runs_receive_data:
  assumes "hdr_flags hdr AND HTTP2_HDR_DATA_PADDED = 0" "len \<le> length buf"
  shows "runs receive_aborts (Xreceive_data2 hdr len sid buf) (\<lambda>_. True)"
  unfolding receive_data_plain[OF assms(1)]
  by (intro runs_bindH[where Q = "\<lambda>_. True"] runs_credits runs_copyH runs_update live.data_kept)
    (use assms(2) in simp_all)

lemma runs_receive_headers:
  assumes "hdr_flags hdr AND HTTP2_HDR_HEADERS_PADDED = 0" "len \<le> length buf"
  shows "runs decode_aborts (Xreceive_headers2 T hdr len sid buf) (\<lambda>_. True)"
proof -
  have "Xreceive_headers2 T hdr len sid buf =
    (if sid = 0 then failH HTTP2_PROTOCOL_ERROR ''0 stream ID''
     else if sid \<noteq> 1 then failH HTTP2_PROTOCOL_ERROR ''stream not open''
     else let prio_offset = (if hdr_flags hdr AND HTTP2_HDR_HEADERS_PRIORITY \<noteq> 0 then 5 else 0) in
       if len < prio_offset then failH HTTP2_PROTOCOL_ERROR ''too much padding''
       else headers_loop T buf len len prio_offset)"
    using assms(1) by (simp add: Xreceive_headers2_def Let_def)
  then show ?thesis
    unfolding Let_def by (simp only:) (intro runs_if runs_failH runs_headers_loop assms(2) leI)
qed

lemma runs_receive_others:
  assumes "len \<le> length buf"
  shows "runs A (Xreceive_rst_stream2 len sid buf) (\<lambda>_. True)" "runs A (Xreceive_settings2 hdr len sid buf) (\<lambda>_. True)"
    "runs A (Xreceive_ping2 len sid buf) (\<lambda>_. True)" "runs A (Xreceive_goaway2 len sid buf) (\<lambda>_. True)"
proof -
  show "runs A (Xreceive_rst_stream2 len sid buf) (\<lambda>_. True)" "runs A (Xreceive_ping2 len sid buf) (\<lambda>_. True)"
    "runs A (Xreceive_goaway2 len sid buf) (\<lambda>_. True)"
    using assms unfolding Xreceive_rst_stream2_def Xreceive_ping2_def Xreceive_goaway2_def
    by (auto intro!: runs_failH runs_copyH runs_retH runs_bindH[where Q = "\<lambda>_. True"])
  show "runs A (Xreceive_settings2 hdr len sid buf) (\<lambda>_. True)"
    unfolding Xreceive_settings2_def
    by (intro runs_if runs_failH runs_bindH[OF runs_settings_loop[of len 0 "len div 6"]] runs_retH)
      (use assms in auto)
qed

lemma runs_window_update:
  assumes "len \<le> length buf"
  shows "runs A (Xreceive_window_update2 len sid buf) (\<lambda>_. True)"
proof (rule keeps_runs)
  show "keeps live (Xreceive_window_update2 len sid buf)"
    by (rule window_update_keeps[OF live.h2_invariant_axioms]) (simp_all add: live_def env_ok_defs)
  show "live env \<Longrightarrow> Xreceive_window_update2 len sid buf env = Crash r \<Longrightarrow> r \<in> A" for env r
    using assms by (auto simp: Xreceive_window_update2_def bindH_Crash_iff copyH_def retH_def failH_eq live_def Let_def
        split: if_splits option.splits)
qed simp

lemma runs_receive_frame:
  assumes d: "length d = frame_length hdr"
    and "hdr_type hdr = HTTP2_HDR_TYPE_DATA \<Longrightarrow> hdr_flags hdr AND HTTP2_HDR_DATA_PADDED = 0"
    and "hdr_type hdr = HTTP2_HDR_TYPE_HEADERS \<Longrightarrow> hdr_flags hdr AND HTTP2_HDR_HEADERS_PADDED = 0"
  shows "runs receive_aborts (receive_frame T hdr d) (\<lambda>_. True)"
proof -
  have h: "hdr_type hdr = HTTP2_HDR_TYPE_HEADERS \<Longrightarrow>
      runs receive_aborts (Xreceive_headers2 T hdr (frame_length hdr) sid d) (\<lambda>_. True)" for sid
    using assms(3) d
    by (intro runs_conseq[OF runs_receive_headers[of hdr "frame_length hdr" d T sid]]) (auto simp: receive_aborts_def)
  show ?thesis
    unfolding receive_frame_def Let_def
    by (intro runs_bindH[where Q = "\<lambda>_. True"] runs_if runs_failH runs_receive_data h runs_receive_others
        runs_window_update runs_update live.reset_kept)
      (use d assms(2) in \<open>auto simp: live.finished_kept\<close>)
qed


lemma decode_padding:
  assumes "buf ! 0 = 0" "buf \<noteq> []"
  shows "Xdecode_header2 T buf 0 env = failH HTTP2_COMPRESSION_ERROR ''out of space'' env"
proof -
  have "Xdecode_header2 T buf 0 env = decode_new_name T buf 0 env"
    using assms by (simp add: Xdecode_header2_def readH_def hpack_consts)
  then show ?thesis
    by (simp add: decode_new_name_def literal_name_def string_start_def bindH_def failH_eq split: option.splits)
qed

lemma padded_loop:
  assumes "i \<le> hlen" "hlen < len" "len \<le> length buf" "buf ! hlen = 0" "live env"
  shows "headers_loop T buf len hlen i env \<noteq> Ok x env'"
  using assms
proof (induction "hlen - i" arbitrary: i env rule: less_induct)
  case less
  show ?case
  proof (cases "i = hlen")
    case True
    then have "Xdecode_header2 T (drop i buf) (size_minus hlen i) env = failH HTTP2_COMPRESSION_ERROR ''out of space'' env"
      using less.prems by (simp add: size_minus_def decode_padding)
    then show ?thesis
      using True less.prems by (subst headers_loop.simps) (simp add: bindH_def failH_eq split: option.splits)
  next
    case False
    then have i: "i < hlen" "size_minus hlen i = hlen - i" using less.prems(1) by (simp_all add: size_minus_def)
    have "runs decode_aborts (Xdecode_header2 T (drop i buf) (hlen - i)) (\<lambda>n. 1 \<le> n \<and> n \<le> hlen - i)"
      using i less.prems by (intro runs_decode_header) auto
    note n = runsD(1)[OF this less.prems(5)]
    show ?thesis
    proof
      assume "headers_loop T buf len hlen i env = Ok x env'"
      then obtain n env1 where d: "Xdecode_header2 T (drop i buf) (hlen - i) env = Ok n env1"
          and l: "(if n = 0 then Err else headers_loop T buf len hlen (i + n)) env1 = Ok x env'"
        using i less.prems by (subst (asm) headers_loop.simps) (auto simp: bindH_Ok_iff)
      have n': "live env1" "1 \<le> n" "n \<le> hlen - i" using n[OF d] by auto
      then have "headers_loop T buf len hlen (i + n) env1 \<noteq> Ok x env'"
        using less.prems i by (intro less.hyps) auto
      with l n'(2) show False by simp
    qed
  qed
qed


section \<open>Properties of the frames\<close>



text \<open>
  C10: Receiving a complete frame that is not padded reads nothing outside the
  frame and writes nothing outside the client's blocks.  It returns, or ends
  the process for one of three reasons: data on another stream than 1, an
  HPACK integer of more than six bytes, the table index after \<open>0xfffffe\<close>.
\<close>

theorem receive_frame_inside:
  assumes "env_ok env" and "outbuf env \<noteq> None" and "length d = frame_length hdr"
    and "hdr_type hdr \<in> {HTTP2_HDR_TYPE_DATA, HTTP2_HDR_TYPE_HEADERS} \<Longrightarrow> hdr_flags hdr AND 0x08 = 0"
  shows "case receive_frame T hdr d env of
      Ok _ env' \<Rightarrow> env_ok env' \<and> outbuf env' \<noteq> None
    | Err env' \<Rightarrow> env_ok env' \<and> outbuf env' \<noteq> None
    | Crash r \<Rightarrow> r \<in> {Fatal ''add_credits2: should handle more streams'',
        Undefined ''shift beyond the width'', Undefined ''index outside huffman_decode_fffffe''}"
proof -
  have "runs receive_aborts (receive_frame T hdr d) (\<lambda>_. True)"
    using assms(3,4) by (intro runs_receive_frame) (auto simp: HTTP2_HDR_DATA_PADDED_def HTTP2_HDR_HEADERS_PADDED_def)
  then show ?thesis
    using assms(1,2) unfolding runs_def live_def receive_aborts_def decode_aborts_def
    by (auto split: h2.splits)
qed

theorem receive_frame_inside_witness:
  "\<forall>T. case receive_frame T (mk_hdr 1 HTTP2_HDR_TYPE_HEADERS 4 1) [0x88] (http2_init\<lparr>outbuf := Some []\<rparr>) of
      Ok _ env' \<Rightarrow> env_ok env' \<and> outbuf env' \<noteq> None
    | Err env' \<Rightarrow> env_ok env' \<and> outbuf env' \<noteq> None
    | Crash r \<Rightarrow> r \<in> {Fatal ''add_credits2: should handle more streams'',
        Undefined ''shift beyond the width'', Undefined ''index outside huffman_decode_fffffe''}"
proof -
  have "env_ok (http2_init\<lparr>outbuf := Some []\<rparr>)" "outbuf (http2_init\<lparr>outbuf := Some []\<rparr>) \<noteq> None"
    by (simp_all add: env_ok_defs http2_init_def)
  moreover have "length [0x88 :: u8] = frame_length (mk_hdr 1 HTTP2_HDR_TYPE_HEADERS 4 1)"
    by (simp add: frame_length_mk)
  moreover have "hdr_flags (mk_hdr 1 HTTP2_HDR_TYPE_HEADERS 4 1) AND 0x08 = 0" by simp
  ultimately show ?thesis using receive_frame_inside by blast
qed

text \<open>
  A DATA frame on stream 1 whose padding fits is accepted: its payload
  without the padding is appended to the data when the answer is a DNS message,
  and its whole length is credited to both windows.  Otherwise the state is
  left as it was and a protocol error reported.
\<close>

theorem Xreceive_data2_exact:
  fixes hdr :: http2_hdr
  defines "padded \<equiv> hdr_flags hdr AND HTTP2_HDR_DATA_PADDED \<noteq> 0"
  assumes "data_ok env" and "padded \<Longrightarrow> buf \<noteq> []"
  shows "if padded \<and> length buf \<le> unat (buf ! 0)
    then Xreceive_data2 hdr (length buf) 1 buf env = failH HTTP2_PROTOCOL_ERROR ''padding error'' env
    else \<exists>env'. Xreceive_data2 hdr (length buf) 1 buf env = Ok () env' \<and> data_ok env' \<and>
      http2_data env' = http2_data env @
        (if \<not> type_dns env then [] else if padded then take (length buf - 1 - unat (buf ! 0)) (tl buf) else buf) \<and>
      http2_send_global_credits env' = http2_send_global_credits env + of_nat (length buf) \<and>
      http2_send_stream1_credits env' = http2_send_stream1_credits env + of_nat (length buf)"
proof (cases padded)
  case True
  then have buf: "buf \<noteq> []" using assms(3) by blast
  show ?thesis
    using True buf assms(2)
    by (auto simp: Xreceive_data2_def padded_def readH_def copyH_def bindH_def retH_def failH_eq
        add_credits2_def add_data2_def Let_def data_ok_def drop_Suc split: option.splits)
next
  case False
  then show ?thesis
    using assms(2) unfolding padded_def
    by (auto simp: receive_data_plain bindH_def copyH_def retH_def add_credits2_def add_data2_def Let_def data_ok_def)
qed

theorem Xreceive_data2_exact_witness:
  "\<exists>env'. Xreceive_data2 (mk_hdr 4 0 0x09 1) (length [1, 7, 8, 0 :: u8]) 1 [1, 7, 8, 0] (http2_init\<lparr>type_dns := True\<rparr>) = Ok () env'
     \<and> http2_data env' = [7, 8]"
proof -
  have "data_ok (http2_init\<lparr>type_dns := True\<rparr>)" "[1, 7, 8, 0 :: u8] \<noteq> []"
    by (simp_all add: data_ok_def http2_init_def)
  from Xreceive_data2_exact[where hdr = "mk_hdr 4 0 0x09 1", OF this] show ?thesis
    by (auto simp: HTTP2_HDR_DATA_PADDED_def http2_init_def)
qed

text \<open>
  A HEADERS frame with at least one byte of padding is never accepted,
  although its padding consists of zeros as the protocol asks: the loop runs to
  the end of the frame instead of the end of the headers.
\<close>

theorem Xreceive_headers2_padded:
  assumes "env_ok env" and "outbuf env \<noteq> None"
    and "hdr_flags hdr AND HTTP2_HDR_HEADERS_PADDED \<noteq> 0"
    and "1 \<le> unat (buf ! 0)" and "drop (length buf - unat (buf ! 0)) buf = replicate (unat (buf ! 0)) 0"
  shows "Xreceive_headers2 T hdr (length buf) sid buf env \<noteq> Ok x env'"
proof
  let ?hlen = "length buf - unat (buf ! 0)"
  define i where "i = (1::nat) + (if hdr_flags hdr AND HTTP2_HDR_HEADERS_PRIORITY \<noteq> 0 then 5 else 0)"
  assume "Xreceive_headers2 T hdr (length buf) sid buf env = Ok x env'"
  then have i: "i + unat (buf ! 0) \<le> length buf" and l: "headers_loop T buf (length buf) ?hlen i env = Ok x env'"
    using assms(3) by (auto simp: Xreceive_headers2_def readH_def bindH_Ok_iff retH_def crashH_def Let_def i_def
        split: if_splits)
  have "buf ! ?hlen = 0"
    using arg_cong[OF assms(5), of "\<lambda>bs. bs ! 0"] assms(4) i by (simp add: nth_drop)
  moreover have "i \<le> ?hlen" "?hlen < length buf" using i assms(4) by linarith+
  moreover have "live env" using assms(1,2) by (simp add: live_def)
  ultimately show False using padded_loop[of i ?hlen "length buf" buf env T x env'] l by blast
qed

theorem Xreceive_headers2_padded_witness:
  "\<forall>T env'. Xreceive_headers2 T (mk_hdr 3 HTTP2_HDR_TYPE_HEADERS 0x0c 1) (length [1, 0x88, 0 :: u8]) 1
      [1, 0x88, 0] (http2_init\<lparr>outbuf := Some []\<rparr>) \<noteq> Ok () env'"
  by (intro allI Xreceive_headers2_padded)
    (simp_all add: env_ok_defs http2_init_def HTTP2_HDR_HEADERS_PADDED_def)

text \<open>
  A window update on stream 0 is accepted exactly when the increment is
  not 0 and the sum, computed without wrap-around, is at most \<open>0x7fffffff\<close>; the
  sum is stored either way.
\<close>

theorem Xreceive_window_update2_exact:
  fixes a b c d :: u8
  defines "v \<equiv> be32 a b c d AND NOT HTTP2_HDR_R"
  assumes "windows_ok env"
  shows "unat (http2_connection_window env + v) = unat (http2_connection_window env) + unat v \<and>
    Xreceive_window_update2 4 0 [a, b, c, d] env =
      (if v = 0 then failH HTTP2_PROTOCOL_ERROR ''zero increment'' env
       else if unat (http2_connection_window env) + unat v \<le> 2 ^ 31 - 1
       then Ok () (env\<lparr>http2_connection_window := http2_connection_window env + v\<rparr>)
       else failH HTTP2_FLOW_CONTROL_ERROR ''window overflow''
              (env\<lparr>http2_connection_window := http2_connection_window env + v\<rparr>))"
proof -
  have "http2_connection_window env \<le> HTTP2_MAX_WINDOW" "v \<le> HTTP2_MAX_WINDOW"
    using assms window_increment by (simp_all add: windows_ok_def)
  from window_sum[OF this] show ?thesis
    by (simp add: Xreceive_window_update2_def copyH_def v_def[symmetric] Let_def not_le)
qed

theorem Xreceive_window_update2_exact_witness:
  "Xreceive_window_update2 4 0 [0, 0, 0, 1] http2_init = Ok () (http2_init\<lparr>http2_connection_window := 65536\<rparr>)"
  using Xreceive_window_update2_exact[OF init_windows_ok, of 0 0 0 1]
  by (simp add: be32_def HTTP2_HDR_R_def http2_init_def HTTP2_DEFAULT_WINDOW_def)

end
