(* ===== verification/Http2_Input.thy ===== *)
theory Http2_Input
  imports Http2
begin

text \<open>
  The reader of the HTTP/2 client of \<^verbatim>\<open>eperd/http2.c\<close>, which collects a frame
  from the connection (\<open>Xhttp2_dns_input1\<close>), the loop over it
  (\<open>http2_dns_input\<close>), the request (\<open>http2_dns\<close>), and the callback of
  \<^verbatim>\<open>eperd/evtdig.c\<close> that takes the answer.  The lemmas show when collecting a
  frame stays inside the allocated input, that the loop ends, that the result
  does not depend on how the bytes arrive, and the form of the request.
\<close>


section \<open>Collecting a frame\<close>

text \<open>
  The callbacks with which a measurement records the bytes it receives, or
  replays recorded ones instead of reading the connection; \<open>'r\<close> is the state
  behind the pointer \<open>ref\<close>.
\<close>

record 'r response_cbs =
  write_response_cb :: "('r \<Rightarrow> bytes \<Rightarrow> 'r) option"
  read_response_cb :: "('r \<Rightarrow> nat \<Rightarrow> bytes \<times> 'r) option"

definition read_bytes :: "'r response_cbs \<Rightarrow> nat \<Rightarrow> bytes option \<Rightarrow> 'r \<Rightarrow> (bytes \<times> bytes option \<times> 'r) outcome" where
  "read_bytes cbs len inbuf ref =
     bindO (case read_response_cb cbs of
              Some f \<Rightarrow> (case f ref len of (d, ref') \<Rightarrow> Done (d, inbuf, ref'))
            | None \<Rightarrow> (case inbuf of
                None \<Rightarrow> Abort (Undefined ''evbuffer_remove on NULL'')
              | Some b \<Rightarrow> Done (take len b, Some (drop len b), ref)))
       (\<lambda>(d, inbuf', ref').
          Done (d, inbuf', case write_response_cb cbs of None \<Rightarrow> ref' | Some w \<Rightarrow> w ref' d))"

text \<open>
  Enlarge the input to \<open>needed\<close> bytes and read what is missing.  The space that
  is really there is \<open>http2_input_alloc\<close>.
\<close>

definition grow_input :: "nat \<Rightarrow> http2_env \<Rightarrow> http2_env" where
  "grow_input needed env =
     (if http2_input_max env < needed
      then env\<lparr>http2_input := take needed (http2_input env), http2_input_alloc := needed,
               http2_input_max := needed\<rparr>
      else env)"

definition fill_input :: "'r response_cbs \<Rightarrow> nat \<Rightarrow> http2_env \<Rightarrow> bytes option \<Rightarrow> 'r \<Rightarrow>
    (http2_env \<times> bytes option \<times> 'r) outcome" where
  "fill_input cbs needed env0 inbuf ref =
     (let env = grow_input needed env0 in
      if http2_input_len env < needed then
        bindO (read_bytes cbs (needed - http2_input_len env) inbuf ref) (\<lambda>(d, inbuf', ref').
          if http2_input_alloc env < http2_input_len env + length d
          then Abort (Undefined ''write past http2_input'')
          else Done (env\<lparr>http2_input := take (http2_input_len env) (http2_input env) @ d,
                         http2_input_len := http2_input_len env + length d\<rparr>, inbuf', ref'))
      else Done (env, inbuf, ref))"

definition Xhttp2_dns_input1 :: "huffman_tables \<Rightarrow> 'r response_cbs \<Rightarrow> http2_env \<Rightarrow> bytes option \<Rightarrow> 'r \<Rightarrow>
    (int \<times> http2_env \<times> bytes option \<times> 'r) outcome" where
  "Xhttp2_dns_input1 T cbs env inbuf ref =
     bindO (fill_input cbs sizeof_hdr env inbuf ref) (\<lambda>(env1, inbuf1, ref1).
       if http2_input_len env1 < sizeof_hdr then Done (0, env1, inbuf1, ref1)
       else let needed = sizeof_hdr + frame_length (hdr_of (http2_input env1)) in
         bindO (fill_input cbs needed env1 inbuf1 ref1) (\<lambda>(env2, inbuf2, ref2).
           if http2_input_len env2 < needed then Done (0, env2, inbuf2, ref2)
           else case receive_frame T (hdr_of (http2_input env2)) (drop sizeof_hdr (http2_input env2)) env2 of
                  Ok _ env3 \<Rightarrow> Done (0, env3, inbuf2, ref2)
                | Err env3 \<Rightarrow> Done (-1, env3, inbuf2, ref2)
                | Crash r \<Rightarrow> Abort r))"

text \<open>What \<open>reply_cb\<close> is given: the status, and the data (\<open>None\<close> for NULL).\<close>

type_synonym reply = "u32 option \<times> bytes option"

definition reply_of :: "http2_env \<Rightarrow> reply" where
  "reply_of env = (status env, if http2_data_max env = 0 then None else Some (http2_data env))"

text \<open>
  The loop of \<open>http2_dns_input\<close>.  Without a connection, when a recorded response
  is replayed, nothing bounds it, hence the partial function.
\<close>

partial_function (option) input_loop :: "huffman_tables \<Rightarrow> 'r response_cbs \<Rightarrow> http2_env \<Rightarrow> bytes option \<Rightarrow> 'r \<Rightarrow>
    (int \<times> reply option \<times> http2_env \<times> bytes option \<times> 'r) outcome option" where
  "input_loop T cbs env inbuf ref =
     (if inbuf = Some [] then Some (Done (1, None, env, inbuf, ref))
      else case Xhttp2_dns_input1 T cbs env inbuf ref of
        Fail \<Rightarrow> Some Fail
      | Abort r \<Rightarrow> Some (Abort r)
      | Done (r, env', inbuf', ref') \<Rightarrow>
          if r = -1 then Some (Done (-1, None, env', inbuf', ref'))
          else if finished env' then Some (Done (0, Some (reply_of env'), env', inbuf', ref'))
          else input_loop T cbs env' inbuf' ref')"

record bufferevent =
  bev_input :: bytes
  bev_output :: bytes

definition http2_dns_input :: "huffman_tables \<Rightarrow> 'r response_cbs \<Rightarrow> http2_env \<Rightarrow> bufferevent option \<Rightarrow> 'r \<Rightarrow>
    (int \<times> reply option \<times> http2_env \<times> bufferevent option \<times> 'r) outcome option" where
  "http2_dns_input T cbs env bev ref =
     (if finished env then Some (Done (-1, None, env, bev, ref))
      else case input_loop T cbs (env\<lparr>outbuf := map_option bev_output bev\<rparr>) (map_option bev_input bev) ref of
        None \<Rightarrow> None
      | Some res \<Rightarrow> Some (bindO res (\<lambda>(r, rep, env', inbuf', ref').
          Done (r, rep, env'\<lparr>outbuf := None\<rparr>,
            (case (inbuf', outbuf env') of
               (Some i, Some b) \<Rightarrow> Some \<lparr>bev_input = i, bev_output = b\<rparr>
             | _ \<Rightarrow> None), ref'))))"


section \<open>The request and the reply\<close>

definition send_request2 :: "http2_env \<Rightarrow> bytes \<Rightarrow> string \<Rightarrow> string \<Rightarrow> bytes \<Rightarrow> http2_env \<times> bytes" where
  "send_request2 env out hostname_port path d =
     (let out = evbuffer_add out (bytes_of (''PRI * HTTP/2.0'' @ [CHR 0x0D, CHR 0x0A, CHR 0x0D, CHR 0x0A]
                  @ ''SM'' @ [CHR 0x0D, CHR 0x0A, CHR 0x0D, CHR 0x0A]));
          out = send_settings2 out;
          str = take 19 (print_dec (length d));
          env = add_header2 env '':method'' ''POST'';
          env = add_header2 env '':scheme'' ''https'';
          env = add_header2 env '':authority'' hostname_port;
          env = add_header2 env '':path'' path;
          env = add_header2 env ''user-agent'' ''RIPE Atlas'';
          env = add_header2 env ''accept'' ''application/dns-message'';
          env = add_header2 env ''content-type'' ''application/dns-message'';
          env = add_header2 env ''content-length'' str;
          (env, out) = send_headers2 env out 1
      in (env, send_data2 out d 1))"

definition hostname_port :: "string \<Rightarrow> string \<Rightarrow> string" where
  "hostname_port hostname port =
     (if port = ''443'' then take 299 hostname else take 299 (hostname @ '':'' @ port))"

text \<open>The tables are a static variable, filled at the first call.\<close>

definition http2_dns :: "huffman_tables option \<Rightarrow> http2_env \<Rightarrow> bufferevent option \<Rightarrow> string \<Rightarrow> string \<Rightarrow> string \<Rightarrow>
    bytes \<Rightarrow> (huffman_tables \<times> http2_env \<times> bufferevent option) outcome" where
  "http2_dns tables env bev hostname port path req =
     bindO (case tables of None \<Rightarrow> init_huffman | Some T \<Rightarrow> Done T) (\<lambda>T.
       case bev of
         None \<Rightarrow> Done (T, env, None)
       | Some b \<Rightarrow>
           (case send_request2 env (bev_output b) (hostname_port hostname port) path req of
              (env', out) \<Rightarrow> Done (T, env', Some (b\<lparr>bev_output := out\<rparr>))))"

text \<open>
  \<open>http2_reply_cb\<close> of \<^verbatim>\<open>eperd/evtdig.c\<close>: what is printed for the answer.  The
  message identifier is the first field of the DNS header.
\<close>

datatype dns_result = Request_failed u32 | Answer bytes | Id_mismatch

definition http2_reply_cb :: "u16 \<Rightarrow> reply \<Rightarrow> dns_result outcome" where
  "http2_reply_cb qryid rep =
     (case rep of (st, d) \<Rightarrow>
        case st of None \<Rightarrow> Abort (Undefined ''status never assigned'')
        | Some st \<Rightarrow>
            if st \<noteq> 200 then Done (Request_failed st)
            else case d of None \<Rightarrow> Abort (Undefined ''NULL data'')
              | Some d \<Rightarrow>
                  if length d < 2 then Abort (Undefined ''identifier behind the data'')
                  else if be16 (d ! 0) (d ! 1) = qryid then Done (Answer d) else Done Id_mismatch)"



section \<open>Reading from the connection\<close>

text \<open>A measurement that neither records nor replays.\<close>

definition no_cbs :: "'r response_cbs" where
  "no_cbs = \<lparr>write_response_cb = None, read_response_cb = None\<rparr>"

definition absorb :: "bytes \<Rightarrow> http2_env \<Rightarrow> http2_env" where
  "absorb d env = env\<lparr>http2_input := http2_input env @ d, http2_input_len := http2_input_len env + length d\<rparr>"

lemma absorb_Nil [simp]: "absorb [] env = env"
  by (simp add: absorb_def)

lemma absorb_absorb [simp]: "absorb d' (absorb d env) = absorb (d @ d') env"
  by (simp add: absorb_def add.assoc)

lemma absorb_simps [simp]:
  "http2_input (absorb d env) = http2_input env @ d"
  "http2_input_len (absorb d env) = http2_input_len env + length d"
  "http2_input_max (absorb d env) = http2_input_max env"
  "http2_input_alloc (absorb d env) = http2_input_alloc env"
  "finished (absorb d env) = finished env"
  by (simp_all add: absorb_def)

lemma grow_input_simps [simp]:
  "http2_input_len (grow_input n env) = http2_input_len env"
  "http2_input_max (grow_input n env) = max n (http2_input_max env)"
  "finished (grow_input n env) = finished env"
  by (auto simp: grow_input_def)

lemma grow_input_keep: "n \<le> http2_input_max env \<Longrightarrow> grow_input n env = env"
  by (simp add: grow_input_def)

lemma grow_input_input:
  "(http2_input_max env < n \<Longrightarrow> length (http2_input env) \<le> n) \<Longrightarrow> http2_input (grow_input n env) = http2_input env"
  by (simp add: grow_input_def)

lemma grow_absorb:
  "length (http2_input env) + length d \<le> n \<Longrightarrow> grow_input n (absorb d env) = absorb d (grow_input n env)"
  by (simp add: grow_input_def absorb_def)

lemma fill_input_plain:
  assumes "length (http2_input env) = http2_input_len env" "http2_input_max env < n \<Longrightarrow> http2_input_len env \<le> n"
  shows "fill_input no_cbs n env (Some a) r =
    (let d = take (n - http2_input_len env) a in
     if http2_input_len env < n \<and> http2_input_alloc (grow_input n env) < http2_input_len env + length d
     then Abort (Undefined ''write past http2_input'')
     else Done (absorb d (grow_input n env), Some (drop (n - http2_input_len env) a), r))"
proof -
  have "http2_input (grow_input n env) = http2_input env"
    using assms by (intro grow_input_input) simp
  then show ?thesis
    using assms(1) by (auto simp: fill_input_def read_bytes_def no_cbs_def bindO_def absorb_def Let_def)
qed

text \<open>The number of bytes the reader waits for, once it has the bytes \<open>s\<close> of a frame.\<close>

definition next_size :: "bytes \<Rightarrow> nat" where
  "next_size s = (if length s < sizeof_hdr then sizeof_hdr else sizeof_hdr + frame_length (hdr_of s))"

lemma hdr_of_append: "sizeof_hdr \<le> length s \<Longrightarrow> hdr_of (s @ t) = hdr_of s"
  by (simp add: hdr_of_def sizeof_hdr_def nth_append)

lemma next_size_append: "sizeof_hdr \<le> length s \<Longrightarrow> next_size (s @ t) = next_size s"
  by (simp add: next_size_def hdr_of_append)

lemma next_size_ge: "sizeof_hdr \<le> next_size s"
  by (simp add: next_size_def)

text \<open>The state between two calls: part of a frame, never a whole one, with room for the rest.\<close>

definition waiting :: "http2_env \<Rightarrow> bool" where
  "waiting env \<longleftrightarrow> framed env \<and> length (http2_input env) = http2_input_len env \<and>
     http2_input_len env < next_size (http2_input env) \<and>
     (sizeof_hdr \<le> http2_input_len env \<longrightarrow> next_size (http2_input env) \<le> http2_input_max env)"

text \<open>The input block enlarged for a frame of which the bytes \<open>s\<close> are known.\<close>

definition grown :: "http2_env \<Rightarrow> bytes \<Rightarrow> http2_env" where
  "grown env s = (if length s < sizeof_hdr then grow_input sizeof_hdr env
     else grow_input (next_size s) (grow_input sizeof_hdr env))"

definition overflow :: "http2_env \<Rightarrow> bytes \<Rightarrow> bool" where
  "overflow env s \<longleftrightarrow>
     http2_input_len env < sizeof_hdr \<and>
       http2_input_alloc (grow_input sizeof_hdr env) < min sizeof_hdr (length s) \<or>
     sizeof_hdr \<le> length s \<and> max sizeof_hdr (http2_input_len env) < next_size s \<and>
       http2_input_alloc (grown env s) < min (next_size s) (length s)"

lemma waiting_facts:
  assumes "waiting env"
  shows "length (http2_input env) = http2_input_len env"
    "http2_input_max env < sizeof_hdr \<Longrightarrow> http2_input_len env = 0"
    "sizeof_hdr \<le> http2_input_len env \<Longrightarrow> next_size (http2_input env @ a) = next_size (http2_input env)"
    "sizeof_hdr \<le> length (http2_input env @ a) \<Longrightarrow> http2_input_len env < next_size (http2_input env @ a)"
proof -
  show l: "length (http2_input env) = http2_input_len env" using assms by (simp add: waiting_def)
  show "http2_input_max env < sizeof_hdr \<Longrightarrow> http2_input_len env = 0"
    using assms by (auto simp: waiting_def framed_def sizeof_hdr_def split: if_splits)
  show n: "sizeof_hdr \<le> http2_input_len env \<Longrightarrow> next_size (http2_input env @ a) = next_size (http2_input env)"
    using l by (simp add: next_size_append)
  show "sizeof_hdr \<le> length (http2_input env @ a) \<Longrightarrow> http2_input_len env < next_size (http2_input env @ a)"
    using assms n next_size_ge[of "http2_input env @ a"] unfolding waiting_def
    by (cases "sizeof_hdr \<le> http2_input_len env") auto
qed


lemma input1_header:
  assumes w: "waiting env" and s: "length (http2_input env @ a) < sizeof_hdr"
  shows "Xhttp2_dns_input1 T no_cbs env (Some a) r =
    (if overflow env (http2_input env @ a) then Abort (Undefined ''write past http2_input'')
     else Done (0, absorb a (grown env (http2_input env @ a)), Some [], r))"
proof -
  note l = waiting_facts(1)[OF w]
  have "fill_input no_cbs sizeof_hdr env (Some a) r =
    (if http2_input_alloc (grow_input sizeof_hdr env) < http2_input_len env + length a
     then Abort (Undefined ''write past http2_input'')
     else Done (absorb a (grow_input sizeof_hdr env), Some [], r))"
    using s l by (subst fill_input_plain) auto
  then show ?thesis
    using s l by (simp add: Xhttp2_dns_input1_def bindO_def overflow_def grown_def)
qed

lemma take_split: "k \<le> m \<Longrightarrow> m \<le> n \<Longrightarrow> take (m - k) a @ take (n - m) (drop (m - k) a) = take (n - k) a"
  by (metis Nat.add_diff_assoc2 add_diff_inverse_nat diff_le_mono le_add_diff_inverse not_less take_add)

lemma fill_header:
  assumes w: "waiting env" and s: "sizeof_hdr \<le> length (http2_input env @ a)"
  defines "k \<equiv> http2_input_len env" and "e \<equiv> grow_input sizeof_hdr env"
  shows "fill_input no_cbs sizeof_hdr env (Some a) r =
    (if k < sizeof_hdr \<and> http2_input_alloc e < sizeof_hdr then Abort (Undefined ''write past http2_input'')
     else Done (absorb (take (sizeof_hdr - k) a) e, Some (drop (sizeof_hdr - k) a), r))"
    "k + length (take (sizeof_hdr - k) a) = max sizeof_hdr k"
    "http2_input e = http2_input env"
proof -
  note l = waiting_facts[OF w]
  show d1: "k + length (take (sizeof_hdr - k) a) = max sizeof_hdr k" using s l(1) by (auto simp: k_def)
  show "http2_input e = http2_input env" unfolding e_def using l(1,2) by (intro grow_input_input) auto
  show "fill_input no_cbs sizeof_hdr env (Some a) r =
    (if k < sizeof_hdr \<and> http2_input_alloc e < sizeof_hdr then Abort (Undefined ''write past http2_input'')
     else Done (absorb (take (sizeof_hdr - k) a) e, Some (drop (sizeof_hdr - k) a), r))"
    using l(1,2) d1 by (subst fill_input_plain) (auto simp: k_def e_def Let_def max_def)
qed

lemma fill_payload:
  assumes w: "waiting env" and s: "sizeof_hdr \<le> length (http2_input env @ a)"
  defines "s \<equiv> http2_input env @ a"
  defines "n \<equiv> next_size s" and "k \<equiv> http2_input_len env"
  shows "fill_input no_cbs n (absorb (take (sizeof_hdr - k) a) (grow_input sizeof_hdr env)) (Some (drop (sizeof_hdr - k) a)) r =
    (if max sizeof_hdr k < n \<and> http2_input_alloc (grown env s) < min n (length s)
     then Abort (Undefined ''write past http2_input'')
     else Done (absorb (take (n - k) a) (grown env s), Some (drop (n - k) a), r))"
proof -
  let ?m = "max sizeof_hdr k" and ?e = "grow_input sizeof_hdr env"
  let ?d1 = "take (sizeof_hdr - k) a" and ?a1 = "drop (sizeof_hdr - k) a"
  note l = waiting_facts(1)[OF w] and f = fill_header(2,3)[OF w s, folded k_def]
  have kn: "k < n" "sizeof_hdr \<le> n" using waiting_facts(4)[OF w] s next_size_ge by (auto simp: s_def n_def k_def)
  have d2: "?m + length (take (n - ?m) ?a1) = min n (length s)" "?d1 @ take (n - ?m) ?a1 = take (n - k) a"
      "drop (n - ?m) ?a1 = drop (n - k) a"
    using kn l s take_split[of k ?m n a] by (auto simp: s_def k_def max_def min_def)
  have gr: "grow_input n (absorb ?d1 ?e) = absorb ?d1 (grown env s)"
    using s kn l f by (subst grow_absorb) (auto simp: grown_def s_def n_def k_def)
  have ml: "http2_input_len (absorb ?d1 ?e) = ?m" using f(1) by (simp add: k_def)
  have "length (http2_input (absorb ?d1 ?e)) = http2_input_len (absorb ?d1 ?e)" by (simp add: f(2) l)
  moreover have "http2_input_len (absorb ?d1 ?e) \<le> n" unfolding ml using kn by simp
  ultimately show ?thesis
    by (subst fill_input_plain) (simp_all only: ml gr Let_def absorb_simps(4) absorb_absorb d2)
qed

lemma filled_input:
  assumes w: "waiting env" and s: "sizeof_hdr \<le> length (http2_input env @ a)"
  defines "s \<equiv> http2_input env @ a"
  defines "n \<equiv> next_size s" and "k \<equiv> http2_input_len env"
  shows "http2_input (absorb (take (n - k) a) (grown env s)) = take n s"
    "http2_input_len (absorb (take (n - k) a) (grown env s)) = min n (length s)"
    "hdr_of (take n s) = hdr_of s" "length s < n \<Longrightarrow> take (n - k) a = a \<and> drop (n - k) a = []"
proof -
  note l = waiting_facts(1)[OF w] and f = fill_header(3)[OF w s]
  have kn: "k < n" "sizeof_hdr \<le> n" using waiting_facts(4)[OF w] s next_size_ge by (auto simp: s_def n_def k_def)
  have "http2_input (grown env s) = http2_input env"
    using s l kn f unfolding grown_def s_def[symmetric] n_def[symmetric]
    by (auto simp: s_def k_def intro!: trans[OF grow_input_input])
  then show "http2_input (absorb (take (n - k) a) (grown env s)) = take n s"
    using l kn by (simp add: s_def k_def)
  show "http2_input_len (absorb (take (n - k) a) (grown env s)) = min n (length s)"
    using l kn by (auto simp: k_def s_def grown_def)
  show "hdr_of (take n s) = hdr_of s"
    using hdr_of_append[of "take n s" "drop n s"] kn s[folded s_def] by simp
  show "length s < n \<Longrightarrow> take (n - k) a = a \<and> drop (n - k) a = []" using l by (auto simp: s_def k_def)
qed

lemma input1_frame:
  assumes w: "waiting env" and s: "sizeof_hdr \<le> length (http2_input env @ a)"
  defines "s \<equiv> http2_input env @ a"
  defines "n \<equiv> next_size s" and "k \<equiv> http2_input_len env"
  shows "Xhttp2_dns_input1 T no_cbs env (Some a) r =
    (if overflow env s then Abort (Undefined ''write past http2_input'')
     else if length s < n then Done (0, absorb a (grown env s), Some [], r)
     else case receive_frame T (hdr_of s) (drop sizeof_hdr (take n s)) (absorb (take (n - k) a) (grown env s)) of
            Ok _ env3 \<Rightarrow> Done (0, env3, Some (drop (n - k) a), r)
          | Err env3 \<Rightarrow> Done (-1, env3, Some (drop (n - k) a), r)
          | Crash x \<Rightarrow> Abort x)"
proof -
  define E1 E where "E1 = absorb (take (sizeof_hdr - k) a) (grow_input sizeof_hdr env)"
    and "E = absorb (take (n - k) a) (grown env s)"
  note f1 = fill_header[OF w s, folded k_def] and f2 = fill_payload[OF w s, folded k_def s_def n_def]
    and f = filled_input[OF w s, folded k_def s_def n_def]
  have ov: "overflow env s \<longleftrightarrow> k < sizeof_hdr \<and> http2_input_alloc (grow_input sizeof_hdr env) < sizeof_hdr \<or>
      max sizeof_hdr k < n \<and> http2_input_alloc (grown env s) < min n (length s)"
    using s unfolding overflow_def s_def[symmetric] n_def[symmetric] k_def[symmetric] by (simp add: s_def min_def)
  have "hdr_of (http2_input env @ take (sizeof_hdr - k) a) = hdr_of s"
    using hdr_of_append[of "http2_input env @ take (sizeof_hdr - k) a" "drop (sizeof_hdr - k) a"]
      waiting_facts(1)[OF w] f1(2) by (simp add: s_def k_def)
  then have "sizeof_hdr + frame_length (hdr_of (http2_input E1)) = n" "http2_input_len E1 = max sizeof_hdr k"
    using s f1(2,3) by (simp_all add: n_def next_size_def s_def E1_def k_def)
  moreover have "length s < n \<Longrightarrow> absorb a (grown env s) = E" using f(4) by (simp add: E_def)
  ultimately show ?thesis
    unfolding Xhttp2_dns_input1_def f1(1) ov
    using f2[of r] f unfolding E1_def[symmetric] E_def[symmetric] by (simp add: bindO_def Let_def)
qed

text \<open>What one call of the reader does, from a state that waits for part of a frame.\<close>

lemma input1_eq:
  fixes a :: bytes
  assumes w: "waiting env"
  defines "s \<equiv> http2_input env @ a"
  defines "n \<equiv> next_size s" and "k \<equiv> http2_input_len env"
  shows "Xhttp2_dns_input1 T no_cbs env (Some a) r =
    (if overflow env s then Abort (Undefined ''write past http2_input'')
     else if length s < n then Done (0, absorb a (grown env s), Some [], r)
     else case receive_frame T (hdr_of s) (drop sizeof_hdr (take n s)) (absorb (take (n - k) a) (grown env s)) of
            Ok _ env3 \<Rightarrow> Done (0, env3, Some (drop (n - k) a), r)
          | Err env3 \<Rightarrow> Done (-1, env3, Some (drop (n - k) a), r)
          | Crash x \<Rightarrow> Abort x)"
proof (cases "length s < sizeof_hdr")
  case True
  then have "length s < n" by (simp add: n_def next_size_def)
  then show ?thesis using input1_header[OF w, of a T r] True unfolding s_def by simp
next
  case False
  then show ?thesis using input1_frame[OF w, of a T r] unfolding s_def n_def k_def by simp
qed

lemma grown_facts:
  assumes "waiting env"
  shows "http2_input (grown env (http2_input env @ a)) = http2_input env"
    "http2_input_len (grown env s) = http2_input_len env"
    "sizeof_hdr \<le> http2_input_max (grown env s)"
    "sizeof_hdr \<le> length s \<Longrightarrow> next_size s \<le> http2_input_max (grown env s)"
    "finished (grown env s) = finished env"
proof -
  note l = waiting_facts[OF assms]
  have e: "http2_input (grow_input sizeof_hdr env) = http2_input env"
    using l by (intro grow_input_input) auto
  have "http2_input (grow_input (next_size (http2_input env @ a)) (grow_input sizeof_hdr env)) = http2_input env"
    if "sizeof_hdr \<le> length (http2_input env @ a)"
    using l(4)[OF that] l(1) e by (subst grow_input_input) auto
  then show "http2_input (grown env (http2_input env @ a)) = http2_input env" using e by (simp add: grown_def)
qed (auto simp: grown_def)

lemma framedI: "sizeof_hdr \<le> http2_input_max env \<Longrightarrow> framed env"
  by (simp add: framed_def sizeof_hdr_def)

lemma waiting_absorb:
  assumes "waiting env" "length (http2_input env @ a) < next_size (http2_input env @ a)"
  shows "waiting (absorb a (grown env (http2_input env @ a)))"
  using assms(2) waiting_facts(1)[OF assms(1)] grown_facts(1,2)[OF assms(1), of a]
    grown_facts(2,3,4)[OF assms(1), of "http2_input env @ a"]
  unfolding waiting_def by (simp add: framedI)

lemma env_ok_grow: "env_ok env \<Longrightarrow> (http2_input_max env < n \<Longrightarrow> http2_input_len env \<le> n) \<Longrightarrow> env_ok (grow_input n env)"
  by (simp add: env_ok_defs grow_input_def)

lemma env_ok_absorb:
  assumes w: "waiting env" and ok: "env_ok env" and ov: "\<not> overflow env (http2_input env @ a)"
    and b: "b = take (next_size (http2_input env @ a) - http2_input_len env) a"
  shows "env_ok (absorb b (grown env (http2_input env @ a)))"
proof -
  let ?s = "http2_input env @ a"
  note l = waiting_facts[OF w]
  have e: "env_ok (grow_input sizeof_hdr env)"
    using ok l(2) by (intro env_ok_grow) simp_all
  have g: "env_ok (grown env ?s)"
    using e l(4)[of a] by (auto simp: grown_def intro!: env_ok_grow)
  have "http2_input_len env + length b \<le> http2_input_alloc (grown env ?s)"
  proof (cases "length b = 0")
    case True
    then show ?thesis using g grown_facts(2)[OF w, of ?s] by (simp add: env_ok_def input_ok_def)
  next
    case False
    have len: "http2_input_len env + length b = min (next_size ?s) (length ?s)"
      using l(1) l(4)[of a] next_size_ge[of ?s] unfolding b by (cases "sizeof_hdr \<le> length ?s") (auto simp: next_size_def)
    show ?thesis
    proof (cases "length ?s < sizeof_hdr")
      case True
      then show ?thesis
        using ov len l(1) by (simp add: overflow_def grown_def next_size_def)
    next
      case False
      show ?thesis
      proof (cases "max sizeof_hdr (http2_input_len env) < next_size ?s")
        case True
        then show ?thesis using ov False len unfolding overflow_def by linarith
      next
        case nz: False
        then have n: "next_size ?s = sizeof_hdr" "http2_input_len env < sizeof_hdr"
          using l(4)[of a] next_size_ge[of ?s] False by auto
        then have "grown env ?s = grow_input sizeof_hdr env"
          using False by (simp add: grown_def grow_input_keep)
        then show ?thesis using ov n False len by (simp add: overflow_def)
      qed
    qed
  qed
  then show ?thesis using g by (simp add: env_ok_defs absorb_def grown_facts(2)[OF w])
qed

lemma live_absorb:
  assumes "waiting env" "live env" "\<not> overflow env (http2_input env @ a)"
  shows "live (absorb (take (next_size (http2_input env @ a) - http2_input_len env) a) (grown env (http2_input env @ a)))"
  using assms env_ok_absorb[OF assms(1) _ assms(3) refl]
  by (simp add: live_def absorb_def grown_def grow_input_def)

lemma receive_frame_reset:
  "receive_frame T hdr d env = Ok x env' \<Longrightarrow> http2_input env' = [] \<and> http2_input_len env' = 0"
  by (auto simp: receive_frame_def Let_def bindH_Ok_iff)

lemma waiting_empty: "framed env \<Longrightarrow> http2_input env = [] \<Longrightarrow> http2_input_len env = 0 \<Longrightarrow> waiting env"
  by (simp add: waiting_def next_size_def sizeof_hdr_def)

lemma receive_frame_keeps:
  "keeps live (receive_frame T hdr d)" "keeps framed (receive_frame T hdr d)"
  by (intro live.keeps_receive_frame framed.keeps_receive_frame window_update_keeps
      live.h2_invariant_axioms framed.h2_invariant_axioms, simp_all add: live_def env_ok_defs framed_def)+


lemma input1_Done:
  assumes w: "waiting env" and ok: "live env" and a: "a \<noteq> []"
    and d: "Xhttp2_dns_input1 T no_cbs env (Some a) r = Done (res, env', inb, r')"
  obtains rest where "inb = Some rest" "length rest < length a" "r' = r" "live env'" "res = 0 \<and> waiting env' \<or> res = -1"
proof -
  let ?s = "http2_input env @ a"
  let ?e = "absorb (take (next_size ?s - http2_input_len env) a) (grown env ?s)"
  note d = d[unfolded input1_eq[OF w]]
  then have ov: "\<not> overflow env ?s" by (auto split: if_splits)
  show ?thesis
  proof (cases "length ?s < next_size ?s")
    case True
    then have "take (next_size ?s - http2_input_len env) a = a" using waiting_facts(1)[OF w] by auto
    then show ?thesis
      using d ov True a live_absorb[OF w ok ov] waiting_absorb[OF w True] by (intro that[of "[]"]) auto
  next
    case False
    then have s: "sizeof_hdr \<le> length ?s" using next_size_ge[of ?s] by simp
    have rest: "length (drop (next_size ?s - http2_input_len env) a) < length a"
      using waiting_facts(4)[OF w s] a unfolding length_drop length_greater_0_conv[symmetric] by linarith
    have fr: "framed ?e" using grown_facts(3)[OF w] by (simp add: framedI)
    note k = keepsD[OF receive_frame_keeps(1) live_absorb[OF w ok ov]] keepsD(1)[OF receive_frame_keeps(2) fr]
    from d ov False k receive_frame_reset rest show ?thesis
      by (auto simp: waiting_empty split: h2.splits if_splits intro!: that)
  qed
qed

lemma input1_not_Fail: "waiting env \<Longrightarrow> Xhttp2_dns_input1 T no_cbs env (Some a) r \<noteq> Fail"
  by (simp add: input1_eq split: h2.split)

lemma next_size_more:
  "length s < next_size s \<Longrightarrow> length s < next_size (s @ b)"
  by (cases "sizeof_hdr \<le> length s") (use next_size_ge[of "s @ b"] in \<open>auto simp: next_size_append\<close>)

lemma partial_frame:
  assumes w: "waiting env" and n: "length (http2_input env @ a) < next_size (http2_input env @ a)"
    and ov: "\<not> overflow env (http2_input env @ a)"
  defines "e \<equiv> absorb a (grown env (http2_input env @ a))"
  shows "grown e (http2_input env @ a @ b) = absorb a (grown env (http2_input env @ a @ b))"
    "overflow e (http2_input env @ a @ b) = overflow env (http2_input env @ a @ b)"
proof -
  let ?s = "http2_input env @ a" and ?t = "http2_input env @ a @ b"
  note l = waiting_facts(1)[OF w] and g = grown_facts[OF w]
  have k: "grow_input sizeof_hdr e = e" using g(3) by (intro grow_input_keep) (simp add: e_def)
  have len: "http2_input_len e = length ?s" using l g(2) by (simp add: e_def)
  have in9: "http2_input (grow_input sizeof_hdr env) = http2_input env" using g(1)[of "[]"] waiting_facts[OF w]
    by (intro grow_input_input) auto
  show gr: "grown e ?t = absorb a (grown env ?t)"
  proof (cases "length ?s < sizeof_hdr")
    case True
    then show ?thesis
      using in9 k next_size_ge[of ?t] l unfolding grown_def k
      by (auto simp: e_def grown_def intro: grow_absorb)
  next
    case False
    then have "next_size ?t = next_size ?s" using next_size_append[of ?s b] by simp
    moreover have "next_size ?s \<le> http2_input_max e" using g(4) False by (simp add: e_def)
    ultimately show ?thesis using False k by (simp add: grown_def grow_input_keep e_def)
  qed
  show "overflow e ?t = overflow env ?t"
  proof (cases "length ?s < sizeof_hdr")
    case True
    then have "http2_input_alloc e = http2_input_alloc (grow_input sizeof_hdr env)" by (simp add: e_def grown_def)
    then show ?thesis using True l len k gr by (simp add: overflow_def)
  next
    case False
    then have t: "next_size ?t = next_size ?s" using next_size_append[of ?s b] by simp
    have "\<not> (http2_input_len env < sizeof_hdr \<and> http2_input_alloc (grow_input sizeof_hdr env) < sizeof_hdr)"
      using ov False by (auto simp: overflow_def)
    then show ?thesis using False n l len gr t by (auto simp: overflow_def)
  qed
qed


lemma input1_partial:
  assumes w: "waiting env" and n: "length (http2_input env @ a) < next_size (http2_input env @ a)"
    and ov: "\<not> overflow env (http2_input env @ a)"
  shows "Xhttp2_dns_input1 T no_cbs env (Some (a @ b)) r =
    Xhttp2_dns_input1 T no_cbs (absorb a (grown env (http2_input env @ a))) (Some b) r"
proof -
  let ?e = "absorb a (grown env (http2_input env @ a))" and ?t = "http2_input env @ a @ b"
  have w': "waiting ?e" by (rule waiting_absorb[OF w n])
  have e: "http2_input ?e @ b = ?t" "http2_input_len ?e = length (http2_input env @ a)"
    using grown_facts(1,2)[OF w] waiting_facts(1)[OF w] by simp_all
  have len: "length (http2_input env @ a) < next_size ?t" using next_size_more[OF n, of b] by simp
  have tk: "take (next_size ?t - http2_input_len env) (a @ b) = a @ take (next_size ?t - http2_input_len ?e) b"
      "drop (next_size ?t - http2_input_len env) (a @ b) = drop (next_size ?t - http2_input_len ?e) b"
    using len e(2) waiting_facts(1)[OF w] by auto
  show ?thesis
    unfolding input1_eq[OF w] input1_eq[OF w'] e(1) partial_frame[OF w n ov] tk by simp
qed

lemma input1_whole:
  assumes w: "waiting env" and n: "next_size (http2_input env @ a) \<le> length (http2_input env @ a)"
  shows "Xhttp2_dns_input1 T no_cbs env (Some (a @ b)) r =
    bindO (Xhttp2_dns_input1 T no_cbs env (Some a) r)
      (\<lambda>(res, env', inb, r'). Done (res, env', map_option (\<lambda>x. x @ b) inb, r'))"
proof -
  let ?s = "http2_input env @ a" and ?t = "http2_input env @ a @ b"
  have s: "sizeof_hdr \<le> length ?s" using n next_size_ge[of ?s] by simp
  have t: "next_size ?t = next_size ?s" "hdr_of ?t = hdr_of ?s"
    using next_size_append[OF s, of b] hdr_of_append[OF s, of b] by simp_all
  have g: "grown env ?t = grown env ?s" using s t by (simp add: grown_def)
  have ov: "overflow env ?t = overflow env ?s" using s n t g by (simp add: overflow_def)
  have tk: "take (next_size ?s) ?t = take (next_size ?s) ?s"
      "take (next_size ?s - http2_input_len env) (a @ b) = take (next_size ?s - http2_input_len env) a"
      "drop (next_size ?s - http2_input_len env) (a @ b) = drop (next_size ?s - http2_input_len env) a @ b"
    using n waiting_facts(1)[OF w] by simp_all
  have f: "\<not> length ?s < next_size ?s" "\<not> length ?t < next_size ?s" using n by simp_all
  show ?thesis
    unfolding input1_eq[OF w] t g ov tk using f by (simp add: bindO_def split: h2.split)
qed


section \<open>The loop\<close>

lemma loop_empty: "input_loop T cbs env (Some []) r = Some (Done (1, None, env, Some [], r))"
  by (subst input_loop.simps) simp

lemma loop_step:
  assumes "a \<noteq> []" "Xhttp2_dns_input1 T cbs env (Some a) r = Done (res, env', inb, r')"
  shows "input_loop T cbs env (Some a) r =
    (if res = -1 then Some (Done (-1, None, env', inb, r'))
     else if finished env' then Some (Done (0, Some (reply_of env'), env', inb, r'))
     else input_loop T cbs env' inb r')"
  using assms by (subst input_loop.simps) simp

lemma loop_abort:
  assumes "a \<noteq> []" "Xhttp2_dns_input1 T cbs env (Some a) r = Abort x"
  shows "input_loop T cbs env (Some a) r = Some (Abort x)"
  using assms by (subst input_loop.simps) simp

definition loop_result_ok :: "(int \<times> reply option \<times> http2_env \<times> bytes option \<times> 'r) outcome \<Rightarrow> bool" where
  "loop_result_ok res = (case res of
      Done (x, rep, env, inb, r) \<Rightarrow> live env \<and> inb \<noteq> None \<and> x \<in> {-1, 0, 1} \<and>
        (x = 1 \<longrightarrow> waiting env \<and> \<not> finished env \<and> inb = Some []) \<and> (x = 0 \<longrightarrow> rep = Some (reply_of env))
    | Fail \<Rightarrow> False | Abort r \<Rightarrow> True)"

lemma loop_returns:
  assumes "waiting env" "live env" "\<not> finished env"
  shows "\<exists>res. input_loop T no_cbs env (Some a) r = Some res \<and> loop_result_ok res"
  using assms
proof (induction "length a" arbitrary: a env rule: less_induct)
  case less
  show ?case
  proof (cases "a = []")
    case True
    then show ?thesis using less.prems by (simp add: loop_empty loop_result_ok_def)
  next
    case a: False
    show ?thesis
    proof (cases "Xhttp2_dns_input1 T no_cbs env (Some a) r")
      case (Done p)
      obtain x env' inb r' where p: "p = (x, env', inb, r')" by (cases p)
      from input1_Done[OF less.prems(1,2) a Done[unfolded p]] obtain rest where
        d: "inb = Some rest" "length rest < length a" "r' = r" "live env'" "x = 0 \<and> waiting env' \<or> x = -1" .
      then show ?thesis
        using less.hyps[OF d(2), of env'] unfolding loop_step[OF a Done[unfolded p]]
        by (auto simp: loop_result_ok_def)
    next
      case Fail
      then show ?thesis using input1_not_Fail[OF less.prems(1), of T a r] by blast
    next
      case (Abort x)
      then show ?thesis using loop_abort[OF a Abort] by (simp add: loop_result_ok_def)
    qed
  qed
qed

lemma input_loop_chunks:
  assumes "waiting env" "live env" "input_loop T no_cbs env (Some a) r = Some (Done (1, rep, env1, inb, r1))"
  shows "input_loop T no_cbs env (Some (a @ b)) r = input_loop T no_cbs env1 (Some b) r"
  using assms
proof (induction "length a" arbitrary: a env rule: less_induct)
  case less
  note w = less.prems(1)
  show ?case
  proof (cases "a = []")
    case True
    then show ?thesis using less.prems(3) by (simp add: loop_empty)
  next
    case a: False
    obtain x env' inb' r' where d: "Xhttp2_dns_input1 T no_cbs env (Some a) r = Done (x, env', inb', r')"
      using less.prems(3) input1_not_Fail[OF w, of T a r] loop_abort[OF a, of T no_cbs env r] by (cases "Xhttp2_dns_input1 T no_cbs env (Some a) r") auto
    from input1_Done[OF less.prems(1,2) a d] obtain rest where
      r: "inb' = Some rest" "length rest < length a" "r' = r" "live env'" "x = 0 \<and> waiting env' \<or> x = -1" .
    from less.prems(3) have x: "x = 0" "\<not> finished env'" "waiting env'"
      and l: "input_loop T no_cbs env' (Some rest) r = Some (Done (1, rep, env1, inb, r1))"
      using r unfolding loop_step[OF a d] by (auto split: if_splits)
    show ?thesis
    proof (cases "length (http2_input env @ a) < next_size (http2_input env @ a)")
      case True
      then have e: "\<not> overflow env (http2_input env @ a)" "env' = absorb a (grown env (http2_input env @ a))" "rest = []"
        using d r(1) unfolding input1_eq[OF w] by (auto split: if_splits)
      then have e1: "env1 = env'" using l by (simp add: loop_empty)
      show ?thesis
      proof (cases "b = []")
        case True
        then show ?thesis using less.prems(3) l e(3) e1 by simp
      next
        case False
        then show ?thesis
          using input1_partial[OF w True e(1), of T b r, folded e(2)] e1 a
          by (subst (1 2) input_loop.simps) simp
      qed
    next
      case False
      then have "Xhttp2_dns_input1 T no_cbs env (Some (a @ b)) r = Done (x, env', Some (rest @ b), r)"
        using input1_whole[OF w, of a T b r] d r by (simp add: bindO_def)
      then have "input_loop T no_cbs env (Some (a @ b)) r = input_loop T no_cbs env' (Some (rest @ b)) r"
        using x a by (simp add: loop_step)
      then show ?thesis using less.hyps[OF r(2) x(3) r(4) l] by simp
    qed
  qed
qed



section \<open>Properties of the reader\<close>

lemma waiting_outbuf: "waiting env \<Longrightarrow> waiting (env\<lparr>outbuf := b\<rparr>)"
  by (simp add: waiting_def framed_def)

lemma live_outbuf_Some: "env_ok env \<Longrightarrow> live (env\<lparr>outbuf := Some b\<rparr>)" and env_ok_outbuf: "env_ok env \<Longrightarrow> env_ok (env\<lparr>outbuf := c\<rparr>)"
  by (simp_all add: live_def env_ok_defs)

lemma init_waiting: "waiting http2_init"
  by (simp add: waiting_def framed_def http2_init_def next_size_def sizeof_hdr_def)



text \<open>
  C2: The result does not depend on how the bytes of the server arrive.  When
  the client has consumed \<open>a\<close> and asks for more, receiving \<open>b\<close> then gives the
  same result, state and output as receiving \<open>a @ b\<close> at once.
\<close>

theorem http2_dns_input_chunks:
  assumes "waiting env" and "env_ok env" and "\<not> finished env"
    and "http2_dns_input T no_cbs env (Some \<lparr>bev_input = a, bev_output = out\<rparr>) r
      = Some (Done (1, rep, env1, Some \<lparr>bev_input = i1, bev_output = out1\<rparr>, r1))"
  shows "http2_dns_input T no_cbs env (Some \<lparr>bev_input = a @ b, bev_output = out\<rparr>) r
    = http2_dns_input T no_cbs env1 (Some \<lparr>bev_input = b, bev_output = out1\<rparr>) r"
proof -
  let ?env = "env\<lparr>outbuf := Some out\<rparr>"
  note w = waiting_outbuf[OF assms(1), of "Some out"] live_outbuf_Some[OF assms(2), of out]
  obtain res where res: "input_loop T no_cbs ?env (Some a) r = Some res" "loop_result_ok res"
    using loop_returns[OF w, of T a r] assms(3) by auto
  then obtain rep0 env0 inb r0 where l: "res = Done (1, rep0, env0, inb, r0)"
      and e: "env1 = env0\<lparr>outbuf := None\<rparr>" "outbuf env0 = Some out1"
    using assms(3,4) by (auto simp: http2_dns_input_def bindO_def split: outcome.splits option.splits)
  then have "env1\<lparr>outbuf := Some out1\<rparr> = env0" "\<not> finished env1" using res(2) by (simp_all add: loop_result_ok_def)
  then show ?thesis
    using input_loop_chunks[OF w res(1)[unfolded l], of b] assms(3) by (simp add: http2_dns_input_def)
qed


theorem http2_dns_input_chunks_witness:
  "\<forall>T b. http2_dns_input T no_cbs http2_init (Some \<lparr>bev_input = [0, 0] @ b, bev_output = []\<rparr>) ()
    = http2_dns_input T no_cbs
        (http2_init\<lparr>http2_input := [0, 0], http2_input_alloc := 9, http2_input_max := 9, http2_input_len := 2\<rparr>)
        (Some \<lparr>bev_input = b, bev_output = []\<rparr>) ()"
proof -
  have "http2_dns_input T no_cbs http2_init (Some \<lparr>bev_input = [0, 0], bev_output = []\<rparr>) ()
    = Some (Done (1, None,
        http2_init\<lparr>http2_input := [0, 0], http2_input_alloc := 9, http2_input_max := 9, http2_input_len := 2\<rparr>,
        Some \<lparr>bev_input = [], bev_output = []\<rparr>, ()))" for T
    by (simp add: http2_dns_input_def input_loop.simps Xhttp2_dns_input1_def fill_input_def read_bytes_def no_cbs_def
        grow_input_def bindO_def http2_init_def sizeof_hdr_def)
  from http2_dns_input_chunks[OF init_waiting init_env_ok _ this] show ?thesis by (simp add: http2_init_def)
qed

lemma alloc_grow: "http2_input_max env \<le> http2_input_alloc env \<Longrightarrow>
    http2_input_max (grow_input n env) \<le> http2_input_alloc (grow_input n env) \<and> n \<le> http2_input_alloc (grow_input n env)"
  by (auto simp: grow_input_def)

lemma no_overflow: "http2_input_max env \<le> http2_input_alloc env \<Longrightarrow> \<not> overflow env s"
  unfolding overflow_def grown_def
  using alloc_grow[of env sizeof_hdr] alloc_grow[of "grow_input sizeof_hdr env" "next_size s"] by auto

text \<open>
  C5: As long as \<open>http2_input_max\<close> is not larger than the block that was
  allocated, the reader does exactly what the frame format asks.  It keeps the
  bytes of an incomplete frame and asks for more; it hands the first complete
  frame, with the header and the payload of the length the header gives, to the
  function for its type, and leaves the bytes behind it in the connection.
\<close>

theorem Xhttp2_dns_input1_exact:
  assumes "waiting env" and "http2_input_max env \<le> http2_input_alloc env"
  shows "Xhttp2_dns_input1 T no_cbs env (Some a) r =
    (let s = http2_input env @ a; n = next_size s in
     if length s < n then Done (0, absorb a (grown env s), Some [], r)
     else case receive_frame T (hdr_of s) (drop sizeof_hdr (take n s))
                 (absorb (take (n - http2_input_len env) a) (grown env s)) of
            Ok _ env' \<Rightarrow> Done (0, env', Some (drop n s), r)
          | Err env' \<Rightarrow> Done (-1, env', Some (drop n s), r)
          | Crash x \<Rightarrow> Abort x)"
proof -
  have "drop (next_size (http2_input env @ a)) (http2_input env @ a)
      = drop (next_size (http2_input env @ a) - http2_input_len env) a"
    if "next_size (http2_input env @ a) \<le> length (http2_input env @ a)"
    using waiting_facts(1)[OF assms(1)] waiting_facts(4)[OF assms(1), of a] next_size_ge[of "http2_input env @ a"] that
    by auto
  then show ?thesis
    unfolding input1_eq[OF assms(1)] Let_def using no_overflow[OF assms(2)] by (simp split: h2.split)
qed

theorem Xhttp2_dns_input1_exact_witness:
  "\<forall>T. Xhttp2_dns_input1 T no_cbs http2_init (Some [0, 0, 0, 7]) () =
    Done (0, http2_init\<lparr>http2_input := [0, 0, 0, 7], http2_input_alloc := 9, http2_input_max := 9,
      http2_input_len := 4\<rparr>, Some [], ())"
  using Xhttp2_dns_input1_exact[OF init_waiting, of _ "[0, 0, 0, 7]" "()"]
  by (simp add: http2_init_def next_size_def sizeof_hdr_def absorb_def grown_def grow_input_def)

lemma indexed_field:
  "Xdecode_header2 T [0x82] (Suc 0) = bindH (add_dyn (bytes_of '':method'') (bytes_of ''GET''))
     (\<lambda>_. bindH (Xreport_header (bytes_of '':method'') (bytes_of ''GET'')) (\<lambda>_. retH 1))"
  "Xdecode_header2 T [0x88] (Suc 0) = bindH (add_dyn (bytes_of '':status'') (bytes_of ''200''))
     (\<lambda>_. bindH (Xreport_header (bytes_of '':status'') (bytes_of ''200'')) (\<lambda>_. retH 1))"
  by (simp_all add: Xdecode_header2_def decode_indexed_def readH_def hpack_consts Xdecode_int2_def int_mask_def
      static_table_def Let_def)


lemma one_header:
  assumes "Xdecode_header2 T [b] (Suc 0) env = Ok 1 env'"
  shows "receive_frame T \<lparr>hdr_length = [0, 0, 1], hdr_type = 1, hdr_flags = 4, hdr_stream_id = [0, 0, 0, 1]\<rparr> [b] env
    = Ok () (env'\<lparr>http2_input := [], http2_input_len := 0\<rparr>)"
proof -
  have "headers_loop T [b] (Suc 0) (Suc 0) (Suc 0) = retH ()" by (subst headers_loop.simps) simp
  then have "headers_loop T [b] (Suc 0) (Suc 0) 0 env = Ok () env'"
    using assms by (subst headers_loop.simps) (simp add: size_minus_def bindH_def retH_def)
  then show ?thesis
    by (simp add: receive_frame_def Xreceive_headers2_def frame_types frame_length_def frame_stream_id_def be32_def
        HTTP2_HDR_R_def HTTP2_HDR_HEADERS_PADDED_def HTTP2_HDR_HEADERS_PRIORITY_def bindH_def retH_def)
qed

lemmas reader_defs = Xhttp2_dns_input1_def fill_input_def read_bytes_def no_cbs_def grow_input_def bindO_def
  http2_init_def sizeof_hdr_def hdr_of_def frame_length_def be32_def

lemma first_header:
  "Xhttp2_dns_input1 T no_cbs (http2_init\<lparr>outbuf := Some out\<rparr>) (Some ([0, 0, 1, 1, 4, 0, 0, 0, 1, 0x82] @ x)) r =
   Done (0, http2_init\<lparr>outbuf := Some out, http2_input_alloc := 10, http2_input_max := 16, http2_dyn_alloc := 16,
     http2_dyn_idx := 1, http2_dyn := [\<lparr>key = bytes_of '':method'', val = bytes_of ''GET''\<rparr>]\<rparr>, Some x, r)"
  by (simp add: reader_defs)
    (subst one_header, simp add: indexed_field(1) bindH_def add_dyn_def Xreport_header_def retH_def bytes_of_def, simp add: bytes_of_def)

lemma report_200:
  "Xreport_header (bytes_of '':status'') (bytes_of ''200'') env = Ok () (env\<lparr>status := Some 200\<rparr>)"
  by (simp add: Xreport_header_def Xparse_status_code2_def bytes_of_def byte_is_digit_def bindH_def retH_def)

lemma first_status:
  "Xhttp2_dns_input1 T no_cbs (http2_init\<lparr>outbuf := Some out\<rparr>) (Some ([0, 0, 1, 1, 4, 0, 0, 0, 1, 0x88] @ x)) r =
   Done (0, http2_init\<lparr>outbuf := Some out, http2_input_alloc := 10, http2_input_max := 16, http2_dyn_alloc := 16,
     http2_dyn_idx := 1, http2_dyn := [\<lparr>key = bytes_of '':status'', val = bytes_of ''200''\<rparr>], status := Some 200\<rparr>, Some x, r)"
  by (simp add: reader_defs)
    (subst one_header, simp add: indexed_field(2) bindH_def add_dyn_def report_200 retH_def,
      simp_all add: bytes_of_def)


text \<open>
  C39: \<open>add_dyn\<close> stores the capacity of the dynamic table in \<open>http2_input_max\<close>.
  A server that sends one indexed header and then any frame of seven bytes
  makes the client write behind \<open>http2_input\<close>: ten bytes are allocated, sixteen
  believed to be.
\<close>

theorem http2_dns_input_overflow:
  assumes "length d = 7" and "length h = 6"
  shows "http2_dns_input T no_cbs http2_init
    (Some \<lparr>bev_input = [0, 0, 1, 1, 4, 0, 0, 0, 1, 0x82] @ [0, 0, 7] @ h @ d, bev_output = out\<rparr>) r
    = Some (Abort (Undefined ''write past http2_input''))"
proof -
  obtain a1 a2 a3 a4 a5 a6 where h: "h = [a1, a2, a3, a4, a5, a6]"
    using assms(2) by (auto simp: length_Suc_conv eval_nat_numeral)
  let ?e = "http2_init\<lparr>outbuf := Some out, http2_input_alloc := 10, http2_input_max := 16, http2_dyn_alloc := 16,
     http2_dyn_idx := 1, http2_dyn := [\<lparr>key = bytes_of '':method'', val = bytes_of ''GET''\<rparr>]\<rparr>"
  have "Xhttp2_dns_input1 T no_cbs ?e (Some ([0, 0, 7] @ h @ d)) r = Abort (Undefined ''write past http2_input'')"
    using assms(1) by (simp add: reader_defs h)
  then have "input_loop T no_cbs ?e (Some ([0, 0, 7] @ h @ d)) r = Some (Abort (Undefined ''write past http2_input''))"
    by (rule loop_abort[rotated]) simp
  then have "input_loop T no_cbs (http2_init\<lparr>outbuf := Some out\<rparr>)
      (Some ([0, 0, 1, 1, 4, 0, 0, 0, 1, 0x82] @ [0, 0, 7] @ h @ d)) r = Some (Abort (Undefined ''write past http2_input''))"
    by (subst loop_step[OF _ first_header]) (simp_all add: http2_init_def)
  then show ?thesis by (simp add: http2_dns_input_def bindO_def http2_init_def)
qed

theorem http2_dns_input_overflow_witness:
  "\<forall>T. http2_dns_input T no_cbs http2_init
    (Some \<lparr>bev_input = [0, 0, 1, 1, 4, 0, 0, 0, 1, 0x82] @ [0, 0, 7] @ [0, 1, 0, 0, 0, 1] @ [1, 2, 3, 4, 5, 6, 7],
       bev_output = []\<rparr>) ()
    = Some (Abort (Undefined ''write past http2_input''))"
  by (intro allI http2_dns_input_overflow) simp_all

text \<open>
  A server that answers with status 200 and an empty body of unknown type
  makes the measurement follow a NULL pointer: \<open>http2_dns_input\<close> reports success
  without data, and \<open>http2_reply_cb\<close> reads the message identifier from them.
\<close>

theorem http2_reply_null:
  "\<exists>env' bev'. http2_dns_input T no_cbs http2_init
      (Some \<lparr>bev_input = [0, 0, 1, 1, 4, 0, 0, 0, 1, 0x88] @ [0, 0, 0, 0, 1, 0, 0, 0, 1], bev_output = out\<rparr>) r
      = Some (Done (0, Some (Some 200, None), env', bev', r))
    \<and> http2_reply_cb qryid (Some 200, None) = Abort (Undefined ''NULL data'')"
proof -
  let ?e = "http2_init\<lparr>outbuf := Some out, http2_input_alloc := 10, http2_input_max := 16, http2_dyn_alloc := 16,
     http2_dyn_idx := 1, http2_dyn := [\<lparr>key = bytes_of '':status'', val = bytes_of ''200''\<rparr>], status := Some 200\<rparr>"
  have st: "Xhttp2_dns_input1 T no_cbs ?e (Some [0, 0, 0, 0, 1, 0, 0, 0, 1]) r = Done (0, ?e\<lparr>finished := True\<rparr>, Some [], r)"
    by (simp add: reader_defs receive_frame_def frame_types Xreceive_data2_def HTTP2_HDR_DATA_PADDED_def
        HTTP2_HDR_DATA_END_STREAM_def frame_stream_id_def HTTP2_HDR_R_def add_credits2_def copyH_def add_data2_def
        bindH_def retH_def)
  have "input_loop T no_cbs ?e (Some [0, 0, 0, 0, 1, 0, 0, 0, 1]) r
      = Some (Done (0, Some (Some 200, None), ?e\<lparr>finished := True\<rparr>, Some [], r))"
    by (subst loop_step[OF _ st]) (simp_all add: reply_of_def http2_init_def)
  then have "input_loop T no_cbs (http2_init\<lparr>outbuf := Some out\<rparr>)
      (Some ([0, 0, 1, 1, 4, 0, 0, 0, 1, 0x88] @ [0, 0, 0, 0, 1, 0, 0, 0, 1])) r
      = Some (Done (0, Some (Some 200, None), ?e\<lparr>finished := True\<rparr>, Some [], r))"
    by (subst loop_step[OF _ first_status]) (simp_all add: http2_init_def)
  then show ?thesis by (simp add: http2_dns_input_def bindO_def http2_init_def http2_reply_cb_def)
qed



section \<open>The request\<close>

text \<open>A byte stream as the frames it starts with, and the bytes of an incomplete one.\<close>

function split_frames :: "bytes \<Rightarrow> (http2_hdr \<times> bytes) list \<times> bytes" where
  "split_frames s =
     (if length s < next_size s then ([], s)
      else case split_frames (drop (next_size s) s) of
        (fs, rest) \<Rightarrow> ((hdr_of s, drop sizeof_hdr (take (next_size s) s)) # fs, rest))"
  by pat_completeness auto

termination
  by (relation "measure length") (auto simp: next_size_def sizeof_hdr_def split: if_splits)

declare split_frames.simps [simp del]

lemma split_frames_Nil [simp]: "split_frames [] = ([], [])"
  by (subst split_frames.simps) (simp add: next_size_def sizeof_hdr_def)

lemma split_frames_Cons:
  assumes "length p = n" "n < 2 ^ 24"
  shows "split_frames (hdr_bytes (mk_hdr n t fl sid) @ p @ rest) =
    ((mk_hdr n t fl sid, p) # fst (split_frames rest), snd (split_frames rest))"
proof -
  let ?h = "hdr_bytes (mk_hdr n t fl sid)"
  have size: "next_size (?h @ p @ rest) = sizeof_hdr + n"
    using assms(2) by (simp add: next_size_def length_hdr_bytes hdr_of_mk frame_length_mk)
  then show ?thesis
    using assms by (subst split_frames.simps) (simp add: length_hdr_bytes hdr_of_mk split: prod.split)
qed

lemma three_frames:
  assumes "length p1 = n1" "n1 < 2 ^ 24" "length p2 = n2" "n2 < 2 ^ 24" "length p3 = n3" "n3 < 2 ^ 24"
  shows "split_frames (hdr_bytes (mk_hdr n1 t1 f1 s1) @ p1 @ hdr_bytes (mk_hdr n2 t2 f2 s2) @ p2 @
      hdr_bytes (mk_hdr n3 t3 f3 s3) @ p3 @ [])
    = ([(mk_hdr n1 t1 f1 s1, p1), (mk_hdr n2 t2 f2 s2, p2), (mk_hdr n3 t3 f3 s3, p3)], [])"
  by (simp only: split_frames_Cons[OF assms(1,2)] split_frames_Cons[OF assms(3,4)] split_frames_Cons[OF assms(5,6)]
      split_frames_Nil fst_conv snd_conv)

definition header_field :: "string \<times> string \<Rightarrow> bytes" where
  "header_field kv = (case kv of (name, v) \<Rightarrow> HPACK_LHFNI # int_bytes 1 0 (of_nat (length name)) @ bytes_of name @
     int_bytes 1 0 (of_nat (length v)) @ bytes_of v)"

definition request_headers :: "string \<Rightarrow> string \<Rightarrow> string \<Rightarrow> (string \<times> string) list" where
  "request_headers authority path len = [('':method'', ''POST''), ('':scheme'', ''https''),
     ('':authority'', authority), ('':path'', path), (''user-agent'', ''RIPE Atlas''),
     (''accept'', ''application/dns-message''), (''content-type'', ''application/dns-message''),
     (''content-length'', len)]"

lemma digit_byte:
  assumes "m < 10"
  shows "of_char (char_of (48 + m :: nat)) = (of_nat (48 + m) :: u8)" "unat (of_nat (48 + m) :: u8) = 48 + m"
    "byte_is_digit (of_nat (48 + m))"
proof -
  have "(of_char (char_of (48 + m :: nat)) :: u8) = of_nat (of_char (char_of (48 + m :: nat)))"
    by (simp only: of_nat_of_char)
  then show "of_char (char_of (48 + m :: nat)) = (of_nat (48 + m) :: u8)" using assms by simp
  show u: "unat (of_nat (48 + m) :: u8) = 48 + m"
    using assms by (simp only: unsigned_of_nat) (simp add: take_bit_nat_eq_self del: of_nat_add)
  show "byte_is_digit (of_nat (48 + m))"
    unfolding byte_is_digit_def word_le_nat_alt u using assms by simp
qed

lemma print_dec_value: "strtoul10 0 (bytes_of (print_dec n) @ rest) = strtoul10 n rest"
proof (induction n arbitrary: rest rule: print_dec.induct)
  case (1 n)
  show ?case
  proof (cases "n < 10")
    case True
    then show ?thesis
      using digit_byte[OF True] by (subst print_dec.simps) (simp add: bytes_of_def del: of_nat_add)
  next
    case False
    have "n mod 10 < 10" by simp
    note d = digit_byte[OF this]
    have "strtoul10 0 (bytes_of (print_dec n) @ rest) =
        strtoul10 0 (bytes_of (print_dec (n div 10)) @ of_nat (48 + n mod 10) # rest)"
      using False d(1) by (subst print_dec.simps) (simp add: bytes_of_def del: of_nat_add)
    then show ?thesis using 1[OF False] d(2,3) by (simp del: of_nat_add)
  qed
qed

lemma add_headers:
  "headers_ok env \<Longrightarrow>
     http2_headers (foldl (\<lambda>e (k, v). add_header2 e k v) env kvs) = http2_headers env @ concat (map header_field kvs) \<and>
     headers_ok (foldl (\<lambda>e (k, v). add_header2 e k v) env kvs)"
proof (induction kvs arbitrary: env)
  case (Cons kv kvs)
  then show ?case
    using Cons.IH[of "add_header2 env (fst kv) (snd kv)"] add_header2_headers[OF Cons.prems, of "fst kv" "snd kv"]
    by (simp add: header_field_def split_beta)
qed simp

text \<open>
  C32: The request is the connection preface followed by exactly three frames:
  the settings, the headers on stream 1 as literals that are not to be indexed,
  and the query on stream 1 with the end of the stream.  The frames carry their
  lengths, and the value of \<open>content-length\<close> is the length of the query.
\<close>

theorem send_request2_frames:
  assumes "headers_ok env" and "http2_headers env = []" and "length d < 2 ^ 24"
    and "length (concat (map header_field (request_headers authority path (print_dec (length d))))) < 2 ^ 24"
  shows "\<exists>env' body. send_request2 env out authority path d =
      (env', out @ bytes_of (''PRI * HTTP/2.0'' @ [CHR 0x0D, CHR 0x0A, CHR 0x0D, CHR 0x0A] @ ''SM''
                 @ [CHR 0x0D, CHR 0x0A, CHR 0x0D, CHR 0x0A]) @ body)
    \<and> http2_headers env' = []
    \<and> split_frames body =
       (let block = concat (map header_field (request_headers authority path (print_dec (length d)))) in
        ([(mk_hdr 6 HTTP2_HDR_TYPE_SETTINGS 0 0, [0, 2, 0, 0, 0, 0]),
          (mk_hdr (length block) HTTP2_HDR_TYPE_HEADERS HTTP2_HDR_HEADERS_END_HEADERS 1, block),
          (mk_hdr (length d) HTTP2_HDR_TYPE_DATA HTTP2_HDR_DATA_END_STREAM 1, d)], []))
    \<and> strtoul10 0 (bytes_of (print_dec (length d))) = (length d, [])"
proof -
  let ?block = "concat (map header_field (request_headers authority path (print_dec (length d))))"
  let ?body = "hdr_bytes (mk_hdr 6 HTTP2_HDR_TYPE_SETTINGS 0 0) @ [0, 2, 0, 0, 0, 0] @
    hdr_bytes (mk_hdr (length ?block) HTTP2_HDR_TYPE_HEADERS HTTP2_HDR_HEADERS_END_HEADERS 1) @ ?block @
    hdr_bytes (mk_hdr (length d) HTTP2_HDR_TYPE_DATA HTTP2_HDR_DATA_END_STREAM 1) @ d @ []"
  have "length d < 10 ^ Suc 18" using assms(3) by simp
  from print_dec_length[OF this] have len: "take 19 (print_dec (length d)) = print_dec (length d)" by simp
  define env8 where
    "env8 = foldl (\<lambda>e (k, v). add_header2 e k v) env (request_headers authority path (print_dec (length d)))"
  have h: "http2_headers env8 = ?block" "http2_headers_offset env8 = length ?block"
    using add_headers[OF assms(1), of "request_headers authority path (print_dec (length d))"] assms(2)
    unfolding env8_def[symmetric] headers_ok_def by auto
  have "send_request2 env out authority path d =
      (env8\<lparr>http2_headers := [], http2_headers_max := 0, http2_headers_offset := 0\<rparr>,
       out @ bytes_of (''PRI * HTTP/2.0'' @ [CHR 0x0D, CHR 0x0A, CHR 0x0D, CHR 0x0A] @ ''SM''
         @ [CHR 0x0D, CHR 0x0A, CHR 0x0D, CHR 0x0A]) @ ?body)"
    unfolding send_request2_def Let_def send_headers2_def send_data2_def send_settings2_def evbuffer_add_def len
    using h unfolding env8_def request_headers_def
    by (simp add: to_be16_def to_be32_def HTTP2_HDR_SETTINGS_ENABLE_PUSH_def)
  moreover have "split_frames ?body = ([(mk_hdr 6 HTTP2_HDR_TYPE_SETTINGS 0 0, [0, 2, 0, 0, 0, 0]),
      (mk_hdr (length ?block) HTTP2_HDR_TYPE_HEADERS HTTP2_HDR_HEADERS_END_HEADERS 1, ?block),
      (mk_hdr (length d) HTTP2_HDR_TYPE_DATA HTTP2_HDR_DATA_END_STREAM 1, d)], [])"
    using assms(3,4) by (intro three_frames) simp_all
  moreover have "strtoul10 0 (bytes_of (print_dec (length d))) = (length d, [])"
    using print_dec_value[of "length d" "[]"] by simp
  ultimately show ?thesis unfolding Let_def by simp
qed


theorem send_request2_frames_witness:
  "\<exists>env' body. send_request2 http2_init [] ''h'' ''/p'' [1, 2] =
      (env', [] @ bytes_of (''PRI * HTTP/2.0'' @ [CHR 0x0D, CHR 0x0A, CHR 0x0D, CHR 0x0A] @ ''SM''
                 @ [CHR 0x0D, CHR 0x0A, CHR 0x0D, CHR 0x0A]) @ body)
    \<and> http2_headers env' = []
    \<and> split_frames body =
       (let block = concat (map header_field (request_headers ''h'' ''/p'' (print_dec (length [1, 2 :: u8])))) in
        ([(mk_hdr 6 HTTP2_HDR_TYPE_SETTINGS 0 0, [0, 2, 0, 0, 0, 0]),
          (mk_hdr (length block) HTTP2_HDR_TYPE_HEADERS HTTP2_HDR_HEADERS_END_HEADERS 1, block),
          (mk_hdr (length [1, 2 :: u8]) HTTP2_HDR_TYPE_DATA HTTP2_HDR_DATA_END_STREAM 1, [1, 2])], []))
    \<and> strtoul10 0 (bytes_of (print_dec (length [1, 2 :: u8]))) = (length [1, 2 :: u8], [])"
proof (rule send_request2_frames)
  show "length (concat (map header_field (request_headers ''h'' ''/p'' (print_dec (length [1, 2 :: u8]))))) < 2 ^ 24"
    by (simp add: request_headers_def header_field_def int_bytes_def int_mask_def bytes_of_def print_dec.simps)
qed (simp_all add: headers_ok_def http2_init_def)

end
