(* ===== verification/Cmdline.thy ===== *)
theory Cmdline
  imports Probe_Prelude
begin

text \<open>
  The command lines of the two daemons that run measurements,
  \<^verbatim>\<open>eperd/eperd.c\<close> and \<^verbatim>\<open>eperd/eooqd.c\<close>: finding the built-in command, splitting
  the line into arguments in place, and the record that reports a line that
  cannot be run.  The lemmas show that the splitter, which writes NULs into its
  copy of the line and keeps positions, computes a functional reference, and
  that a line assembled from arguments splits back into them.
\<close>


section \<open>Model\<close>

definition ATLAS_NARGS :: nat where "ATLAS_NARGS = 64"
definition ATLAS_ARGSIZE :: nat where "ATLAS_ARGSIZE = 512"

text \<open>The three scanners move a position in the buffer to the first character that ends them.\<close>

definition scan :: "(char \<Rightarrow> bool) \<Rightarrow> string \<Rightarrow> nat \<Rightarrow> nat" where
  "scan P buf cp = cp + length (takeWhile (\<lambda>c. c \<noteq> CHR 0x00 \<and> P c) (drop cp buf))"

definition skip_space :: "string \<Rightarrow> nat \<Rightarrow> nat" where
  "skip_space = scan is_space"

definition skip_nonspace :: "string \<Rightarrow> nat \<Rightarrow> nat" where
  "skip_nonspace = scan (\<lambda>c. \<not> is_space c)"

definition find_eos :: "string \<Rightarrow> nat \<Rightarrow> nat" where
  "find_eos = scan (\<lambda>c. c \<noteq> CHR 0x22)"

text \<open>\<open>argv\<close> holds the positions assigned so far, the last one for the argument being read.\<close>

function split_loop :: "string \<Rightarrow> nat list \<Rightarrow> nat \<Rightarrow> string + string \<times> nat list" where
  "split_loop args argv cp =
     (if char_at args cp = CHR 0x00 then Inr (args, argv)
      else let ncp = skip_space args cp; args1 = args[cp := CHR 0x00] in
        if ATLAS_NARGS - 1 \<le> length argv then Inl ''too many arguments''
        else if char_at args1 ncp = CHR 0x22 then
          let eos = find_eos args1 (ncp + 1) in
          if char_at args1 eos \<noteq> CHR 0x22 then Inl ''end of string not found''
          else split_loop (args1[eos := CHR 0x00]) (argv @ [ncp + 1]) (eos + 1)
        else split_loop args1 (argv @ [ncp]) (skip_nonspace args1 ncp))"
  by pat_completeness auto
termination
  by (relation "measure (\<lambda>(args, argv, cp). ATLAS_NARGS - length argv)") (auto simp: ATLAS_NARGS_def)

definition split_cmdline :: "string \<Rightarrow> string + string list" where
  "split_cmdline cmdline =
     (if ATLAS_ARGSIZE < length cmdline + 1 then Inl ''command line too big''
      else case split_loop cmdline [0] (skip_nonspace cmdline 0) of
        Inl reason \<Rightarrow> Inl reason
      | Inr (args, argv) \<Rightarrow> Inr (map (\<lambda>p. c_string (drop p args)) argv))"

definition find_builtin :: "string list \<Rightarrow> string \<Rightarrow> string option" where
  "find_builtin cmds cmdline = find (\<lambda>c. prefix c cmdline \<and> char_at cmdline (length c) = CHR '' '') cmds"

text \<open>The record for a command that could not be started.\<close>

definition isprint_asciionly :: "char \<Rightarrow> bool" where
  "isprint_asciionly c \<longleftrightarrow> 0x20 \<le> (of_char c :: nat) \<and> (of_char c :: nat) \<le> 0x7e"

definition hex_digit :: "nat \<Rightarrow> char" where
  "hex_digit n = ''0123456789abcdef'' ! n"

fun escape_cmd :: "string \<Rightarrow> string" where
  "escape_cmd [] = []"
| "escape_cmd (c # p) =
     (if c = CHR 0x22 \<or> c = CHR 0x5c then [CHR 0x5c, c]
      else if isprint_asciionly c then [c]
      else CHR 0x5c # ''u00'' @ [hex_digit (of_char c div 16), hex_digit (of_char c mod 16)]) @ escape_cmd p"

definition quoted :: "string \<Rightarrow> string" where
  "quoted s = CHR 0x22 # s @ [CHR 0x22]"


section \<open>Splitting: a functional reference\<close>

text \<open>
  \<open>split_ref n s\<close> reads the text behind an argument when \<open>n\<close> more arguments fit.
  Text that follows a closing quote directly is dropped, and an empty
  argument takes its place.
\<close>

function split_ref :: "nat \<Rightarrow> string \<Rightarrow> string + string list" where
  "split_ref n s =
     (if s = [] then Inr []
      else if n = 0 then Inl ''too many arguments''
      else let t = dropWhile is_space s in
        if t = s then Inr [[]]
        else if t \<noteq> [] \<and> hd t = CHR 0x22 then
          (let body = takeWhile (\<lambda>c. c \<noteq> CHR 0x22) (tl t); rest = dropWhile (\<lambda>c. c \<noteq> CHR 0x22) (tl t) in
           if rest = [] then Inl ''end of string not found''
           else map_sum id ((#) body) (split_ref (n - 1) (tl rest)))
        else map_sum id ((#) (takeWhile (\<lambda>c. \<not> is_space c) t))
               (split_ref (n - 1) (dropWhile (\<lambda>c. \<not> is_space c) t)))"
  by pat_completeness auto
termination
  by (relation "measure fst") auto

declare split_loop.simps [simp del] split_ref.simps [simp del]

lemma split_ref_word:
  "s \<noteq> [] \<Longrightarrow> dropWhile is_space s = t \<Longrightarrow> t \<noteq> s \<Longrightarrow> t = [] \<or> hd t \<noteq> CHR 0x22 \<Longrightarrow>
     split_ref (Suc n) s =
       map_sum id ((#) (takeWhile (\<lambda>c. \<not> is_space c) t)) (split_ref n (dropWhile (\<lambda>c. \<not> is_space c) t))"
  by (subst split_ref.simps) (auto simp: Let_def)

lemma split_ref_string:
  assumes "s \<noteq> []" "dropWhile is_space s = CHR 0x22 # u" "CHR 0x22 # u \<noteq> s"
  shows "split_ref (Suc n) s =
       (if dropWhile (\<lambda>c. c \<noteq> CHR 0x22) u = [] then Inl ''end of string not found''
        else map_sum id ((#) (takeWhile (\<lambda>c. c \<noteq> CHR 0x22) u)) (split_ref n (tl (dropWhile (\<lambda>c. c \<noteq> CHR 0x22) u))))"
  using assms(1,3) unfolding split_ref.simps[of "Suc n" s] assms(2)
  by (simp only: Let_def list.sel list.distinct if_True if_False nat.distinct diff_Suc_1 simp_thms)

lemma scan_append:
  assumes "CHR 0x00 \<notin> set s"
  shows "scan P (pre @ s) (length pre) = length pre + length (takeWhile P s)"
proof -
  have "takeWhile (\<lambda>c. c \<noteq> CHR 0x00 \<and> P c) s = takeWhile P s"
    using assms by (intro takeWhile_cong) auto
  then show ?thesis by (simp add: scan_def)
qed

lemma c_string_Nil: "c_string [] = []" "c_string (CHR 0x00 # t) = []"
  by (simp_all add: c_string_def)

text \<open>What the positions stand for: the text before \<open>cp\<close>, cut at its first NUL.\<close>

abbreviation argv_strings :: "string \<Rightarrow> nat list \<Rightarrow> string list" where
  "argv_strings buf argv \<equiv> map (\<lambda>p. c_string (drop p buf)) argv"

lemma argv_strings_NUL:
  "\<forall>p\<in>set argv. p \<le> length pre \<Longrightarrow> argv_strings (pre @ CHR 0x00 # t) argv = argv_strings pre argv"
  by (simp add: c_string_NUL)

lemma split_loop_end:
  "split_loop pre argv (length pre) = Inr (pre, argv)"
  by (subst split_loop.simps) (simp add: char_at_def)

lemma split_loop_after_quote:
  assumes "s \<noteq> []" "CHR 0x00 \<notin> set s" "\<not> is_space (hd s)" "length argv < ATLAS_NARGS - 1"
  shows "split_loop (pre @ s) argv (length pre) = Inr (pre @ CHR 0x00 # tl s, argv @ [length pre])"
proof -
  obtain c s' where s: "s = c # s'" using assms(1) by (cases s) auto
  have sp: "skip_space (pre @ s) (length pre) = length pre"
    unfolding skip_space_def using assms s by (subst scan_append) auto
  have ns: "skip_nonspace (pre @ CHR 0x00 # s') (length pre) = length pre" by (simp add: skip_nonspace_def scan_def)
  have e: "split_loop (pre @ CHR 0x00 # s') (argv @ [length pre]) (length pre) =
      Inr (pre @ CHR 0x00 # s', argv @ [length pre])"
    by (subst split_loop.simps) (simp add: char_at_def nth_append)
  have c: "c \<noteq> CHR 0x00" using assms(2) s by auto
  show ?thesis
    using assms(4) c sp e ns unfolding s by (subst split_loop.simps) (simp add: char_at_def nth_append Let_def)
qed

text \<open>One step of the loop from behind an argument, at white space.\<close>

lemma split_loop_word:
  assumes "s \<noteq> []" "CHR 0x00 \<notin> set s" "dropWhile is_space s = t" "t \<noteq> s" "t = [] \<or> hd t \<noteq> CHR 0x22"
    "length argv < ATLAS_NARGS - 1"
  shows "\<exists>gap. length gap = length s - length t \<and> hd gap = CHR 0x00 \<and> gap \<noteq> [] \<and>
    split_loop (pre @ s) argv (length pre) =
    split_loop (pre @ gap @ t) (argv @ [length pre + length gap])
      (length (pre @ gap @ takeWhile (\<lambda>c. \<not> is_space c) t))"
proof -
  obtain c s' where s: "s = c # s'" using assms(1) by (cases s) auto
  define w where "w = takeWhile is_space s"
  have sw: "s = w @ t" unfolding w_def using assms(3) by auto
  have wn: "w \<noteq> []" using sw assms(4) by auto
  define gap where "gap = CHR 0x00 # tl w"
  have gl: "length gap = length w" "gap \<noteq> []" "hd gap = CHR 0x00" using wn by (auto simp: gap_def)
  have args: "(pre @ s)[length pre := CHR 0x00] = pre @ gap @ t"
    using wn unfolding sw gap_def by (cases w) (auto simp: list_update_append)
  have c0: "char_at (pre @ s) (length pre) \<noteq> CHR 0x00" using assms(2) s by (auto simp: char_at_def nth_append)
  have sp: "skip_space (pre @ s) (length pre) = length pre + length gap"
    unfolding skip_space_def using assms(2) gl by (simp add: scan_append w_def)
  have tn: "CHR 0x00 \<notin> set t" using assms(2) sw by auto
  have ns: "skip_nonspace (pre @ gap @ t) (length pre + length gap) =
      length (pre @ gap @ takeWhile (\<lambda>c. \<not> is_space c) t)"
    using scan_append[OF tn, of "\<lambda>c. \<not> is_space c" "pre @ gap"] by (simp add: skip_nonspace_def)
  have q: "char_at (pre @ gap @ t) (length pre + length gap) \<noteq> CHR 0x22"
    using assms(5) by (cases t) (auto simp: char_at_def nth_append)
  have "split_loop (pre @ s) argv (length pre) =
      split_loop (pre @ gap @ t) (argv @ [length pre + length gap]) (length (pre @ gap @ takeWhile (\<lambda>c. \<not> is_space c) t))"
    using assms(6) c0 q by (subst split_loop.simps) (simp only: Let_def args sp ns if_False not_le[symmetric])
  then show ?thesis using gl sw by (intro exI[of _ gap]) simp
qed

lemma split_loop_string:
  assumes "s \<noteq> []" "CHR 0x00 \<notin> set s" "dropWhile is_space s = CHR 0x22 # u" "CHR 0x22 # u \<noteq> s"
    "length argv < ATLAS_NARGS - 1"
    and body: "body = takeWhile (\<lambda>c. c \<noteq> CHR 0x22) u" and rest: "rest = dropWhile (\<lambda>c. c \<noteq> CHR 0x22) u"
  shows "\<exists>gap. gap \<noteq> [] \<and> hd gap = CHR 0x00 \<and> split_loop (pre @ s) argv (length pre) =
    (if rest = [] then Inl ''end of string not found''
     else split_loop ((pre @ gap @ CHR 0x22 # body @ [CHR 0x00]) @ tl rest) (argv @ [length pre + length gap + 1])
       (length (pre @ gap @ CHR 0x22 # body @ [CHR 0x00])))"
proof -
  obtain c s' where s: "s = c # s'" using assms(1) by (cases s) auto
  define w where "w = takeWhile is_space s"
  have sw: "s = w @ CHR 0x22 # u" unfolding w_def assms(3)[symmetric] by simp
  have wn: "w \<noteq> []" using sw assms(4) by auto
  define gap where "gap = CHR 0x00 # tl w"
  have gl: "length gap = length w" "gap \<noteq> []" "hd gap = CHR 0x00" using wn by (auto simp: gap_def)
  have args: "(pre @ s)[length pre := CHR 0x00] = pre @ gap @ CHR 0x22 # u"
    using wn unfolding sw gap_def by (cases w) (auto simp: list_update_append)
  have c0: "char_at (pre @ s) (length pre) \<noteq> CHR 0x00" using assms(2) s by (auto simp: char_at_def nth_append)
  have sp: "skip_space (pre @ s) (length pre) = length pre + length gap"
    unfolding skip_space_def using assms(2) gl by (simp add: scan_append w_def)
  have un: "CHR 0x00 \<notin> set u" using assms(2) sw by auto
  have eos: "find_eos (pre @ gap @ CHR 0x22 # u) (length pre + length gap + 1) = length (pre @ gap @ CHR 0x22 # body)"
    using scan_append[OF un, of "\<lambda>c. c \<noteq> CHR 0x22" "pre @ gap @ [CHR 0x22]"] by (simp add: find_eos_def body)
  have q: "char_at (pre @ gap @ CHR 0x22 # u) (length pre + length gap) = CHR 0x22"
    by (simp add: char_at_def nth_append)
  have u: "u = body @ rest" by (simp add: body rest)
  have rh: "rest \<noteq> [] \<Longrightarrow> hd rest = CHR 0x22"
    using hd_dropWhile[of "\<lambda>c. c \<noteq> CHR 0x22" u] unfolding rest by simp
  have r: "char_at (pre @ gap @ CHR 0x22 # u) (length (pre @ gap @ CHR 0x22 # body)) = CHR 0x22 \<longleftrightarrow> rest \<noteq> []"
    using rh unfolding u by (cases rest) (auto simp: char_at_def nth_append)
  have upd: "rest \<noteq> [] \<Longrightarrow> (pre @ gap @ CHR 0x22 # u)[length (pre @ gap @ CHR 0x22 # body) := CHR 0x00] =
      (pre @ gap @ CHR 0x22 # body @ [CHR 0x00]) @ tl rest"
    unfolding u by (cases rest) (auto simp: list_update_append)
  have "split_loop (pre @ s) argv (length pre) =
    (if rest = [] then Inl ''end of string not found''
     else split_loop ((pre @ gap @ CHR 0x22 # body @ [CHR 0x00]) @ tl rest) (argv @ [length pre + length gap + 1])
       (length (pre @ gap @ CHR 0x22 # body) + 1))"
    using assms(5) c0 by (subst split_loop.simps, cases "rest = []")
      (simp_all only: Let_def args sp q eos r upd if_False if_True not_le[symmetric] simp_thms)
  then show ?thesis using gl by (intro exI[of _ gap]) simp
qed

lemma split_loop_full:
  "s \<noteq> [] \<Longrightarrow> CHR 0x00 \<notin> set s \<Longrightarrow> ATLAS_NARGS - 1 \<le> length argv \<Longrightarrow>
     split_loop (pre @ s) argv (length pre) = Inl ''too many arguments''"
  by (cases s) (auto simp: split_loop.simps char_at_def nth_append)

definition finish_argv :: "string + string \<times> nat list \<Rightarrow> string + string list" where
  "finish_argv r = (case r of Inl reason \<Rightarrow> Inl reason | Inr (args, argv) \<Rightarrow> Inr (argv_strings args argv))"

lemma map_sum_snoc: "map_sum id ((@) (xs @ [w])) r = map_sum id ((@) xs) (map_sum id ((#) w) r)"
  by (cases r) simp_all

lemma split_loop_ref:
  assumes "CHR 0x00 \<notin> set s" "\<forall>p\<in>set argv. p \<le> length pre" "length argv + n = ATLAS_NARGS - 1"
  shows "finish_argv (split_loop (pre @ s) argv (length pre)) = map_sum id ((@) (argv_strings pre argv)) (split_ref n s)"
  using assms
proof (induction n arbitrary: s pre argv)
  case 0
  then show ?case
    using split_loop_end[of pre argv] split_loop_full[of s argv pre]
    by (cases "s = []") (simp_all add: finish_argv_def split_ref.simps[of 0])
next
  case (Suc n)
  define t where "t = dropWhile is_space s"
  have len: "length argv < ATLAS_NARGS - 1" using Suc.prems by simp
  consider (e) "s = []" | (q) "s \<noteq> []" "t = s" | (w) "s \<noteq> []" "t \<noteq> s" "t = [] \<or> hd t \<noteq> CHR 0x22"
    | (str) u where "s \<noteq> []" "t \<noteq> s" "t = CHR 0x22 # u"
    by (metis list.collapse)
  then show ?case
  proof cases
    case e
    then show ?thesis using split_loop_end[of pre argv] by (simp add: finish_argv_def split_ref.simps[of "Suc n"])
  next
    case q
    then have "\<not> is_space (hd s)" unfolding t_def by (metis dropWhile_eq_self_iff)
    then have "split_loop (pre @ s) argv (length pre) = Inr (pre @ CHR 0x00 # tl s, argv @ [length pre])"
      using split_loop_after_quote q(1) Suc.prems(1) len by blast
    then show ?thesis
      using q Suc.prems by (simp add: finish_argv_def split_ref.simps[of "Suc n"] t_def c_string_NUL c_string_Nil)
  next
    case w
    define word where "word = takeWhile (\<lambda>c. \<not> is_space c) t"
    define rest where "rest = dropWhile (\<lambda>c. \<not> is_space c) t"
    obtain gap where g: "gap \<noteq> []" "hd gap = CHR 0x00" "split_loop (pre @ s) argv (length pre) =
        split_loop (pre @ gap @ t) (argv @ [length pre + length gap]) (length (pre @ gap @ word))"
      using split_loop_word[OF w(1) Suc.prems(1) t_def[symmetric] w(2,3) len, of pre] unfolding word_def by blast
    have t: "t = word @ rest" by (simp add: word_def rest_def)
    have tn: "CHR 0x00 \<notin> set t" using Suc.prems(1) set_dropWhileD unfolding t_def by fast
    have IH: "finish_argv (split_loop ((pre @ gap @ word) @ rest) (argv @ [length pre + length gap]) (length (pre @ gap @ word))) =
        map_sum id ((@) (argv_strings (pre @ gap @ word) (argv @ [length pre + length gap]))) (split_ref n rest)"
      using tn Suc.prems(2,3) t by (intro Suc.IH) auto
    have gg: "gap = CHR 0x00 # tl gap" using g by (cases gap) auto
    have "argv_strings (pre @ gap @ word) argv = argv_strings pre argv"
      using argv_strings_NUL[of argv pre "tl gap @ word"] Suc.prems(2) gg by (metis append_Cons)
    moreover have "c_string (drop (length pre + length gap) (pre @ gap @ word)) = word"
      using tn t by (simp add: c_string_id)
    moreover have "split_ref (Suc n) s = map_sum id ((#) word) (split_ref n rest)"
      unfolding word_def rest_def by (rule split_ref_word[OF w(1) t_def[symmetric] w(2,3)])
    ultimately show ?thesis
      using IH unfolding g(3) by (simp only: t map_append list.map map_sum_snoc append.assoc)
  next
    case str
    define body where "body = takeWhile (\<lambda>c. c \<noteq> CHR 0x22) u"
    define rest where "rest = dropWhile (\<lambda>c. c \<noteq> CHR 0x22) u"
    have d: "dropWhile is_space s = CHR 0x22 # u" "CHR 0x22 # u \<noteq> s" using str t_def by auto
    obtain gap where g: "gap \<noteq> []" "hd gap = CHR 0x00" "split_loop (pre @ s) argv (length pre) =
        (if rest = [] then Inl ''end of string not found''
         else split_loop ((pre @ gap @ CHR 0x22 # body @ [CHR 0x00]) @ tl rest) (argv @ [length pre + length gap + 1])
           (length (pre @ gap @ CHR 0x22 # body @ [CHR 0x00])))"
      using split_loop_string[OF str(1) Suc.prems(1) d len body_def rest_def, of pre] by blast
    have u: "u = body @ rest" by (simp add: body_def rest_def)
    have un: "CHR 0x00 \<notin> set u" using Suc.prems(1) set_dropWhileD[of _ is_space s] unfolding d(1) by fastforce
    have ref: "split_ref (Suc n) s = (if rest = [] then Inl ''end of string not found'' else map_sum id ((#) body) (split_ref n (tl rest)))"
      unfolding body_def rest_def by (rule split_ref_string[OF str(1) d])
    show ?thesis
    proof (cases "rest = []")
      case True
      then show ?thesis using g(3) ref by (simp add: finish_argv_def)
    next
      case False
      let ?pre = "pre @ gap @ CHR 0x22 # body @ [CHR 0x00]" and ?argv = "argv @ [length pre + length gap + 1]"
      have "CHR 0x00 \<notin> set (tl rest)" using un u False by (cases rest) auto
      then have IH: "finish_argv (split_loop (?pre @ tl rest) ?argv (length ?pre)) =
          map_sum id ((@) (argv_strings ?pre ?argv)) (split_ref n (tl rest))"
        using Suc.prems(2,3) by (intro Suc.IH) auto
      have gg: "gap = CHR 0x00 # tl gap" using g by (cases gap) auto
      have "argv_strings ?pre argv = argv_strings pre argv"
        using argv_strings_NUL[of argv pre "tl gap @ CHR 0x22 # body @ [CHR 0x00]"] Suc.prems(2) gg by (metis append_Cons)
      moreover have "c_string (drop (length pre + length gap + 1) ?pre) = body"
        using un u c_string_NUL[of body "[]"] by (simp add: c_string_id)
      ultimately show ?thesis
        using IH unfolding g(3) ref by (simp only: map_append list.map map_sum_snoc False if_False)
    qed
  qed
qed

lemma split_cmdline_ref:
  assumes "CHR 0x00 \<notin> set cmdline"
  shows "split_cmdline cmdline =
    (if 511 < length cmdline then Inl ''command line too big''
     else map_sum id ((#) (takeWhile (\<lambda>c. \<not> is_space c) cmdline))
       (split_ref 62 (dropWhile (\<lambda>c. \<not> is_space c) cmdline)))"
proof -
  define w where "w = takeWhile (\<lambda>c. \<not> is_space c) cmdline"
  define r where "r = dropWhile (\<lambda>c. \<not> is_space c) cmdline"
  have c: "cmdline = w @ r" by (simp add: w_def r_def)
  have "skip_nonspace cmdline 0 = length w"
    using scan_append[OF assms, of _ "[]"] by (simp add: skip_nonspace_def w_def)
  moreover have "finish_argv (split_loop (w @ r) [0] (length w)) = map_sum id ((@) (argv_strings w [0])) (split_ref 62 r)"
    using assms c by (intro split_loop_ref) (auto simp: ATLAS_NARGS_def)
  moreover have "(@) [w] = (#) w" by auto
  moreover have "argv_strings w [0] = [w]" using assms c by (simp add: c_string_id)
  ultimately show ?thesis
    unfolding w_def[symmetric] r_def[symmetric] using c by (simp add: split_cmdline_def finish_argv_def ATLAS_ARGSIZE_def)
qed

text \<open>
  C27: The splitter, which cuts its copy of the line in place, returns the
  arguments of the functional reference with room for 62 arguments behind the
  command, or refuses the line for its reason.
\<close>

theorem split_cmdline_exact:
  assumes "CHR 0x00 \<notin> set cmdline"
  shows "split_cmdline cmdline =
    (if 511 < length cmdline then Inl ''command line too big''
     else map_sum id ((#) (takeWhile (\<lambda>c. \<not> is_space c) cmdline))
       (split_ref 62 (dropWhile (\<lambda>c. \<not> is_space c) cmdline)))"
  using split_cmdline_ref[OF assms] .

text \<open>A line assembled from arguments: quoted where they would not be read as a word.\<close>

definition plain_arg :: "string \<Rightarrow> bool" where
  "plain_arg a \<longleftrightarrow> a \<noteq> [] \<and> hd a \<noteq> CHR 0x22 \<and> (\<forall>c\<in>set a. \<not> is_space c)"

definition join_args :: "string list \<Rightarrow> string" where
  "join_args args = concat (map (\<lambda>a. CHR '' '' # (if plain_arg a then a else quoted a)) args)"

lemma split_ref_join:
  assumes "\<forall>a\<in>set args. plain_arg a \<or> CHR 0x22 \<notin> set a" "length args \<le> n"
  shows "split_ref n (join_args args) = Inr args"
  using assms
proof (induction args arbitrary: n)
  case Nil
  then show ?case by (simp add: join_args_def split_ref.simps)
next
  case (Cons a args)
  then obtain m where n: "n = Suc m" by (cases n) auto
  have IH: "split_ref m (join_args args) = Inr args" using Cons n by simp
  have sp: "is_space CHR '' ''" "\<not> is_space CHR 0x22" by (simp_all add: is_space_def)
  have j: "join_args (a # args) = CHR '' '' # (if plain_arg a then a else quoted a) @ join_args args"
    by (simp add: join_args_def)
  have jh: "join_args args = [] \<or> is_space (hd (join_args args))" by (cases args) (auto simp: join_args_def sp)
  show ?case
  proof (cases "plain_arg a")
    case True
    then have a: "a \<noteq> []" "hd a \<noteq> CHR 0x22" "\<forall>c\<in>set a. \<not> is_space c" by (auto simp: plain_arg_def)
    have dw: "dropWhile is_space (CHR '' '' # a @ join_args args) = a @ join_args args"
      using a(1,3) by (cases a) (auto simp: sp)
    have tw: "takeWhile (\<lambda>c. \<not> is_space c) (a @ join_args args) = a"
      "dropWhile (\<lambda>c. \<not> is_space c) (a @ join_args args) = join_args args"
      using a(3) jh by (cases "join_args args"; simp add: takeWhile_append2 dropWhile_append2)+
    show ?thesis
      using True a(1,2) IH split_ref_word[OF _ dw, of m] unfolding j n by (simp add: tw)
  next
    case False
    then have q: "\<forall>c\<in>set a. c \<noteq> CHR 0x22" using Cons.prems(1) by auto
    have dw: "dropWhile is_space (CHR '' '' # quoted a @ join_args args) = CHR 0x22 # a @ CHR 0x22 # join_args args"
      by (simp add: quoted_def sp)
    have tw: "takeWhile (\<lambda>c. c \<noteq> CHR 0x22) (a @ CHR 0x22 # join_args args) = a"
      "dropWhile (\<lambda>c. c \<noteq> CHR 0x22) (a @ CHR 0x22 # join_args args) = CHR 0x22 # join_args args"
      using q by (simp_all add: takeWhile_append2 dropWhile_append2)
    show ?thesis
      using False IH split_ref_string[OF _ dw, of m] unfolding j n by (simp add: tw)
  qed
qed

text \<open>
  A line that consists of a command and at most 62 arguments, quoted where
  needed, splits back into exactly these.
\<close>

theorem split_cmdline_join:
  assumes "\<forall>c\<in>set cmd. \<not> is_space c" "CHR 0x00 \<notin> set cmd"
    "\<forall>a\<in>set args. CHR 0x00 \<notin> set a \<and> (plain_arg a \<or> CHR 0x22 \<notin> set a)"
    "length args \<le> 62" "length (cmd @ join_args args) < 512"
  shows "split_cmdline (cmd @ join_args args) = Inr (cmd # args)"
proof -
  have nn: "CHR 0x00 \<notin> set (cmd @ join_args args)"
    using assms(2,3) by (auto simp: join_args_def quoted_def split: if_splits)
  have jh: "join_args args = [] \<or> is_space (hd (join_args args))" by (cases args) (auto simp: join_args_def is_space_def)
  have "takeWhile (\<lambda>c. \<not> is_space c) (cmd @ join_args args) = cmd"
    "dropWhile (\<lambda>c. \<not> is_space c) (cmd @ join_args args) = join_args args"
    using assms(1) jh by (cases "join_args args"; simp add: takeWhile_append2 dropWhile_append2)+
  moreover have "split_ref 62 (join_args args) = Inr args" using assms by (intro split_ref_join) auto
  ultimately show ?thesis using assms(5) by (simp add: split_cmdline_ref[OF nn])
qed

theorem split_cmdline_join_witness:
  "split_cmdline (''evping'' @ join_args [''-4'', ''a b'', []]) = Inr [''evping'', ''-4'', ''a b'', []]"
  by (rule split_cmdline_join) (simp_all add: join_args_def quoted_def plain_arg_def is_space_def)

theorem split_cmdline_exact_witness:
  "split_cmdline ''evping a'' = map_sum id ((#) ''evping'') (split_ref 62 '' a'')"
  by (subst split_cmdline_exact) (simp_all add: is_space_def)


section \<open>Reporting a failed command\<close>

definition hex_value :: "char \<Rightarrow> nat" where
  "hex_value c = (if (of_char c :: nat) < 58 then of_char c - 48 else of_char c - 87)"

fun unescape :: "string \<Rightarrow> string" where
  "unescape (c # d # s) =
     (if c = CHR 0x5c then
        (if d = CHR ''u'' then
           (case s of a # b # e # f # t \<Rightarrow> char_of (hex_value e * 16 + hex_value f) # unescape t | _ \<Rightarrow> [])
         else d # unescape s)
      else c # unescape (d # s))"
| "unescape s = s"

lemma hex_value_digit: "n < 16 \<Longrightarrow> hex_value (hex_digit n) = n"
proof -
  have "\<forall>n\<in>set [0..<16]. hex_value (hex_digit n) = n" by code_simp
  then show "n < 16 \<Longrightarrow> ?thesis" by simp
qed

lemma unescape_plain: "c \<noteq> CHR 0x5c \<Longrightarrow> unescape (c # s) = c # unescape s"
  by (cases s) simp_all

lemma unescape_char:
  "unescape (escape_cmd [c] @ t) = c # unescape t"
proof -
  have n: "(of_char c :: nat) < 256" by simp
  have d: "(of_char c :: nat) div 16 < 16" by (rule less_mult_imp_div_less) (use n in simp)
  have h: "hex_value (hex_digit (of_char c div 16)) * 16 + hex_value (hex_digit (of_char c mod 16)) = (of_char c :: nat)"
    using d by (simp add: hex_value_digit)
  consider "c = CHR 0x22" | "c = CHR 0x5c" | "c \<noteq> CHR 0x22" "c \<noteq> CHR 0x5c" "isprint_asciionly c"
    | "c \<noteq> CHR 0x22" "c \<noteq> CHR 0x5c" "\<not> isprint_asciionly c" by blast
  then show ?thesis using h by cases (simp_all add: unescape_plain)
qed

text \<open>
  The text of a failed command is written so that a JSON reader gets it
  back byte for byte, whatever it contains.
\<close>

lemma escape_cmd_roundtrip: "unescape (escape_cmd s @ t) = s @ unescape t"
proof (induction s)
  case (Cons c s)
  have "escape_cmd (c # s) @ t = escape_cmd [c] @ escape_cmd s @ t" by simp
  then show ?case using Cons unescape_char[of c "escape_cmd s @ t"] by (simp only: append_Cons)
qed simp

end
