(* ===== verification/Probe_Files.thy ===== *)
theory Probe_Files
  imports Cmdline "HOL-Library.Monad_Syntax"
begin

text \<open>
  What the two daemons see of the operating system: files, the C functions that
  read them line by line, the clock and the name server configuration; and the
  records both daemons append to their output file.

  A disk is a map from names to contents.  Names that differ only in repeated
  slashes name the same file.  A name for which \<open>denied\<close> holds stands for one
  on which system calls fail for another reason than a missing file (a missing
  directory, missing permissions).
\<close>


section \<open>Files\<close>

record disk =
  files :: "string \<rightharpoonup> string"
  denied :: "string \<Rightarrow> bool"

datatype errno = ENOENT | EOTHER

fun canon :: "string \<Rightarrow> string" where
  "canon (a # b # s) = (if a = CHR ''/'' \<and> b = CHR ''/'' then canon (b # s) else a # canon (b # s))"
| "canon s = s"

text \<open>\<open>None\<close> is success.\<close>

definition stat_file :: "disk \<Rightarrow> string \<Rightarrow> errno option" where
  "stat_file d f =
     (if denied d (canon f) then Some EOTHER
      else if files d (canon f) = None then Some ENOENT else None)"

definition unlink_file :: "disk \<Rightarrow> string \<Rightarrow> errno option \<times> disk" where
  "unlink_file d f =
     (case stat_file d f of
        Some e \<Rightarrow> (Some e, d)
      | None \<Rightarrow> (None, d\<lparr>files := (files d)(canon f := None)\<rparr>))"

definition rename_file :: "disk \<Rightarrow> string \<Rightarrow> string \<Rightarrow> disk option" where
  "rename_file d from to =
     (if stat_file d from \<noteq> None \<or> denied d (canon to) then None
      else Some (d\<lparr>files := (files d)(canon from := None, canon to := files d (canon from))\<rparr>))"

text \<open>A failed move is reported and changes nothing.\<close>

definition try_rename :: "disk \<Rightarrow> string \<Rightarrow> string \<Rightarrow> disk" where
  "try_rename d from to = (case rename_file d from to of Some d' \<Rightarrow> d' | None \<Rightarrow> d)"

definition open_read :: "disk \<Rightarrow> string \<Rightarrow> string option" where
  "open_read d f = (if denied d (canon f) then None else files d (canon f))"

definition append_file :: "disk \<Rightarrow> string \<Rightarrow> string \<Rightarrow> disk option" where
  "append_file d f text =
     (if denied d (canon f) then None
      else Some (d\<lparr>files := (files d)(canon f \<mapsto> (case files d (canon f) of Some s \<Rightarrow> s @ text | None \<Rightarrow> text))\<rparr>))"

text \<open>\<open>open\<close> with \<^verbatim>\<open>O_CREAT\<close>; a NULL name fails.\<close>

definition create_file :: "disk \<Rightarrow> string option \<Rightarrow> disk option" where
  "create_file d f = (case f of None \<Rightarrow> None | Some n \<Rightarrow> append_file d n [])"


section \<open>Reading lines\<close>

text \<open>
  A line with its newline, at most \<open>sz - 1\<close> characters of it (the buffers of
  the sources have at least two bytes).
\<close>

definition fgets :: "nat \<Rightarrow> string \<Rightarrow> (string \<times> string) option" where
  "fgets sz s =
     (if s = [] \<or> sz < 2 then None
      else let n = min (sz - 1) (length (takeWhile (\<lambda>c. c \<noteq> CHR 0x0a) s) + 1) in Some (take n s, drop n s))"

lemma fgets_SomeD: "fgets sz s = Some (l, r) \<Longrightarrow> s = l @ r \<and> l \<noteq> [] \<and> length l < sz"
  by (auto simp: fgets_def Let_def min_def split: if_splits)

function fgets_all :: "nat \<Rightarrow> string \<Rightarrow> string list" where
  "fgets_all sz s = (case fgets sz s of None \<Rightarrow> [] | Some (l, r) \<Rightarrow> l # fgets_all sz r)"
  by pat_completeness auto
termination
  by (relation "measure (\<lambda>(sz, s). length s)") (auto dest!: fgets_SomeD)

declare fgets_all.simps [simp del]

text \<open>The string in the buffer up to its newline.\<close>

definition chomp :: "string \<Rightarrow> string" where
  "chomp buf = takeWhile (\<lambda>c. c \<noteq> CHR 0x0a) (c_string buf)"

lemma chomp_no_NUL [simp]: "CHR 0x00 \<notin> set (chomp buf)"
  using c_string_no_NUL[of buf] unfolding chomp_def by (auto dest: set_takeWhileD)

text \<open>\<open>strtol\<close> to base 10, which saturates, and its conversion to \<open>int\<close>.\<close>

definition digits_value :: "string \<Rightarrow> int" where
  "digits_value ds = foldl (\<lambda>v c. 10 * v + (of_char c - 48)) 0 ds"

definition strtol10 :: "string \<Rightarrow> int" where
  "strtol10 s =
     (let t = dropWhile is_space s; neg = (t \<noteq> [] \<and> hd t = CHR ''-'');
          u = (if t \<noteq> [] \<and> (hd t = CHR ''-'' \<or> hd t = CHR ''+'') then tl t else t);
          v = digits_value (takeWhile is_digit u) in
      if neg then max (- (2 ^ 63)) (- v) else min (2 ^ 63 - 1) v)"

text \<open>\<open>strtoul\<close> to base 10 with the text it did not use.\<close>

definition strtoul_end :: "string \<Rightarrow> int \<times> string" where
  "strtoul_end s =
     (let t = dropWhile is_space s; neg = (t \<noteq> [] \<and> hd t = CHR ''-'');
          u = (if t \<noteq> [] \<and> (hd t = CHR ''-'' \<or> hd t = CHR ''+'') then tl t else t);
          ds = takeWhile is_digit u; v = digits_value ds in
      if ds = [] then (0, s)
      else (if 2 ^ 64 \<le> v then 2 ^ 64 - 1 else if neg then (2 ^ 64 - v) mod 2 ^ 64 else v, drop (length ds) u))"

definition int64 :: "int \<Rightarrow> int" where
  "int64 i = signed_take_bit 63 i"

definition int32 :: "int \<Rightarrow> int" where
  "int32 i = signed_take_bit 31 i"


section \<open>The world of a daemon\<close>

text \<open>
  \<open>now\<close> is the clock in seconds with \<open>now_usec\<close> microseconds, \<open>resolv_mtime\<close> the modification time of the name server
  configuration (\<open>None\<close> when it cannot be read).  \<open>last_time\<close> and \<open>probe_id\<close> are the
  static variables of \<^verbatim>\<open>check_resolv_conf\<close> and \<^verbatim>\<open>get_probe_id\<close>.  \<open>calls\<close> counts the
  calls of code outside the daemon, whose results the environment fixes by this
  number.
\<close>

record world =
  disk :: disk
  now :: nat
  now_usec :: nat
  resolv_mtime :: "int option"
  last_time :: int
  probe_id :: int
  calls :: nat

text \<open>
  The measurements as the daemons use them: \<open>init\<close> returns the state of a command
  or NULL, \<open>start\<close> tells whether the command reports its end before \<open>start\<close>
  returns, \<open>delete\<close> whether the state was given up.
\<close>

record testops =
  init_op :: "nat \<Rightarrow> string list \<Rightarrow> nat option"
  start_op :: "nat \<Rightarrow> nat \<Rightarrow> bool"
  delete_op :: "nat \<Rightarrow> nat \<Rightarrow> bool"

record probe_env =
  ATLAS_SPOOLDIR :: string
  ATLAS_RUNDIR :: string
  ATLAS_STATUS :: string
  unsafe :: bool
  atlas_id :: "string option"
  version_json :: string
  resolv_conf_parse :: "nat \<Rightarrow> int"
  ops :: "string \<Rightarrow> testops"

definition tick :: "world \<Rightarrow> world" where
  "tick w = w\<lparr>calls := calls w + 1\<rparr>"

text \<open>A daemon that exits leaves its last message.\<close>

type_synonym 'a run = "string + 'a"

definition result_head :: "'a probe_env_scheme \<Rightarrow> world \<Rightarrow> string" where
  "result_head E w =
     ''RESULT { '' @ (case atlas_id E of None \<Rightarrow> [] | Some i \<Rightarrow> quoted ''id'' @ '':'' @ quoted i @ '', '') @
     version_json E @ '', '' @ quoted ''time'' @ '':'' @ print_dec (now w) @ '', ''"

definition cmd_result :: "'a probe_env_scheme \<Rightarrow> world \<Rightarrow> string \<Rightarrow> string \<Rightarrow> string" where
  "cmd_result E w reason cmdline =
     result_head E w @ reason @ quoted ''cmd'' @ '': '' @ quoted (escape_cmd cmdline) @ '' }'' @ [CHR 0x0a]"

definition append_result :: "string \<Rightarrow> string \<Rightarrow> world \<Rightarrow> world run" where
  "append_result f text w =
     (case append_file (disk w) f text of
        None \<Rightarrow> Inl (''unable to append to '' @ f)
      | Some d \<Rightarrow> Inr (w\<lparr>disk := d\<rparr>))"

text \<open>
  Rereading the name server configuration after a change.  The first load is
  reported only when it fails.
\<close>

definition check_resolv_conf :: "'a probe_env_scheme \<Rightarrow> string option \<Rightarrow> world \<Rightarrow> world run" where
  "check_resolv_conf E out_file w =
     (case resolv_mtime w of
        None \<Rightarrow> Inr w
      | Some mtime \<Rightarrow>
          if mtime = last_time w then Inr w
          else let r = resolv_conf_parse E (calls w); w1 = tick w in
            (case (if (r \<noteq> 0 \<or> last_time w \<noteq> -1) then out_file else None) of
               None \<Rightarrow> Inr (w1\<lparr>last_time := mtime\<rparr>)
             | Some f \<Rightarrow> map_sum id (last_time_update (\<lambda>_. mtime))
                 (append_result f (result_head E w @ quoted ''event'' @ '': '' @ quoted ''load resolv.conf'' @
                    '', '' @ quoted ''result'' @ '': '' @ print_int r @ '' }'' @ [CHR 0x0a]) w1)))"

text \<open>The probe identifier, read once from the reply of the registration server.\<close>

definition get_probe_id :: "'a probe_env_scheme \<Rightarrow> world \<Rightarrow> int \<times> world" where
  "get_probe_id E w =
     (if 0 < probe_id w then (probe_id w, w)
      else case open_read (disk w) (ATLAS_STATUS E @ ''/reg_init_reply.txt'') of
        None \<Rightarrow> (-1, w)
      | Some text \<Rightarrow>
          let key = ''PROBE_ID '';
              id = (case find (\<lambda>buf. CHR 0x0a \<in> set buf \<and> prefix key buf \<and> length key < length buf)
                          (map c_string (fgets_all 80 text)) of
                      None \<Rightarrow> -1
                    | Some buf \<Rightarrow> int32 (strtol10 (drop (length key) buf))) in
          (id, w\<lparr>probe_id := id\<rparr>))"


section \<open>Lemmas on files\<close>

lemma denied_rename: "rename_file d a b = Some d' \<Longrightarrow> denied d' = denied d"
  by (auto simp: rename_file_def split: if_splits)

lemma fgets_all_concat: "2 \<le> sz \<Longrightarrow> concat (fgets_all sz s) = s"
proof (induction sz s rule: fgets_all.induct)
  case (1 sz s)
  show ?case
  proof (cases "fgets sz s")
    case None
    then show ?thesis using 1(2) by (subst fgets_all.simps) (auto simp: fgets_def Let_def split: if_splits)
  next
    case (Some lr)
    obtain l r where lr: "lr = (l, r)" by (cases lr)
    have "concat (fgets_all sz r) = r" using 1(1)[OF Some lr[symmetric]] 1(2) by simp
    then show ?thesis using fgets_SomeD[of sz s l r] Some lr by (subst fgets_all.simps) simp
  qed
qed

end
