(* ===== verification/Validate.thy ===== *)
theory Validate
  imports Probe_Prelude
begin

text \<open>
  \<^verbatim>\<open>libbb/validate_filename.c\<close>, \<^verbatim>\<open>libbb/validate_atlas_id.c\<close> and
  \<^verbatim>\<open>libbb/atlas_unsafe.c\<close>: the guard every measurement applies to a file name
  that arrives in a command line.  The lemmas characterise the accepted names
  exactly, and show that an accepted name, resolved component by component,
  stays below the directory the caller named.
\<close>


section \<open>Model\<close>

definition ATLAS_HOME :: string where
  "ATLAS_HOME = ''/home/atlas''"

definition ATLAS_DATA_OUT_REL :: string where
  "ATLAS_DATA_OUT_REL = ''data/out''"

definition ATLAS_DATA_NEW_REL :: string where
  "ATLAS_DATA_NEW_REL = ''data/new''"

text \<open>
  \<open>atlas_unsafe\<close> keeps its answer in a static variable that starts at \<open>-1\<close>;
  \<open>env\<close> says whether \<open>getenv("ATLAS_UNSAFE")\<close> is set.  Result and new value of
  the static variable.
\<close>

definition atlas_unsafe :: "bool \<Rightarrow> int \<Rightarrow> int \<times> int" where
  "atlas_unsafe env allow_unsafe =
     (if allow_unsafe = 0 then (0, allow_unsafe)
      else let a = (if allow_unsafe = -1 then (if env then 1 else 0) else allow_unsafe)
           in (a, a))"

text \<open>
  The checks of one candidate directory \<open>dir\<close> for a relative prefix: the C code
  writes them twice, once for \<open>ATLAS_HOME\<close> and once for the new base.  The
  result is the negation of the C variable \<open>failed\<close>.
\<close>

definition under_dir :: "string \<Rightarrow> string \<Rightarrow> string \<Rightarrow> bool \<Rightarrow> bool" where
  "under_dir path dir pfx require_slash =
     (if length path < length dir + 1 + length pfx then False
      else if take (length dir) path \<noteq> dir then False
      else if char_at path (length dir) \<noteq> CHR ''/'' then False
      else if take (length pfx) (drop (length dir + 1) path) \<noteq> pfx then False
      else if char_at path (length dir + 1 + length pfx) \<noteq> CHR ''/''
      then \<not> (require_slash \<or> char_at path (length dir + 1 + length pfx) \<noteq> CHR 0x00)
      else True)"

text \<open>The two final checks (properties 3 and 4 of the comment in the source).\<close>

definition dotdot_free :: "string \<Rightarrow> bool" where
  "dotdot_free path =
     (if has_substring path ''/../'' then False
      else \<not> (length path \<ge> 3 \<and> drop (length path - 3) path = ''/..''))"

definition rebased_validated_common ::
  "bool \<Rightarrow> string \<Rightarrow> string \<Rightarrow> string \<Rightarrow> bool \<Rightarrow> string option" where
  "rebased_validated_common unsafe base path pfx require_slash =
     (if unsafe then Some path
      else if char_at pfx 0 = CHR ''/'' then
        (if length path < length pfx then None
         else if take (length pfx) path \<noteq> pfx then None
         else if char_at path (length pfx) \<noteq> CHR ''/'' \<and>
                 (require_slash \<or> char_at path (length pfx) \<noteq> CHR 0x00) then None
         else if \<not> dotdot_free path then None
         else Some path)
      else if under_dir path ATLAS_HOME pfx require_slash then
        (if \<not> dotdot_free path then None
         else Some (base @ drop (length ATLAS_HOME) path))
      else if under_dir path base pfx require_slash then
        (if \<not> dotdot_free path then None
         else Some path)
      else None)"

definition rebased_validated_filename :: "bool \<Rightarrow> string \<Rightarrow> string \<Rightarrow> string \<Rightarrow> string option" where
  "rebased_validated_filename unsafe base path pfx =
     rebased_validated_common unsafe base path pfx True"

definition rebased_validated_dir :: "bool \<Rightarrow> string \<Rightarrow> string \<Rightarrow> string \<Rightarrow> string option" where
  "rebased_validated_dir unsafe base path pfx =
     rebased_validated_common unsafe base path pfx False"

definition validate_atlas_id :: "string \<Rightarrow> bool" where
  "validate_atlas_id atlas_id = (strspn atlas_id ''0123456789'' = length atlas_id)"


section \<open>Specification: path components\<close>

fun split_slash :: "string \<Rightarrow> string list" where
  "split_slash [] = [[]]"
| "split_slash (c # s) =
     (if c = CHR ''/'' then [] # split_slash s
      else case split_slash s of [] \<Rightarrow> [[c]] | w # ws \<Rightarrow> (c # w) # ws)"

text \<open>
  Lexical resolution of a path, as the kernel walks it when no component is a
  symbolic link: empty components and \<open>.\<close> stay, \<open>..\<close> goes up.
\<close>

fun walk :: "string list \<Rightarrow> string list \<Rightarrow> string list" where
  "walk dir [] = dir"
| "walk dir (c # cs) =
     walk (if c = [] \<or> c = ''.'' then dir
           else if c = ''..'' then butlast dir
           else dir @ [c]) cs"

definition resolve :: "string \<Rightarrow> string list" where
  "resolve path = walk [] (split_slash path)"

text \<open>What follows a directory in an accepted name.\<close>

definition tail_ok :: "bool \<Rightarrow> string \<Rightarrow> bool" where
  "tail_ok require_slash rest \<longleftrightarrow>
     (\<exists>r. rest = CHR ''/'' # r) \<or> (rest = [] \<and> \<not> require_slash)"


section \<open>Lemmas on components\<close>

lemma split_slash_nonempty [simp]: "split_slash s \<noteq> []"
  by (induction s) (auto split: list.splits)

lemma split_slash_append:
  "split_slash (xs @ CHR ''/'' # ys) = split_slash xs @ split_slash ys"
  by (induction xs) (auto split: list.splits)

lemma hd_split_slash: "\<exists>q. s = hd (split_slash s) @ q \<and> (q = [] \<or> (\<exists>r. q = CHR ''/'' # r))"
  by (induction s) (auto split: list.splits)

lemma tl_split_slash_middle:
  "c \<in> set (tl (split_slash s)) \<Longrightarrow>
   \<exists>pre post. s = pre @ CHR ''/'' # c @ post \<and> (post = [] \<or> (\<exists>r. post = CHR ''/'' # r))"
proof (induction s)
  case Nil
  then show ?case by simp
next
  case (Cons d s)
  show ?case
  proof (cases "d = CHR ''/'' \<and> c = hd (split_slash s)")
    case True
    then obtain q where "s = c @ q" "q = [] \<or> (\<exists>r. q = CHR ''/'' # r)"
      using hd_split_slash by blast
    with True show ?thesis by (intro exI[of _ "[]"] exI[of _ q]) simp
  next
    case False
    then have "c \<in> set (tl (split_slash s))"
      using Cons.prems by (cases "split_slash s") (auto split: if_splits)
    then obtain pre post where "s = pre @ CHR ''/'' # c @ post"
      "post = [] \<or> (\<exists>r. post = CHR ''/'' # r)" using Cons.IH by blast
    then show ?thesis by (intro exI[of _ "d # pre"] exI[of _ post]) simp
  qed
qed

lemma in_tl_append: "xs \<noteq> [] \<Longrightarrow> set ys \<subseteq> set (tl (xs @ ys))"
  by (cases xs) auto

lemma dotdot_free_iff: "dotdot_free path \<longleftrightarrow> ''..'' \<notin> set (tl (split_slash path))"
proof
  assume free: "dotdot_free path"
  show "''..'' \<notin> set (tl (split_slash path))"
  proof
    assume "''..'' \<in> set (tl (split_slash path))"
    then obtain pre post where p: "path = pre @ CHR ''/'' # ''..'' @ post"
      and post: "post = [] \<or> (\<exists>r. post = CHR ''/'' # r)"
      by (metis tl_split_slash_middle)
    from post show False
    proof
      assume "post = []"
      with p free show False by (simp add: dotdot_free_def split: if_splits)
    next
      assume "\<exists>r. post = CHR ''/'' # r"
      then obtain r where "path = pre @ ''/../'' @ r" using p by auto
      with free show False by (auto simp: dotdot_free_def has_substring_iff split: if_splits)
    qed
  qed
next
  assume no: "''..'' \<notin> set (tl (split_slash path))"
  have "\<not> has_substring path ''/../''"
  proof
    assume "has_substring path ''/../''"
    then obtain pre post where "path = pre @ CHR ''/'' # (''..'' @ CHR ''/'' # post)"
      by (auto simp: has_substring_iff)
    then have "split_slash path = split_slash pre @ (''..'' # split_slash post)"
      by (simp add: split_slash_append del: append.simps)
    with no show False using in_tl_append[of "split_slash pre" "''..'' # split_slash post"] by auto
  qed
  moreover have "\<not> (length path \<ge> 3 \<and> drop (length path - 3) path = ''/..'')"
  proof
    assume a: "length path \<ge> 3 \<and> drop (length path - 3) path = ''/..''"
    then have "path = take (length path - 3) path @ CHR ''/'' # ''..''"
      by (metis append_take_drop_id)
    then have "split_slash path = split_slash (take (length path - 3) path) @ split_slash ''..''"
      by (metis split_slash_append)
    with no show False
      using in_tl_append[of "split_slash (take (length path - 3) path)" "split_slash ''..''"] by auto
  qed
  ultimately show "dotdot_free path" by (simp add: dotdot_free_def)
qed

lemma walk_append: "walk d (xs @ ys) = walk (walk d xs) ys"
  by (induction xs arbitrary: d) auto

lemma walk_no_dotdot: "''..'' \<notin> set cs \<Longrightarrow> prefix d (walk d cs)"
proof (induction cs arbitrary: d)
  case Nil
  then show ?case by simp
next
  case (Cons c cs)
  then have "prefix (d @ [c]) (walk (d @ [c]) cs)" "prefix d (walk d cs)" by auto
  then show ?case using Cons.prems by (auto dest: append_prefixD)
qed

lemma resolve_below:
  assumes "tail_ok rs rest" and "''..'' \<notin> set (tl (split_slash (dir @ rest)))"
  shows "prefix (resolve dir) (resolve (dir @ rest))"
proof (cases rest)
  case Nil
  then show ?thesis by simp
next
  case (Cons c r)
  with assms(1) have c: "rest = CHR ''/'' # r" by (auto simp: tail_ok_def)
  then have split: "split_slash (dir @ rest) = split_slash dir @ split_slash r"
    by (simp add: split_slash_append)
  with assms(2) have "''..'' \<notin> set (split_slash r)"
    using in_tl_append[of "split_slash dir" "split_slash r"] by auto
  then show ?thesis by (simp add: resolve_def split walk_append walk_no_dotdot)
qed


section \<open>Lemmas on the checks\<close>

lemma tail_ok_char_at:
  assumes "CHR 0x00 \<notin> set rest"
  shows "tail_ok rs rest \<longleftrightarrow>
    char_at rest 0 = CHR ''/'' \<or> (\<not> rs \<and> char_at rest 0 = CHR 0x00)"
  using assms by (cases rest) (auto simp: tail_ok_def char_at_def)

lemma char_at_drop: "char_at s (n + k) = char_at (drop n s) k"
  by (simp add: char_at_def add.commute less_diff_conv)

lemma under_dir_iff:
  assumes "CHR 0x00 \<notin> set path"
  shows "under_dir path dir pfx rs \<longleftrightarrow>
    (\<exists>rest. path = dir @ CHR ''/'' # pfx @ rest \<and> tail_ok rs rest)" (is "?L \<longleftrightarrow> ?R")
proof
  assume L: ?L
  let ?rest = "drop (length dir + 1 + length pfx) path"
  have len: "length path \<ge> length dir + 1 + length pfx"
    and d: "take (length dir) path = dir"
    and sl: "char_at path (length dir) = CHR ''/''"
    and px: "take (length pfx) (drop (length dir + 1) path) = pfx"
    and tl: "char_at path (length dir + 1 + length pfx) = CHR ''/'' \<or>
      (\<not> rs \<and> char_at path (length dir + 1 + length pfx) = CHR 0x00)"
    using L by (auto simp: under_dir_def split: if_splits)
  have "path = take (length dir) path @ path ! length dir # drop (Suc (length dir)) path"
    using len by (simp add: id_take_nth_drop)
  also have "drop (Suc (length dir)) path =
      take (length pfx) (drop (length dir + 1) path) @ ?rest"
    by (metis Suc_eq_plus1 add.commute append_take_drop_id drop_drop)
  finally have "path = dir @ CHR ''/'' # pfx @ ?rest"
    using d px sl len by (simp add: char_at_def)
  moreover have "char_at ?rest 0 = char_at path (length dir + 1 + length pfx)"
    by (metis add.right_neutral char_at_drop)
  then have "tail_ok rs ?rest"
    using tl assms by (subst tail_ok_char_at) (auto dest: in_set_dropD)
  ultimately show ?R by blast
next
  assume ?R
  then obtain rest where p: "path = dir @ CHR ''/'' # pfx @ rest" and t: "tail_ok rs rest" by blast
  have c: "char_at path (length dir + 1 + length pfx) = char_at rest 0"
    using char_at_append[of "dir @ CHR ''/'' # pfx" rest] p by simp
  have "char_at path (length dir) = CHR ''/''"
    using char_at_append[of dir "CHR ''/'' # pfx @ rest"] p by (simp add: char_at_def)
  moreover have "CHR 0x00 \<notin> set rest" using assms p by auto
  ultimately show ?L using p t c
    by (auto simp: under_dir_def tail_ok_char_at)
qed

lemma absolute_ok_iff:
  assumes "CHR 0x00 \<notin> set path"
  shows "length pfx \<le> length path \<and> take (length pfx) path = pfx \<and>
      \<not> (char_at path (length pfx) \<noteq> CHR ''/'' \<and>
         (rs \<or> char_at path (length pfx) \<noteq> CHR 0x00)) \<longleftrightarrow>
    (\<exists>rest. path = pfx @ rest \<and> tail_ok rs rest)" (is "?L \<longleftrightarrow> ?R")
proof
  assume L: ?L
  then have p: "path = pfx @ drop (length pfx) path" by (metis append_take_drop_id)
  have "char_at (drop (length pfx) path) 0 = char_at path (length pfx)"
    by (metis add.right_neutral char_at_drop)
  then have "tail_ok rs (drop (length pfx) path)"
    using L assms by (subst tail_ok_char_at) (auto dest: in_set_dropD)
  with p show ?R by blast
next
  assume ?R
  then obtain rest where "path = pfx @ rest" "tail_ok rs rest" by blast
  then show ?L using assms by (auto simp: tail_ok_char_at)
qed


lemma validated_absolute_iff:
  assumes "CHR 0x00 \<notin> set path" and "char_at pfx 0 = CHR ''/''"
  shows "rebased_validated_common False base path pfx rs = Some p \<longleftrightarrow>
    ''..'' \<notin> set (tl (split_slash path)) \<and>
    (\<exists>rest. path = pfx @ rest \<and> tail_ok rs rest) \<and> p = path"
proof -
  have "rebased_validated_common False base path pfx rs =
      (if (length pfx \<le> length path \<and> take (length pfx) path = pfx \<and>
           \<not> (char_at path (length pfx) \<noteq> CHR ''/'' \<and>
              (rs \<or> char_at path (length pfx) \<noteq> CHR 0x00))) \<and> dotdot_free path
       then Some path else None)"
    using assms(2) by (auto simp: rebased_validated_common_def)
  then show ?thesis
    unfolding absolute_ok_iff[OF assms(1)] by (auto simp: dotdot_free_iff)
qed

lemma validated_home_iff:
  assumes "path = ATLAS_HOME @ ''/'' @ pfx @ rest" and "tail_ok rs rest"
    and "CHR 0x00 \<notin> set path" and "char_at pfx 0 \<noteq> CHR ''/''"
  shows "rebased_validated_common False base path pfx rs = Some p \<longleftrightarrow>
    ''..'' \<notin> set (tl (split_slash path)) \<and> p = base @ ''/'' @ pfx @ rest"
proof -
  have "under_dir path ATLAS_HOME pfx rs"
    using assms(1,2) under_dir_iff[OF assms(3), of ATLAS_HOME pfx rs] by auto
  moreover have "drop (length ATLAS_HOME) path = ''/'' @ pfx @ rest"
    using assms(1) by simp
  ultimately show ?thesis
    using assms(4) by (auto simp: rebased_validated_common_def dotdot_free_iff)
qed

lemma validated_base_iff:
  assumes "\<nexists>rest. path = ATLAS_HOME @ ''/'' @ pfx @ rest \<and> tail_ok rs rest"
    and "CHR 0x00 \<notin> set path" and "char_at pfx 0 \<noteq> CHR ''/''"
  shows "rebased_validated_common False base path pfx rs = Some p \<longleftrightarrow>
    ''..'' \<notin> set (tl (split_slash path)) \<and>
    (\<exists>rest. path = base @ ''/'' @ pfx @ rest \<and> tail_ok rs rest) \<and> p = path"
proof -
  have "\<not> under_dir path ATLAS_HOME pfx rs"
    using assms(1) under_dir_iff[OF assms(2), of ATLAS_HOME pfx rs] by auto
  then show ?thesis
    using assms(3) under_dir_iff[OF assms(2), of base pfx rs]
    by (auto simp: rebased_validated_common_def dotdot_free_iff)
qed

text \<open>The shape of an accepted name: a directory, then a tail without \<open>..\<close>.\<close>

lemma validated_relative_shape:
  assumes "CHR 0x00 \<notin> set path" and "char_at pfx 0 \<noteq> CHR ''/''"
    and "rebased_validated_common False base path pfx rs = Some p"
  obtains rest where "p = (base @ ''/'' @ pfx) @ rest" and "tail_ok rs rest"
    and "''..'' \<notin> set (split_slash (pfx @ rest))"
proof -
  obtain dir rest where t: "tail_ok rs rest" and path: "path = dir @ CHR ''/'' # pfx @ rest"
    and p: "p = base @ ''/'' @ pfx @ rest" and dd: "''..'' \<notin> set (tl (split_slash path))"
  proof (cases "\<exists>rest. path = ATLAS_HOME @ ''/'' @ pfx @ rest \<and> tail_ok rs rest")
    case True
    then obtain rest where "path = ATLAS_HOME @ ''/'' @ pfx @ rest" "tail_ok rs rest" by blast
    with assms show ?thesis by (intro that[of rest ATLAS_HOME]) (auto simp: validated_home_iff)
  next
    case False
    with assms validated_base_iff[OF False] show ?thesis by (auto intro: that[of _ base])
  qed
  have "split_slash path = split_slash dir @ split_slash (pfx @ rest)"
    using path by (simp add: split_slash_append)
  with dd have "''..'' \<notin> set (split_slash (pfx @ rest))"
    using in_tl_append[of "split_slash dir" "split_slash (pfx @ rest)"] by auto
  with p t show ?thesis by (intro that) auto
qed

lemma resolve_extends:
  assumes "tail_ok rs rest" and "''..'' \<notin> set (split_slash (pfx @ rest))"
  shows "prefix (resolve (base @ ''/'' @ pfx)) (resolve ((base @ ''/'' @ pfx) @ rest))"
proof (cases rest)
  case (Cons c r)
  with assms(1) have r: "rest = CHR ''/'' # r" by (auto simp: tail_ok_def)
  with assms(2) have "''..'' \<notin> set (split_slash r)" by (simp add: split_slash_append)
  with r show ?thesis
    by (simp only: resolve_def split_slash_append walk_append) (rule walk_no_dotdot)
qed simp

definition below_dir :: "string \<Rightarrow> string \<Rightarrow> bool" where
  "below_dir dir p \<longleftrightarrow> prefix (resolve dir) (resolve p)"

lemma validated_relative_below:
  assumes "CHR 0x00 \<notin> set path" and "char_at pfx 0 \<noteq> CHR ''/''"
    and "rebased_validated_common False base path pfx rs = Some p"
  shows "below_dir (base @ ''/'' @ pfx) p"
  using assms
  by (rule validated_relative_shape) (auto simp only: below_dir_def intro!: resolve_extends)


section \<open>The guard as an interface\<close>

text \<open>
  What the clients of the guard rely on: a name it lets through lies below a
  fixed directory.  \<open>guard\<close> is the check at one call site, \<open>below\<close> the set of
  names under that site's directory.
\<close>

locale path_guard =
  fixes guard :: "string \<Rightarrow> string option"
    and below :: "string \<Rightarrow> bool"
  assumes guard_below: "CHR 0x00 \<notin> set path \<Longrightarrow> guard path = Some p \<Longrightarrow> below p"
begin

lemma guard_list_below:
  assumes "\<forall>n \<in> set names. CHR 0x00 \<notin> set n" and "those (map guard names) = Some ps"
  shows "\<forall>p \<in> set ps. below p"
  using assms
proof (induction names arbitrary: ps)
  case (Cons n names)
  then show ?case by (fastforce split: option.splits intro: guard_below)
qed simp

lemma guard_opt_below:
  assumes "\<And>n. name = Some n \<Longrightarrow> CHR 0x00 \<notin> set n" and "Option.bind name guard = Some p"
  shows "below p"
  using assms by (cases name) (auto intro: guard_below)

end

lemma filename_guard:
  assumes "char_at pfx 0 \<noteq> CHR ''/''"
  shows "path_guard (\<lambda>path. rebased_validated_filename False base path pfx)
    (below_dir (base @ ''/'' @ pfx))"
  using validated_relative_below[OF _ assms]
  by unfold_locales (auto simp: rebased_validated_filename_def)

text \<open>The two directories the measurement code writes to and moves from.\<close>

interpretation data_out: path_guard
  "\<lambda>path. rebased_validated_filename False base path ATLAS_DATA_OUT_REL"
  "below_dir (base @ ''/'' @ ATLAS_DATA_OUT_REL)" for base
  by (rule filename_guard) code_simp

interpretation data_new: path_guard
  "\<lambda>path. rebased_validated_filename False base path ATLAS_DATA_NEW_REL"
  "below_dir (base @ ''/'' @ ATLAS_DATA_NEW_REL)" for base
  by (rule filename_guard) code_simp


section \<open>Properties\<close>

text \<open>
  C1: A file name is accepted exactly when it is \<open>/home/atlas\<close> or the base
  followed by the prefix (for an absolute prefix, the prefix itself), then a
  slash or, for directories, the end, and no component after the first slash is
  \<open>..\<close>; the name returned is the accepted one with \<open>/home/atlas\<close> replaced by the
  base.
\<close>

theorem rebased_validated_exact:
  assumes "CHR 0x00 \<notin> set path"
  shows "rebased_validated_common False base path pfx rs = Some p \<longleftrightarrow>
    ''..'' \<notin> set (tl (split_slash path)) \<and>
    (if char_at pfx 0 = CHR ''/''
     then (\<exists>rest. path = pfx @ rest \<and> tail_ok rs rest) \<and> p = path
     else (\<exists>rest. path = ATLAS_HOME @ ''/'' @ pfx @ rest \<and> tail_ok rs rest \<and>
                  p = base @ ''/'' @ pfx @ rest) \<or>
          (\<nexists>rest. path = ATLAS_HOME @ ''/'' @ pfx @ rest \<and> tail_ok rs rest) \<and>
          (\<exists>rest. path = base @ ''/'' @ pfx @ rest \<and> tail_ok rs rest) \<and> p = path)"
proof (cases "char_at pfx 0 = CHR ''/''")
  case True
  then show ?thesis using assms by (simp add: validated_absolute_iff)
next
  case False
  show ?thesis
  proof (cases "\<exists>rest. path = ATLAS_HOME @ ''/'' @ pfx @ rest \<and> tail_ok rs rest")
    case True
    then obtain rest where r: "path = ATLAS_HOME @ ''/'' @ pfx @ rest" "tail_ok rs rest" by blast
    with False show ?thesis using validated_home_iff[OF r assms False, of base p] by auto
  next
    case n: False
    with False show ?thesis by (simp only: validated_base_iff[OF n assms False]) auto
  qed
qed

text \<open>Every hypothesis of the characterisation holds for a name a measurement uses.\<close>

theorem rebased_validated_exact_witness:
  "CHR 0x00 \<notin> set ''/home/atlas/data/new/7'' \<and>
   rebased_validated_common False ''/spool'' ''/home/atlas/data/new/7'' ''data/new'' True
     = Some ''/spool/data/new/7''"
proof -
  have h: "CHR 0x00 \<notin> set ''/home/atlas/data/new/7''" by code_simp
  have c: "char_at ''data/new'' 0 \<noteq> CHR ''/''" by code_simp
  have n: "''..'' \<notin> set (tl (split_slash ''/home/atlas/data/new/7''))" by code_simp
  have e: "\<exists>rest. ''/home/atlas/data/new/7'' = ATLAS_HOME @ ''/'' @ ''data/new'' @ rest \<and>
      tail_ok True rest \<and> ''/spool/data/new/7'' = ''/spool'' @ ''/'' @ ''data/new'' @ rest"
    by (rule exI[of _ "''/7''"], intro conjI, code_simp, simp add: tail_ok_def, code_simp)
  show ?thesis
    by (simp only: rebased_validated_exact[OF h] if_not_P[OF c] n e h simp_thms)
qed

text \<open>
  C15: An accepted name, resolved component by component, lies below the
  directory the caller asked for: no accepted name escapes it through \<open>..\<close>,
  whatever the base, the prefix and the rest of the name are.
\<close>

theorem rebased_validated_confined:
  assumes "CHR 0x00 \<notin> set path"
    and "rebased_validated_common False base path pfx rs = Some p"
  shows "below_dir (if char_at pfx 0 = CHR ''/'' then pfx else base @ ''/'' @ pfx) p"
proof (cases "char_at pfx 0 = CHR ''/''")
  case True
  with assms show ?thesis
    using resolve_below[of rs _ pfx] by (auto simp: validated_absolute_iff below_dir_def)
next
  case False
  with assms show ?thesis using validated_relative_below by simp
qed

theorem rebased_validated_confined_witness:
  "below_dir ''/spool/data/new'' ''/spool/data/new/7'' \<and>
   rebased_validated_common False ''/spool'' ''/home/atlas/data/new/7'' ''data/new'' True
     = Some ''/spool/data/new/7''"
proof -
  have h: "CHR 0x00 \<notin> set ''/home/atlas/data/new/7''" by code_simp
  have r: "rebased_validated_common False ''/spool'' ''/home/atlas/data/new/7'' ''data/new'' True
     = Some ''/spool/data/new/7''"
    by code_simp
  have c: "char_at ''data/new'' 0 \<noteq> CHR ''/''" by code_simp
  show ?thesis
    using rebased_validated_confined[OF h r] r by (simp only: if_not_P[OF c] append.simps simp_thms)
qed

text \<open>An identifier passes exactly when all its characters are decimal digits.\<close>

lemma validate_atlas_id_iff: "validate_atlas_id s \<longleftrightarrow> set s \<subseteq> set ''0123456789''"
  by (simp only: validate_atlas_id_def cstring_simps)

text \<open>The environment is consulted once: later calls return the first answer.\<close>

lemma atlas_unsafe_cached:
  "atlas_unsafe env (-1) = (a, st) \<Longrightarrow> atlas_unsafe env' st = (a, st)"
  by (auto simp: atlas_unsafe_def Let_def split: if_splits)

end
