(* ===== verification/Eooqd.thy ===== *)
theory Eooqd
  imports Probe_Files Validate "HOL-Library.Multiset"
begin

text \<open>
  The daemon for one-off measurements, \<^verbatim>\<open>eperd/eooqd.c\<close>.  It takes over a queue
  file, runs the commands in it in at most ten slots, waits at barriers until
  all commands are done, and hands the results to \<^verbatim>\<open>httppost\<close>.

  Every function of the source that is called from the event loop is a function
  on the state of the daemon; the step relation below interleaves them with the
  outside world.  The lemmas show that the count of busy slots is right in every
  reachable state, that nothing is started while a barrier waits and a barrier
  is passed only when all earlier commands are done, that every byte of a queue
  file is read once and in order, and that the queue is emptied when commands end.
\<close>


section \<open>Model\<close>

definition SUFFIX :: string where "SUFFIX = ''.curr''"
definition OOQD_NEW_PREFIX_REL :: string where "OOQD_NEW_PREFIX_REL = ''data/new/ooq''"
definition OOQD_OUT_PREFIX_REL :: string where "OOQD_OUT_PREFIX_REL = ''data/out/ooq''"

record slot =
  cmdstate :: "nat option"
  bp :: string

text \<open>
  What happened, newest event first; the source has no such record.  It takes
  part in no decision.
\<close>

datatype event =
    Opened string
  | Line_read string
  | Closed
  | Started nat "string list"
  | Ended nat
  | Barrier_set "string option"
  | Barrier_passed "string option"

record ooqd =
  queue_file :: string
  curr_qfile :: string
  curr_file :: "string option"
  max_busy :: nat
  curr_busy :: int
  curr_index :: nat
  slots :: "slot list"
  barrier :: bool
  barrier_file :: "string option"
  world :: world
  history :: "event list"

text \<open>The parts of the environment that only this daemon has.\<close>

record ooqd_env = probe_env +
  queue_id :: string
  httppost :: "nat \<Rightarrow> string list \<Rightarrow> disk \<Rightarrow> int \<times> disk"

definition builtin_cmds :: "string list" where
  "builtin_cmds =
     [''evhttpget'', ''evntp'', ''evping'', ''evtdig'', ''evsslgetcert'', ''evtlsscan'', ''evtraceroute'']"

definition output_filename :: "ooqd_env \<Rightarrow> string" where
  "output_filename E = snprintf 80 (ATLAS_SPOOLDIR E @ ''/'' @ OOQD_OUT_PREFIX_REL @ queue_id E @ ''/ooq.out'')"

definition new_file :: "ooqd_env \<Rightarrow> string" where
  "new_file E = snprintf 80 (ATLAS_SPOOLDIR E @ ''/'' @ OOQD_NEW_PREFIX_REL @ queue_id E)"

definition out_file :: "ooqd_env \<Rightarrow> string" where
  "out_file E = snprintf 80 (ATLAS_SPOOLDIR E @ ''/'' @ OOQD_OUT_PREFIX_REL @ queue_id E @ ''/ooq'')"

definition new_slot_file :: "ooqd_env \<Rightarrow> nat \<Rightarrow> string" where
  "new_slot_file E i = snprintf 80 (ATLAS_SPOOLDIR E @ ''/'' @ OOQD_NEW_PREFIX_REL @ queue_id E @ ''.'' @ print_dec i)"

definition out_slot_file :: "ooqd_env \<Rightarrow> nat \<Rightarrow> string" where
  "out_slot_file E i = snprintf 80 (ATLAS_SPOOLDIR E @ ''/'' @ OOQD_OUT_PREFIX_REL @ queue_id E @ ''/'' @ print_dec i)"

text \<open>The name \<open>cmddone\<close> moves a result to; it has a slash before the queue identifier.\<close>

definition done_slot_file :: "ooqd_env \<Rightarrow> nat \<Rightarrow> string" where
  "done_slot_file E i =
     snprintf 80 (ATLAS_SPOOLDIR E @ ''/'' @ OOQD_OUT_PREFIX_REL @ ''/'' @ queue_id E @ ''/'' @ print_dec i)"

text \<open>The last word of the second line of the session file.\<close>

definition get_session_id :: "ooqd_env \<Rightarrow> world \<Rightarrow> string option" where
  "get_session_id E w =
     (case open_read (disk w) (ATLAS_RUNDIR E @ ''/status/con_session_id.txt'') of
        None \<Rightarrow> None
      | Some text \<Rightarrow>
          (case fgets_all 80 text of
             _ # second # _ \<Rightarrow>
               let s = chomp second in
               if CHR '' '' \<in> set s then Some (rev (takeWhile (\<lambda>c. c \<noteq> CHR '' '') (rev s))) else None
           | _ \<Rightarrow> None))"

text \<open>Results are moved to the directory that is posted, unless the last one there is still waiting.\<close>

definition grab_ooq :: "ooqd_env \<Rightarrow> bool \<Rightarrow> disk \<Rightarrow> bool \<times> disk" where
  "grab_ooq E need_post d =
     (if stat_file d (out_file E) = None then (True, d)
      else if stat_file d (new_file E) = None then
        (case rename_file d (new_file E) (out_file E) of Some d' \<Rightarrow> (True, d') | None \<Rightarrow> (need_post, d))
      else (need_post, d))"

definition grab_slot :: "ooqd_env \<Rightarrow> nat \<Rightarrow> bool \<times> disk \<Rightarrow> bool \<times> disk" where
  "grab_slot E i nd =
     (let d = snd nd in
      if stat_file d (out_slot_file E i) = None then (True, d)
      else if stat_file d (new_slot_file E i) \<noteq> None then nd
      else (True, try_rename d (new_slot_file E i) (out_slot_file E i)))"

definition grab_results :: "ooqd_env \<Rightarrow> nat \<Rightarrow> bool \<Rightarrow> disk \<Rightarrow> bool \<times> disk" where
  "grab_results E busy need_post d = fold (grab_slot E) [0..<busy] (grab_ooq E need_post d)"

definition post_argv :: "ooqd_env \<Rightarrow> int \<Rightarrow> string \<Rightarrow> string list" where
  "post_argv E pid session_id =
     [''httppost'', ''-A'', ''9015'', ''--delete-file'',
      ''--post-header'', ATLAS_RUNDIR E @ ''/status/p_to_c_report_header'',
      ''--post-dir'', snprintf 80 (ATLAS_SPOOLDIR E @ ''/'' @ OOQD_OUT_PREFIX_REL @ queue_id E),
      ''--post-footer'', ATLAS_RUNDIR E @ ''/status/con_session_id.txt'',
      ''-O'', ATLAS_SPOOLDIR E @ ''/data/new/ooq_sent.vol'',
      snprintf 200 (''http://127.0.0.1:8080/?PROBE_ID='' @ print_int pid @ ''&SESSION_ID='' @ session_id @ ''&SRC=oneoff'')]"

fun post_loop :: "ooqd_env \<Rightarrow> nat \<Rightarrow> nat \<Rightarrow> bool \<Rightarrow> world \<Rightarrow> world" where
  "post_loop E busy 0 force_post w = w"
| "post_loop E busy (Suc j) force_post w =
     (case grab_results E busy force_post (disk w) of
        (need_post, d) \<Rightarrow>
          let w1 = w\<lparr>disk := d\<rparr> in
          if \<not> need_post then w1
          else case get_probe_id E w1 of (pid, w2) \<Rightarrow>
            if pid = -1 then w2
            else case get_session_id E w2 of
              None \<Rightarrow> w2
            | Some session_id \<Rightarrow>
                (case httppost E (calls w2) (post_argv E pid session_id) (disk w2) of
                   (r, d') \<Rightarrow>
                     let w3 = (tick w2)\<lparr>disk := d'\<rparr> in
                     if r \<noteq> 0 then w3 else post_loop E busy j False w3))"

definition post_results :: "ooqd_env \<Rightarrow> nat \<Rightarrow> bool \<Rightarrow> world \<Rightarrow> world" where
  "post_results E busy force_post w = post_loop E busy 5 force_post w"

definition re_post :: "ooqd_env \<Rightarrow> ooqd \<Rightarrow> ooqd" where
  "re_post E s = s\<lparr>world := post_results E (max_busy s) False (world s)\<rparr>"

definition slot_of :: "ooqd \<Rightarrow> nat \<Rightarrow> nat option" where
  "slot_of s p = find (\<lambda>i. cmdstate (slots s ! i) = Some p) [0..<max_busy s]"

definition cmddone :: "ooqd_env \<Rightarrow> nat \<Rightarrow> ooqd \<Rightarrow> ooqd" where
  "cmddone E p s =
     (case slot_of s p of
        None \<Rightarrow> s
      | Some i \<Rightarrow>
          let r = delete_op (ops E (bp (slots s ! i))) (calls (world s)) p;
              s1 = s\<lparr>world := tick (world s)\<rparr>;
              s2 = (if r then s1\<lparr>slots := (slots s)[i := (slots s ! i)\<lparr>cmdstate := None\<rparr>],
                                 curr_busy := curr_busy s - 1, history := Ended i # history s\<rparr>
                    else s1);
              d = disk (world s2);
              d' = (if stat_file d (done_slot_file E i) = None then d
                    else try_rename d (new_slot_file E i) (done_slot_file E i));
              w = (world s2)\<lparr>disk := d'\<rparr> in
          s2\<lparr>world := (if curr_busy s2 = 0 then post_results E (max_busy s2) False w else w)\<rparr>)"

text \<open>The function of the scheduler with an output file that is always there.\<close>

definition check_resolv_conf2 :: "ooqd_env \<Rightarrow> string \<Rightarrow> world \<Rightarrow> world run" where
  "check_resolv_conf2 E out w = check_resolv_conf E (Some out) w"

text \<open>The label \<^verbatim>\<open>error\<close> of \<open>add_line\<close>, when no command was started.\<close>

definition report_failed :: "ooqd_env \<Rightarrow> string option \<Rightarrow> string \<Rightarrow> ooqd \<Rightarrow> ooqd run" where
  "report_failed E reason cmdline s =
     (let w = world s;
          text = cmd_result E w
            (case reason of None \<Rightarrow> [] | Some r \<Rightarrow> quoted ''reason'' @ '':'' @ quoted r @ '', '') cmdline in
      case append_result (new_file E) text w of
        Inl m \<Rightarrow> Inl m
      | Inr w1 \<Rightarrow>
          let d = disk w1;
              d' = (if stat_file d (out_file E) \<noteq> None \<and> stat_file d (new_file E) = None
                    then try_rename d (new_file E) (out_file E) else d) in
          Inr (s\<lparr>world := post_results E (max_busy s) False (w1\<lparr>disk := d'\<rparr>)\<rparr>))"

definition find_slot :: "ooqd \<Rightarrow> nat run" where
  "find_slot s =
     (case find (\<lambda>slot. cmdstate (slots s ! slot) = None)
             (map (\<lambda>skip. (curr_index s + skip) mod max_busy s) [1..<max_busy s + 1]) of
        Some slot \<Rightarrow> Inr slot
      | None \<Rightarrow> Inl ''no empty slot?'')"

definition start_cmd :: "ooqd_env \<Rightarrow> string \<Rightarrow> string \<Rightarrow> string list \<Rightarrow> ooqd \<Rightarrow> ooqd run" where
  "start_cmd E cmd cmdline argv s =
     (case find_slot s of
        Inl m \<Rightarrow> Inl m
      | Inr i \<Rightarrow>
          let argv' = argv @ [''-O'', new_slot_file E i];
              r = init_op (ops E cmd) (calls (world s)) argv';
              s1 = s\<lparr>world := tick (world s)\<rparr> in
          (case r of
             None \<Rightarrow> report_failed E None cmdline s1
           | Some p \<Rightarrow>
               let s2 = s1\<lparr>slots := (slots s)[i := \<lparr>cmdstate = Some p, bp = cmd\<rparr>],
                           curr_index := i, curr_busy := curr_busy s + 1,
                           history := Started i argv' # history s\<rparr>;
                   s3 = s2\<lparr>world := tick (world s2)\<rparr> in
               Inr (if start_op (ops E cmd) (calls (world s2)) p then cmddone E p s3 else s3)))"

definition run_cmdline :: "ooqd_env \<Rightarrow> string \<Rightarrow> ooqd \<Rightarrow> ooqd run" where
  "run_cmdline E cmdline s =
     (case find_builtin builtin_cmds cmdline of
        None \<Rightarrow> report_failed E (Some ''command not found'') cmdline s
      | Some cmd \<Rightarrow>
          (case split_cmdline cmdline of
             Inl reason \<Rightarrow> report_failed E (Some reason) cmdline s
           | Inr argv \<Rightarrow>
               if ATLAS_NARGS - 2 \<le> length argv then report_failed E (Some ''too many arguments'') cmdline s
               else start_cmd E cmd cmdline argv s))"

definition pass_barrier :: "ooqd \<Rightarrow> ooqd" where
  "pass_barrier s =
     (let d = disk (world s);
          d' = (case create_file d (barrier_file s) of Some d' \<Rightarrow> d' | None \<Rightarrow> d) in
      s\<lparr>world := (world s)\<lparr>disk := d'\<rparr>, barrier_file := None, barrier := False,
        history := Barrier_passed (barrier_file s) # history s\<rparr>)"

text \<open>The line that was read.\<close>

definition run_line :: "ooqd_env \<Rightarrow> string \<Rightarrow> ooqd \<Rightarrow> ooqd run" where
  "run_line E cmdline s =
     (if cmdline = ''post'' then Inr (s\<lparr>world := post_results E (max_busy s) True (world s)\<rparr>)
      else if prefix ''barrier'' cmdline \<and> char_at cmdline (length ''barrier'') = CHR '' '' then
        let fn = rebased_validated_filename (unsafe E) (ATLAS_SPOOLDIR E)
                   (dropWhile (\<lambda>c. c = CHR '' '') (drop (length ''barrier'') cmdline)) ATLAS_DATA_NEW_REL in
        Inr (s\<lparr>barrier := True, barrier_file := fn, history := Barrier_set fn # history s\<rparr>)
      else if cmdline = ''reload_resolv_conf'' then
        map_sum id (\<lambda>w. s\<lparr>world := w\<rparr>) (check_resolv_conf2 E (output_filename E) (world s))
      else run_cmdline E cmdline s)"

text \<open>\<open>add_line\<close> returns \<open>True\<close> for 0 and \<open>False\<close> for \<open>-1\<close>, when a barrier has to wait.\<close>

definition add_line :: "ooqd_env \<Rightarrow> ooqd \<Rightarrow> (bool \<times> ooqd) run" where
  "add_line E s =
     (if barrier s \<and> 0 < curr_busy s then Inr (False, s)
      else let s1 = (if barrier s then pass_barrier s else s) in
        case curr_file s1 of
          None \<Rightarrow> Inl ''read from NULL''
        | Some text \<Rightarrow>
            (case fgets 256 text of
               None \<Rightarrow> Inr (True, s1\<lparr>curr_file := None, history := Closed # history s1\<rparr>)
             | Some (buf, rest) \<Rightarrow>
                 map_sum id (Pair True)
                   (run_line E (chomp buf) (s1\<lparr>curr_file := Some rest, history := Line_read buf # history s1\<rparr>))))"


text \<open>Running a line leaves the unread rest of the file alone.\<close>

lemma cmddone_curr_file [simp]: "curr_file (cmddone E p s) = curr_file s"
  by (simp add: cmddone_def Let_def split: option.splits)

lemma report_failed_curr_file: "report_failed E r c s = Inr s' \<Longrightarrow> curr_file s' = curr_file s"
  by (auto simp: report_failed_def Let_def split: sum.splits)

lemma start_cmd_curr_file: "start_cmd E cmd c a s = Inr s' \<Longrightarrow> curr_file s' = curr_file s"
  by (auto simp: start_cmd_def Let_def dest: report_failed_curr_file split: sum.splits option.splits if_splits)

lemma run_cmdline_curr_file: "run_cmdline E c s = Inr s' \<Longrightarrow> curr_file s' = curr_file s"
  by (auto simp: run_cmdline_def dest: report_failed_curr_file start_cmd_curr_file
      split: sum.splits option.splits if_splits)

lemma run_line_curr_file: "run_line E c s = Inr s' \<Longrightarrow> curr_file s' = curr_file s"
  by (auto simp: run_line_def Let_def map_sum_def dest: run_cmdline_curr_file
      split: sum.splits option.splits if_splits)

definition unread :: "ooqd \<Rightarrow> nat" where
  "unread s = (case curr_file s of None \<Rightarrow> 0 | Some text \<Rightarrow> Suc (length text))"

lemma pass_barrier_curr_file [simp]: "curr_file (pass_barrier s) = curr_file s"
  by (simp add: pass_barrier_def Let_def)

lemma add_line_unread:
  assumes "add_line E s = Inr (True, s')"
  shows "unread s' < unread s"
proof -
  define s1 where "s1 = (if barrier s then pass_barrier s else s)"
  have c: "curr_file s1 = curr_file s" by (simp add: s1_def)
  obtain inp where t: "curr_file s1 = Some inp"
    using assms unfolding add_line_def s1_def[symmetric] by (auto simp: Let_def split: option.splits if_splits)
  show ?thesis
  proof (cases "fgets 256 inp")
    case None
    then show ?thesis
      using assms t c unfolding add_line_def s1_def[symmetric]
      by (auto simp: Let_def unread_def split: if_splits)
  next
    case (Some br)
    obtain buf rest where br: "br = (buf, rest)" by (cases br)
    have "run_line E (chomp buf) (s1\<lparr>curr_file := Some rest, history := Line_read buf # history s1\<rparr>) = Inr s'"
      using assms t Some br unfolding add_line_def s1_def[symmetric]
      by (auto simp: Let_def map_sum_def split: if_splits sum.splits)
    from run_line_curr_file[OF this] show ?thesis
      using fgets_SomeD[of 256 inp buf rest] Some br t c by (simp add: unread_def)
  qed
qed

function queue_loop :: "ooqd_env \<Rightarrow> ooqd \<Rightarrow> ooqd run" where
  "queue_loop E s =
     (if curr_file s = None \<or> int (max_busy s) \<le> curr_busy s then Inr s
      else case add_line E s of
        Inl m \<Rightarrow> Inl m
      | Inr (r, s') \<Rightarrow> if r then queue_loop E s' else Inr s')"
  by pat_completeness auto
termination
  by (relation "measure (\<lambda>(E, s). unread s)") (auto intro: add_line_unread)

declare queue_loop.simps [simp del]

text \<open>
  Taking over a queue file: \<open>None\<close> when there is none or an error ends the
  callback, so that the rest of it is skipped.
\<close>

definition open_queue :: "ooqd \<Rightarrow> bool \<times> ooqd" where
  "open_queue s =
     (let w = world s; d = disk w in
      if stat_file d (queue_file s) \<noteq> None then (False, s)
      else case unlink_file d (curr_qfile s) of
        (Some EOTHER, _) \<Rightarrow> (False, s)
      | (_, d1) \<Rightarrow>
          (case rename_file d1 (queue_file s) (curr_qfile s) of
             None \<Rightarrow> (False, s\<lparr>world := w\<lparr>disk := d1\<rparr>\<rparr>)
           | Some d2 \<Rightarrow>
               let s1 = s\<lparr>world := w\<lparr>disk := d2\<rparr>\<rparr> in
               (case open_read d2 (curr_qfile s) of
                  None \<Rightarrow> (False, s1)
                | Some text \<Rightarrow> (True, s1\<lparr>curr_file := Some text, history := Opened text # history s1\<rparr>))))"

definition checkQueue :: "ooqd_env \<Rightarrow> ooqd \<Rightarrow> ooqd run" where
  "checkQueue E s =
     (case (if curr_file s = None then open_queue s else (True, s)) of
        (False, s1) \<Rightarrow> Inr s1
      | (True, s1) \<Rightarrow>
          (case queue_loop E s1 of
             Inl m \<Rightarrow> Inl m
           | Inr s2 \<Rightarrow>
               map_sum id (\<lambda>w. s2\<lparr>world := w\<rparr>) (check_resolv_conf2 E (output_filename E) (world s2))))"

text \<open>The state after \<open>eooqd_main\<close> has read its arguments.\<close>

definition eooqd_init :: "string \<Rightarrow> world \<Rightarrow> ooqd run" where
  "eooqd_init file w =
     (if 256 < length file + length SUFFIX + 1 then Inl (''filename too long '' @ file)
      else Inr \<lparr>queue_file = file, curr_qfile = file @ SUFFIX, curr_file = None, max_busy = 10, curr_busy = 0,
                curr_index = 0, slots = replicate 10 \<lparr>cmdstate = None, bp = []\<rparr>, barrier = False,
                barrier_file = None, world = w, history = []\<rparr>)"

text \<open>
  One turn of the event loop: a timer fires, a command reports its end, or the
  world outside the daemon changes (time passes, a producer writes a queue
  file, a measurement writes its results).
\<close>

inductive step :: "ooqd_env \<Rightarrow> ooqd \<Rightarrow> ooqd \<Rightarrow> bool" for E :: ooqd_env where
  step_queue: "checkQueue E s = Inr s' \<Longrightarrow> step E s s'"
| step_done: "step E s (cmddone E p s)"
| step_post: "step E s (re_post E s)"
| step_world: "step E s (s\<lparr>world := w\<rparr>)"

inductive reachable :: "ooqd_env \<Rightarrow> ooqd \<Rightarrow> bool" for E :: ooqd_env where
  reach_init: "eooqd_init file w = Inr s \<Longrightarrow> reachable E s"
| reach_step: "reachable E s \<Longrightarrow> step E s s' \<Longrightarrow> reachable E s'"


section \<open>Invariants of the daemon\<close>

text \<open>
  What an invariant has to say about the few places where the daemon changes its
  own state.  That every callback then keeps it is proved once.
\<close>

definition runnable :: "ooqd_env \<Rightarrow> nat \<Rightarrow> string \<Rightarrow> string list \<Rightarrow> bool" where
  "runnable E i cmd argv \<longleftrightarrow> (\<exists>line args. CHR 0x00 \<notin> set line \<and> find_builtin builtin_cmds line = Some cmd \<and>
     split_cmdline line = Inr args \<and> length args < ATLAS_NARGS - 2 \<and> argv = args @ [''-O'', new_slot_file E i])"

definition validated :: "ooqd_env \<Rightarrow> string option \<Rightarrow> bool" where
  "validated E f \<longleftrightarrow> (\<exists>name. CHR 0x00 \<notin> set name \<and>
     f = rebased_validated_filename (unsafe E) (ATLAS_SPOOLDIR E) name ATLAS_DATA_NEW_REL)"

locale ooqd_invariant =
  fixes E :: ooqd_env and I :: "ooqd \<Rightarrow> bool"
  assumes world_I: "I s \<Longrightarrow> I (s\<lparr>world := w\<rparr>)"
    and start_I: "I s \<Longrightarrow> i < max_busy s \<Longrightarrow> cmdstate (slots s ! i) = None \<Longrightarrow> \<not> barrier s \<Longrightarrow> runnable E i c a \<Longrightarrow>
      I (s\<lparr>slots := (slots s)[i := \<lparr>cmdstate = Some p, bp = c\<rparr>], curr_index := i, curr_busy := curr_busy s + 1,
           history := Started i a # history s\<rparr>)"
    and end_I: "I s \<Longrightarrow> i < max_busy s \<Longrightarrow> cmdstate (slots s ! i) = Some p \<Longrightarrow>
      I (s\<lparr>slots := (slots s)[i := (slots s ! i)\<lparr>cmdstate := None\<rparr>], curr_busy := curr_busy s - 1,
           history := Ended i # history s\<rparr>)"
    and set_I: "I s \<Longrightarrow> \<not> barrier s \<Longrightarrow> validated E f \<Longrightarrow>
      I (s\<lparr>barrier := True, barrier_file := f, history := Barrier_set f # history s\<rparr>)"
    and pass_I: "I s \<Longrightarrow> barrier s \<Longrightarrow> curr_busy s \<le> 0 \<Longrightarrow>
      I (s\<lparr>barrier_file := None, barrier := False, history := Barrier_passed (barrier_file s) # history s\<rparr>)"
    and read_I: "I s \<Longrightarrow> curr_file s = Some t \<Longrightarrow> fgets 256 t = Some (l, r) \<Longrightarrow> \<not> barrier s \<Longrightarrow>
      I (s\<lparr>curr_file := Some r, history := Line_read l # history s\<rparr>)"
    and close_I: "I s \<Longrightarrow> curr_file s = Some [] \<Longrightarrow> I (s\<lparr>curr_file := None, history := Closed # history s\<rparr>)"
    and open_I: "I s \<Longrightarrow> curr_file s = None \<Longrightarrow> I (s\<lparr>curr_file := Some t, history := Opened t # history s\<rparr>)"
begin

lemma re_post_I: "I s \<Longrightarrow> I (re_post E s)"
  by (simp add: re_post_def world_I)

lemma cmddone_I:
  assumes "I s"
  shows "I (cmddone E p s)"
proof (cases "slot_of s p")
  case None
  then show ?thesis using assms by (simp add: cmddone_def)
next
  case (Some i)
  then have i: "i < max_busy s" "cmdstate (slots s ! i) = Some p"
    unfolding slot_of_def by (auto simp: find_Some_iff)
  show ?thesis
    using end_I[OF assms i] assms Some by (auto simp: cmddone_def Let_def intro!: world_I)
qed

lemma report_failed_I: "I s \<Longrightarrow> report_failed E r c s = Inr s' \<Longrightarrow> I s'"
  by (auto simp: report_failed_def Let_def intro!: world_I split: sum.splits)

lemma start_cmd_I:
  assumes "I s" "\<not> barrier s" "start_cmd E cmd c a s = Inr s'"
    and run: "\<And>i. runnable E i cmd (a @ [''-O'', new_slot_file E i])"
  shows "I s'"
proof -
  obtain i where i: "find_slot s = Inr i" using assms(3) by (auto simp: start_cmd_def split: sum.splits)
  then have e: "i < max_busy s" "cmdstate (slots s ! i) = None"
    by (auto simp: find_slot_def find_Some_iff split: option.splits) (metis mod_less_divisor length_greater_0_conv
      length_map length_upt less_nat_zero_code nat_neq_iff zero_less_diff diff_Suc_1)
  show ?thesis
  proof (cases "init_op (ops E cmd) (calls (world s)) (a @ [''-O'', new_slot_file E i])")
    case None
    then show ?thesis
      using assms i by (auto simp: start_cmd_def Let_def intro: report_failed_I world_I)
  next
    case (Some p)
    define t where "t = s\<lparr>slots := (slots s)[i := \<lparr>cmdstate = Some p, bp = cmd\<rparr>], curr_index := i,
      curr_busy := curr_busy s + 1, history := Started i (a @ [''-O'', new_slot_file E i]) # history s\<rparr>"
    have "I t" unfolding t_def using start_I[OF assms(1) e assms(2) run] .
    then have "I (t\<lparr>world := w\<rparr>)" "I (cmddone E p (t\<lparr>world := w\<rparr>))" for w using world_I cmddone_I by blast+
    moreover have "\<exists>w. s' = t\<lparr>world := w\<rparr> \<or> s' = cmddone E p (t\<lparr>world := w\<rparr>)"
      using assms(3) i Some unfolding t_def by (auto simp: start_cmd_def Let_def split: if_splits)
    ultimately show ?thesis by blast
  qed
qed

lemma run_cmdline_I:
  assumes "I s" "\<not> barrier s" "CHR 0x00 \<notin> set c" "run_cmdline E c s = Inr s'"
  shows "I s'"
proof (cases "\<exists>cmd args. find_builtin builtin_cmds c = Some cmd \<and> split_cmdline c = Inr args \<and>
    length args < ATLAS_NARGS - 2")
  case True
  then obtain cmd args where a: "find_builtin builtin_cmds c = Some cmd" "split_cmdline c = Inr args"
    "length args < ATLAS_NARGS - 2" by blast
  then have "runnable E i cmd (args @ [''-O'', new_slot_file E i])" for i
    using assms(3) unfolding runnable_def by blast
  moreover have "start_cmd E cmd c args s = Inr s'" using assms(4) a by (simp add: run_cmdline_def)
  ultimately show ?thesis using start_cmd_I assms(1,2) by blast
next
  case False
  then have "\<exists>r. report_failed E r c s = Inr s'"
    using assms(4) unfolding run_cmdline_def by (auto split: option.splits sum.splits if_splits)
  then show ?thesis using report_failed_I assms(1) by blast
qed

lemma run_line_I:
  assumes "I s" "\<not> barrier s" "CHR 0x00 \<notin> set c" "run_line E c s = Inr s'"
  shows "I s'"
proof -
  have "CHR 0x00 \<notin> set (dropWhile (\<lambda>c. c = CHR '' '') (drop n c))" for n
    using assms(3) by (auto dest: set_dropWhileD in_set_dropD)
  then have "validated E (rebased_validated_filename (unsafe E) (ATLAS_SPOOLDIR E)
      (dropWhile (\<lambda>c. c = CHR '' '') (drop n c)) ATLAS_DATA_NEW_REL)" for n
    unfolding validated_def by blast
  then show ?thesis
    using assms set_I[OF assms(1,2)]
    by (auto simp: run_line_def Let_def map_sum_def intro: world_I run_cmdline_I split: sum.splits if_splits)
qed

lemma pass_barrier_I: "I s \<Longrightarrow> barrier s \<Longrightarrow> curr_busy s \<le> 0 \<Longrightarrow> I (pass_barrier s)"
  using pass_I[of "s\<lparr>world := w\<rparr>" for w] world_I[of s] by (simp add: pass_barrier_def Let_def)

lemma add_line_I:
  assumes "I s" "add_line E s = Inr (r, s')"
  shows "I s'"
proof (cases "barrier s \<and> 0 < curr_busy s")
  case True
  then show ?thesis using assms by (simp add: add_line_def)
next
  case False
  define s1 where "s1 = (if barrier s then pass_barrier s else s)"
  have s1: "I s1" "\<not> barrier s1"
    using False assms(1) pass_barrier_I unfolding s1_def by (auto simp: pass_barrier_def Let_def)
  obtain inp where t: "curr_file s1 = Some inp"
    using assms False unfolding add_line_def s1_def[symmetric] by (auto simp: Let_def split: option.splits if_splits)
  show ?thesis
  proof (cases "fgets 256 inp")
    case None
    then have "inp = []" by (auto simp: fgets_def Let_def split: if_splits)
    moreover have "s' = s1\<lparr>curr_file := None, history := Closed # history s1\<rparr>"
      using None assms(2) False t unfolding add_line_def s1_def[symmetric] by (auto simp: Let_def)
    ultimately show ?thesis using close_I[of s1] s1 t by simp
  next
    case (Some br)
    obtain buf rest where br: "br = (buf, rest)" by (cases br)
    let ?s2 = "s1\<lparr>curr_file := Some rest, history := Line_read buf # history s1\<rparr>"
    have "I ?s2" using read_I[OF s1(1) t _ s1(2)] Some br by simp
    moreover have "run_line E (chomp buf) ?s2 = Inr s'"
      using assms(2) False t Some br unfolding add_line_def s1_def[symmetric]
      by (auto simp: Let_def map_sum_def split: sum.splits)
    ultimately show ?thesis using run_line_I[of ?s2 "chomp buf"] s1(2) by simp
  qed
qed

lemma queue_loop_I: "I s \<Longrightarrow> queue_loop E s = Inr s' \<Longrightarrow> I s'"
proof (induction E \<equiv> E s rule: queue_loop.induct)
  case (1 s)
  show ?case
  proof (cases "curr_file s = None \<or> int (max_busy s) \<le> curr_busy s")
    case True
    then show ?thesis using 1(2,3) by (simp add: queue_loop.simps)
  next
    case False
    then obtain r s2 where a: "add_line E s = Inr (r, s2)" and q: "(if r then queue_loop E s2 else Inr s2) = Inr s'"
      using 1(3) by (subst (asm) queue_loop.simps) (auto split: sum.splits prod.splits)
    have "I s2" using add_line_I[OF 1(2) a] .
    then show ?thesis using 1(1)[OF False a refl] q by (cases r) auto
  qed
qed

lemma open_queue_I: "I s \<Longrightarrow> curr_file s = None \<Longrightarrow> I (snd (open_queue s))"
  using open_I[of "s\<lparr>world := w\<rparr>" for w] world_I[of s]
  by (auto simp: open_queue_def Let_def split: option.splits errno.splits prod.splits)

lemma checkQueue_I:
  assumes "I s" "checkQueue E s = Inr s'"
  shows "I s'"
proof -
  obtain b s1 where o: "(if curr_file s = None then open_queue s else (True, s)) = (b, s1)" by fastforce
  then have "I s1" using assms(1) open_queue_I[of s] by (auto split: if_splits)
  then show ?thesis
    using assms(2) queue_loop_I[of s1] unfolding checkQueue_def o
    by (cases b) (auto simp: map_sum_def intro!: world_I split: sum.splits)
qed

lemma step_I: "step E s s' \<Longrightarrow> I s \<Longrightarrow> I s'"
  by (induction rule: step.induct) (auto intro: checkQueue_I cmddone_I re_post_I world_I)

lemma reachable_I:
  assumes "reachable E s" "\<And>f w s. eooqd_init f w = Inr s \<Longrightarrow> I s"
  shows "I s"
  using assms by (induction rule: reachable.induct) (auto intro: step_I)

end



text \<open>The count of busy slots.\<close>

definition occupied :: "slot list \<Rightarrow> nat" where
  "occupied xs = length (filter (\<lambda>x. cmdstate x \<noteq> None) xs)"

definition slots_ok :: "ooqd \<Rightarrow> bool" where
  "slots_ok s \<longleftrightarrow> max_busy s = 10 \<and> length (slots s) = 10 \<and> curr_index s < 10 \<and>
     curr_busy s = int (occupied (slots s))"

lemma filter_update:
  "i < length xs \<Longrightarrow> int (length (filter P (xs[i := y]))) = int (length (filter P xs)) + of_bool (P y) - of_bool (P (xs ! i))"
proof (induction xs arbitrary: i)
  case (Cons x xs)
  then show ?case by (cases i) auto
qed simp

lemma occupied_le: "occupied xs \<le> length xs"
  by (simp add: occupied_def)

interpretation slots: ooqd_invariant E slots_ok for E
  by unfold_locales (auto simp: slots_ok_def occupied_def filter_update)

text \<open>What the history says: commands running, a barrier read and not yet passed.\<close>

fun running :: "event list \<Rightarrow> int" where
  "running [] = 0"
| "running (e # h) = running h + (case e of Started _ _ \<Rightarrow> 1 | Ended _ \<Rightarrow> -1 | _ \<Rightarrow> 0)"

fun barrier_open :: "event list \<Rightarrow> bool" where
  "barrier_open [] = False"
| "barrier_open (e # h) = (case e of Barrier_set _ \<Rightarrow> True | Barrier_passed _ \<Rightarrow> False | _ \<Rightarrow> barrier_open h)"

definition in_order :: "event list \<Rightarrow> event \<Rightarrow> bool" where
  "in_order earlier e \<longleftrightarrow>
     (case e of
        Started i argv \<Rightarrow> \<not> barrier_open earlier \<and> running earlier < 10
      | Line_read _ \<Rightarrow> \<not> barrier_open earlier
      | Barrier_set f \<Rightarrow> \<not> barrier_open earlier
      | Barrier_passed f \<Rightarrow> barrier_open earlier \<and> running earlier = 0
      | _ \<Rightarrow> True)"

fun all_in_order :: "event list \<Rightarrow> bool" where
  "all_in_order [] = True"
| "all_in_order (e # h) = (in_order h e \<and> all_in_order h)"

definition history_ok :: "ooqd \<Rightarrow> bool" where
  "history_ok s \<longleftrightarrow> slots_ok s \<and> running (history s) = curr_busy s \<and> barrier_open (history s) = barrier s \<and>
     all_in_order (history s)"

lemma free_slot_busy: "slots_ok s \<Longrightarrow> i < 10 \<Longrightarrow> cmdstate (slots s ! i) = None \<Longrightarrow> curr_busy s < 10"
proof -
  assume a: "slots_ok s" "i < 10" "cmdstate (slots s ! i) = None"
  have "int (occupied ((slots s)[i := \<lparr>cmdstate = Some 0, bp = []\<rparr>])) = int (occupied (slots s)) + 1"
    using a by (simp add: occupied_def filter_update slots_ok_def)
  then show "curr_busy s < 10"
    using occupied_le[of "(slots s)[i := \<lparr>cmdstate = Some 0, bp = []\<rparr>]"] a(1) by (simp add: slots_ok_def)
qed

interpretation hist: ooqd_invariant E history_ok for E
proof unfold_locales
  fix s i p c a
  assume "history_ok s" "i < max_busy s" "cmdstate (slots s ! i) = None" "\<not> barrier s" "runnable E i c a"
  then show "history_ok (s\<lparr>slots := (slots s)[i := \<lparr>cmdstate = Some p, bp = c\<rparr>], curr_index := i,
      curr_busy := curr_busy s + 1, history := Started i a # history s\<rparr>)"
    using slots.start_I[of s i E c a p] free_slot_busy[of s i]
    by (auto simp: history_ok_def in_order_def slots_ok_def)
next
  fix s i p
  assume "history_ok s" "i < max_busy s" "cmdstate (slots s ! i) = Some p"
  then show "history_ok (s\<lparr>slots := (slots s)[i := (slots s ! i)\<lparr>cmdstate := None\<rparr>], curr_busy := curr_busy s - 1,
      history := Ended i # history s\<rparr>)"
    using slots.end_I[of s i p] by (auto simp: history_ok_def in_order_def)
next
  fix s :: ooqd
  assume "history_ok s" "barrier s" "curr_busy s \<le> 0"
  then show "history_ok (s\<lparr>barrier_file := None, barrier := False,
      history := Barrier_passed (barrier_file s) # history s\<rparr>)"
    by (auto simp: history_ok_def in_order_def slots_ok_def)
qed (auto simp: history_ok_def in_order_def slots_ok_def)



text \<open>The lines read from the queue file opened last, and that file.\<close>

fun reads :: "event list \<Rightarrow> string list" where
  "reads [] = []"
| "reads (e # h) = (case e of Opened t \<Rightarrow> [] | Line_read l \<Rightarrow> reads h @ [l] | _ \<Rightarrow> reads h)"

fun queue_text :: "event list \<Rightarrow> string" where
  "queue_text [] = []"
| "queue_text (e # h) = (case e of Opened t \<Rightarrow> t | _ \<Rightarrow> queue_text h)"

fun closed_at_end :: "event list \<Rightarrow> bool" where
  "closed_at_end [] = True"
| "closed_at_end (e # h) = ((e = Closed \<longrightarrow> reads h = fgets_all 256 (queue_text h)) \<and> closed_at_end h)"

definition reading_ok :: "ooqd \<Rightarrow> bool" where
  "reading_ok s \<longleftrightarrow> closed_at_end (history s) \<and>
     reads (history s) @ (case curr_file s of None \<Rightarrow> [] | Some rest \<Rightarrow> fgets_all 256 rest) =
       fgets_all 256 (queue_text (history s))"

lemma fgets_all_Nil: "fgets_all 256 [] = []"
  by (simp add: fgets_all.simps fgets_def)

interpretation reading: ooqd_invariant E reading_ok for E
proof unfold_locales
  fix s :: ooqd and t l r
  assume "reading_ok s" "curr_file s = Some t" "fgets 256 t = Some (l, r)"
  then show "reading_ok (s\<lparr>curr_file := Some r, history := Line_read l # history s\<rparr>)"
    by (simp add: reading_ok_def fgets_all.simps[of 256 t])
qed (auto simp: reading_ok_def fgets_all_Nil)

text \<open>The commands that were started.\<close>

definition commands_ok :: "ooqd_env \<Rightarrow> ooqd \<Rightarrow> bool" where
  "commands_ok E s \<longleftrightarrow> (\<forall>i argv. Started i argv \<in> set (history s) \<longrightarrow> i < 10 \<and> (\<exists>cmd. runnable E i cmd argv))"

interpretation commands: ooqd_invariant E "\<lambda>s. slots_ok s \<and> commands_ok E s" for E
proof unfold_locales
  fix s i p c a
  assume "slots_ok s \<and> commands_ok E s" "i < max_busy s" "cmdstate (slots s ! i) = None" "\<not> barrier s" "runnable E i c a"
  then show "slots_ok (s\<lparr>slots := (slots s)[i := \<lparr>cmdstate = Some p, bp = c\<rparr>], curr_index := i,
      curr_busy := curr_busy s + 1, history := Started i a # history s\<rparr>) \<and>
    commands_ok E (s\<lparr>slots := (slots s)[i := \<lparr>cmdstate = Some p, bp = c\<rparr>], curr_index := i,
      curr_busy := curr_busy s + 1, history := Started i a # history s\<rparr>)"
    using slots.start_I[of s i E c a p] by (auto simp: commands_ok_def slots_ok_def)
next
  fix s i p
  assume "slots_ok s \<and> commands_ok E s" "i < max_busy s" "cmdstate (slots s ! i) = Some p"
  then show "slots_ok (s\<lparr>slots := (slots s)[i := (slots s ! i)\<lparr>cmdstate := None\<rparr>], curr_busy := curr_busy s - 1,
      history := Ended i # history s\<rparr>) \<and>
    commands_ok E (s\<lparr>slots := (slots s)[i := (slots s ! i)\<lparr>cmdstate := None\<rparr>], curr_busy := curr_busy s - 1,
      history := Ended i # history s\<rparr>)"
    using slots.end_I[of s i p] by (auto simp: commands_ok_def)
qed (auto simp: commands_ok_def slots_ok_def)

text \<open>The files barriers create.\<close>

definition barriers_ok :: "ooqd_env \<Rightarrow> ooqd \<Rightarrow> bool" where
  "barriers_ok E s \<longleftrightarrow> (barrier s \<longrightarrow> validated E (barrier_file s)) \<and>
     (\<forall>f. Barrier_passed f \<in> set (history s) \<longrightarrow> validated E f)"

interpretation barriers: ooqd_invariant E "barriers_ok E" for E
  by unfold_locales (auto simp: barriers_ok_def)

lemma init_ok:
  "eooqd_init f w = Inr s \<Longrightarrow> slots_ok s" "eooqd_init f w = Inr s \<Longrightarrow> history_ok s"
  "eooqd_init f w = Inr s \<Longrightarrow> reading_ok s" "eooqd_init f w = Inr s \<Longrightarrow> commands_ok E s"
  "eooqd_init f w = Inr s \<Longrightarrow> barriers_ok E s"
  by (auto simp: barriers_ok_def eooqd_init_def slots_ok_def history_ok_def reading_ok_def commands_ok_def occupied_def fgets_all_Nil
      split: if_splits)

lemma reachable_ok:
  assumes "reachable E s"
  shows "slots_ok s" "history_ok s" "reading_ok s" "commands_ok E s" "barriers_ok E s"
  using slots.reachable_I[OF assms] hist.reachable_I[OF assms] reading.reachable_I[OF assms]
    commands.reachable_I[OF assms] barriers.reachable_I[OF assms] init_ok by blast+



section \<open>When the daemon exits\<close>

lemma free_slot:
  assumes "slots_ok s" "curr_busy s < 10"
  shows "\<exists>i. find_slot s = Inr i"
proof -
  have "\<exists>j<10. cmdstate (slots s ! j) = None"
  proof (rule ccontr)
    assume "\<not> ?thesis"
    then have "filter (\<lambda>x. cmdstate x \<noteq> None) (slots s) = slots s"
      using assms(1) by (auto simp: slots_ok_def filter_id_conv in_set_conv_nth)
    then show False using assms by (simp add: slots_ok_def occupied_def)
  qed
  then obtain j where j: "j < 10" "cmdstate (slots s ! j) = None" by blast
  define k where "k = (if curr_index s < j then j - curr_index s else j + 10 - curr_index s)"
  have k: "1 \<le> k" "k < max_busy s + 1" "j = (curr_index s + k) mod max_busy s"
    using j assms(1) by (auto simp: k_def slots_ok_def mod_if)
  define cands where "cands = map (\<lambda>skip. (curr_index s + skip) mod max_busy s) [1..<max_busy s + 1]"
  have "j \<in> set cands" unfolding cands_def set_map using k by (intro image_eqI[of _ _ k]) (simp_all only: set_upt atLeastLessThan_iff)
  then have "find (\<lambda>slot. cmdstate (slots s ! slot) = None) cands \<noteq> None"
    unfolding find_None_iff using j(2) by blast
  then show ?thesis unfolding find_slot_def cands_def[symmetric] by (auto split: option.splits)
qed

definition append_failure :: "string \<Rightarrow> bool" where
  "append_failure m \<longleftrightarrow> (\<exists>f. m = ''unable to append to '' @ f)"

lemma append_result_exit: "append_result f t w = Inl m \<Longrightarrow> append_failure m"
  by (auto simp: append_result_def append_failure_def split: option.splits)

lemma report_failed_exit: "report_failed E r c s = Inl m \<Longrightarrow> append_failure m"
  by (auto simp: report_failed_def Let_def dest: append_result_exit split: sum.splits)

lemma check_resolv_conf_exit: "check_resolv_conf2 E f w = Inl m \<Longrightarrow> append_failure m"
  by (auto simp: check_resolv_conf2_def check_resolv_conf_def Let_def map_sum_def dest: append_result_exit
      split: option.splits sum.splits if_splits)

lemma start_cmd_exit:
  assumes "start_cmd E cmd c a s = Inl m" "slots_ok s" "curr_busy s < 10"
  shows "append_failure m"
proof -
  obtain i where "find_slot s = Inr i" using free_slot[OF assms(2,3)] by blast
  then show ?thesis
    using assms(1) by (auto simp: start_cmd_def Let_def dest: report_failed_exit split: option.splits)
qed

lemma run_line_exit:
  assumes "run_line E c s = Inl m" "slots_ok s" "curr_busy s < 10"
  shows "append_failure m"
  using assms unfolding run_line_def run_cmdline_def
  by (auto simp: Let_def map_sum_def dest: report_failed_exit check_resolv_conf_exit start_cmd_exit
      split: sum.splits option.splits if_splits)

lemma add_line_exit:
  assumes "add_line E s = Inl m" "slots_ok s" "curr_busy s < 10" "curr_file s \<noteq> None"
  shows "append_failure m"
proof -
  define s1 where "s1 = (if barrier s then pass_barrier s else s)"
  obtain inp where t: "curr_file s1 = Some inp" using assms(4) by (auto simp: s1_def)
  obtain buf rest where f: "fgets 256 inp = Some (buf, rest)"
    using assms(1) t unfolding add_line_def s1_def[symmetric] by (auto simp: Let_def split: option.splits if_splits)
  have "slots_ok s1" "curr_busy s1 < 10"
    using assms(2,3) by (auto simp: s1_def pass_barrier_def Let_def slots_ok_def)
  moreover have "run_line E (chomp buf) (s1\<lparr>curr_file := Some rest, history := Line_read buf # history s1\<rparr>) = Inl m"
    using assms(1) t f unfolding add_line_def s1_def[symmetric] by (auto simp: Let_def map_sum_def split: sum.splits if_splits)
  ultimately show ?thesis using run_line_exit by (fastforce simp: slots_ok_def)
qed

lemma queue_loop_exit: "queue_loop E s = Inl m \<Longrightarrow> slots_ok s \<Longrightarrow> append_failure m"
proof (induction E s rule: queue_loop.induct)
  case (1 E s)
  have go: "\<not> (curr_file s = None \<or> int (max_busy s) \<le> curr_busy s)"
    using 1(2) by (subst (asm) queue_loop.simps) (auto split: if_splits)
  show ?case
  proof (cases "add_line E s")
    case (Inl m')
    then have "m' = m" using 1(2) go by (simp add: queue_loop.simps)
    then show ?thesis using add_line_exit Inl go 1(3) by (auto simp: slots_ok_def)
  next
    case (Inr rs)
    obtain r s2 where rs: "rs = (r, s2)" by (cases rs)
    then show ?thesis
      using 1 go Inr slots.add_line_I[OF 1(3), of E r s2]
      by (subst (asm) (2) queue_loop.simps) (auto split: if_splits)
  qed
qed

lemma checkQueue_exit:
  assumes "slots_ok s" "checkQueue E s = Inl m"
  shows "append_failure m"
proof -
  obtain b s1 where o: "(if curr_file s = None then open_queue s else (True, s)) = (b, s1)" by fastforce
  then have "slots_ok s1" using assms(1) slots.open_queue_I[of s] by (auto split: if_splits)
  then show ?thesis
    using assms(2) unfolding checkQueue_def o
    by (cases b) (auto simp: map_sum_def dest: queue_loop_exit check_resolv_conf_exit split: sum.splits)
qed



section \<open>Progress\<close>

text \<open>The loop stops only when the file is read, no slot is free or a barrier waits for a command.\<close>

lemma add_line_wait: "add_line E s = Inr (False, s') \<Longrightarrow> s' = s \<and> barrier s \<and> 0 < curr_busy s"
  unfolding add_line_def by (auto simp: Let_def map_sum_def split: if_splits option.splits sum.splits)

lemma queue_loop_stops:
  "queue_loop E s = Inr s' \<Longrightarrow>
     curr_file s' = None \<or> int (max_busy s') \<le> curr_busy s' \<or> barrier s' \<and> 0 < curr_busy s'"
proof (induction E s rule: queue_loop.induct)
  case (1 E s)
  show ?case
  proof (cases "curr_file s = None \<or> int (max_busy s) \<le> curr_busy s")
    case True
    then show ?thesis using 1(2) by (auto simp: queue_loop.simps)
  next
    case False
    then obtain r s2 where a: "add_line E s = Inr (r, s2)" and q: "(if r then queue_loop E s2 else Inr s2) = Inr s'"
      using 1(2) by (subst (asm) queue_loop.simps) (auto split: sum.splits prod.splits)
    then show ?thesis using 1(1)[OF False a refl] add_line_wait[of E s s2] by (cases r) auto
  qed
qed















section \<open>Moving results\<close>

text \<open>One disk is another with files renamed: none is lost and none is overwritten.\<close>

definition renamed :: "disk \<Rightarrow> disk \<Rightarrow> bool" where
  "renamed d d' \<longleftrightarrow> (\<exists>m. inj_on m (dom (files d)) \<and> dom (files d') = m ` dom (files d) \<and>
     (\<forall>f\<in>dom (files d). files d' (m f) = files d f))"

lemma renamed_refl [simp]: "renamed d d"
  unfolding renamed_def by (intro exI[of _ id]) auto

lemma renamed_trans:
  assumes "renamed d d'" "renamed d' d''"
  shows "renamed d d''"
proof -
  obtain m where m: "inj_on m (dom (files d))" "dom (files d') = m ` dom (files d)"
      "\<forall>f\<in>dom (files d). files d' (m f) = files d f"
    using assms(1)[unfolded renamed_def] by (elim exE conjE)
  obtain m' where m': "inj_on m' (dom (files d'))" "dom (files d'') = m' ` dom (files d')"
      "\<forall>f\<in>dom (files d'). files d'' (m' f) = files d' f"
    using assms(2)[unfolded renamed_def] by (elim exE conjE)
  have "inj_on (m' \<circ> m) (dom (files d))" using m(1,2) m'(1) by (simp add: comp_inj_on)
  moreover have "dom (files d'') = (m' \<circ> m) ` dom (files d)" using m(2) m'(2) by (simp add: image_comp)
  moreover have "\<forall>f\<in>dom (files d). files d'' ((m' \<circ> m) f) = files d f" using m(2,3) m'(3) by auto
  ultimately show ?thesis unfolding renamed_def by (intro exI[of _ "m' \<circ> m"] conjI)
qed

lemma renamed_rename:
  assumes "stat_file d b \<noteq> None" "rename_file d a b = Some d'"
  shows "renamed d d'"
proof -
  have b: "files d (canon b) = None" and a: "files d (canon a) \<noteq> None"
    and d': "files d' = (files d)(canon a := None, canon b := files d (canon a))"
    using assms by (auto simp: rename_file_def stat_file_def split: if_splits)
  define m where "m = (\<lambda>f. if f = canon a then canon b else f)"
  have "inj_on m (dom (files d))" using b by (auto simp: m_def inj_on_def)
  moreover have "dom (files d') = m ` dom (files d)"
    using a b unfolding d' m_def by (auto simp: image_iff split: if_splits)
  moreover have "\<forall>f\<in>dom (files d). files d' (m f) = files d f" using b unfolding d' m_def by auto
  ultimately show ?thesis unfolding renamed_def by (intro exI[of _ m] conjI)
qed

lemma renamed_try: "stat_file d b \<noteq> None \<Longrightarrow> renamed d (try_rename d a b)"
  by (auto simp: try_rename_def intro: renamed_rename split: option.splits)

lemma renamed_slots: "renamed (snd nd) (snd (fold (grab_slot E) is nd))"
proof (induction "is" arbitrary: nd)
  case (Cons i "is")
  have "renamed (snd nd) (snd (grab_slot E i nd))"
    by (auto simp: grab_slot_def Let_def intro: renamed_try)
  then show ?case using Cons renamed_trans by fastforce
qed simp

text \<open>
  Collecting results for a post only renames files: no file is lost, none is
  overwritten, and no content changes.
\<close>

theorem grab_results_renames: "renamed d (snd (grab_results E busy need_post d))"
proof -
  have "renamed d (snd (grab_ooq E need_post d))"
    by (auto simp: grab_ooq_def intro: renamed_rename split: option.splits)
  then show ?thesis unfolding grab_results_def using renamed_slots renamed_trans by blast
qed


section \<open>The first argument of a command\<close>




section \<open>Properties\<close>

text \<open>A daemon with commands that end at once or later, and a queue of two lines.\<close>

definition sample_env :: "bool \<Rightarrow> ooqd_env" where
  "sample_env at_once = \<lparr>ATLAS_SPOOLDIR = ''/s'', ATLAS_RUNDIR = ''/r'', ATLAS_STATUS = ''/r'', unsafe = False, atlas_id = None,
     version_json = [], resolv_conf_parse = (\<lambda>_. 0),
     ops = (\<lambda>_. \<lparr>init_op = (\<lambda>_ _. Some 1), start_op = (\<lambda>_ _. at_once), delete_op = (\<lambda>_ _. True)\<rparr>),
     queue_id = [], httppost = (\<lambda>_ _ d. (1, d))\<rparr>"

definition sample_queue :: string where
  "sample_queue = ''evping a'' @ [CHR 0x0a] @ ''barrier /s/data/new/b'' @ [CHR 0x0a]"

definition sample_world :: world where
  "sample_world = \<lparr>disk = \<lparr>files = [''q'' \<mapsto> sample_queue], denied = (\<lambda>_. False)\<rparr>, now = 0, now_usec = 0, resolv_mtime = None,
     last_time = -1, probe_id = -1, calls = 0\<rparr>"

definition sample_state :: ooqd where
  "sample_state = \<lparr>queue_file = ''q'', curr_qfile = ''q.curr'', curr_file = None, max_busy = 10, curr_busy = 0,
     curr_index = 0, slots = replicate 10 \<lparr>cmdstate = None, bp = []\<rparr>, barrier = False,
     barrier_file = None, world = sample_world, history = []\<rparr>"

lemma sample_run:
  "map_sum id history (checkQueue (sample_env True) sample_state) =
     Inr [Closed, Barrier_passed (Some ''/s/data/new/b''), Barrier_set (Some ''/s/data/new/b''),
          Line_read (''barrier /s/data/new/b'' @ [CHR 0x0a]), Ended 1,
          Started 1 [''evping'', ''a'', ''-O'', ''/s/data/new/ooq.1''],
          Line_read (''evping a'' @ [CHR 0x0a]), Opened sample_queue]"
  by code_simp


lemma sample_init: "reachable (sample_env b) sample_state"
  by (rule reach_init[of "''q''" sample_world]) (simp add: eooqd_init_def sample_state_def SUFFIX_def)

lemma sample_reachable: "\<exists>s. reachable (sample_env True) s \<and> checkQueue (sample_env True) sample_state = Inr s"
proof -
  obtain s where "checkQueue (sample_env True) sample_state = Inr s"
    using sample_run by (cases "checkQueue (sample_env True) sample_state") auto
  then show ?thesis using reach_step[OF sample_init] step_queue by blast
qed

text \<open>A state that can be reached, with the history of the sample run.\<close>

lemma sample_history:
  "\<exists>s. reachable (sample_env True) s \<and>
     history s = [Closed, Barrier_passed (Some ''/s/data/new/b''), Barrier_set (Some ''/s/data/new/b''),
       Line_read (''barrier /s/data/new/b'' @ [CHR 0x0a]), Ended 1,
       Started 1 [''evping'', ''a'', ''-O'', ''/s/data/new/ooq.1''],
       Line_read (''evping a'' @ [CHR 0x0a]), Opened sample_queue]"
  using sample_reachable sample_run by (metis map_sum.simps(2) sum.inject(2))

text \<open>
  C6: In every reachable state the counter of busy slots is the number of
  occupied slots, between 0 and 10; so a turn of the queue timer, whatever is in
  the queue, never runs out of slots: it exits only when a result cannot be
  appended to its file.
\<close>

theorem eooqd_slots:
  assumes "reachable E s"
  shows "curr_busy s = int (occupied (slots s)) \<and> 0 \<le> curr_busy s \<and> curr_busy s \<le> 10 \<and>
    (\<forall>m. checkQueue E s = Inl m \<longrightarrow> append_failure m)"
  using reachable_ok(1)[OF assms] occupied_le[of "slots s"] checkQueue_exit[of s E] by (auto simp: slots_ok_def)

theorem eooqd_slots_witness:
  "\<exists>s. reachable (sample_env True) s \<and> curr_busy s = int (occupied (slots s)) \<and> curr_busy s \<le> 10"
  using sample_reachable eooqd_slots[of "sample_env True"] by blast

text \<open>
  C3: Barriers order the commands.  In every reachable history a line is read
  and a command started only when no barrier is pending; a barrier is passed,
  and its file created, only when as many commands have ended as were started
  before it.
\<close>

theorem eooqd_barrier_order:
  assumes "reachable E s" and "history s = later @ e # earlier"
  shows "in_order earlier e"
proof -
  have "all_in_order (later @ e # earlier) \<Longrightarrow> in_order earlier e" by (induction later) auto
  then show ?thesis using reachable_ok(2)[OF assms(1)] assms(2) by (simp add: history_ok_def)
qed

theorem eooqd_barrier_order_witness:
  "\<exists>earlier. in_order earlier (Barrier_passed (Some ''/s/data/new/b'')) \<and>
     Started 1 [''evping'', ''a'', ''-O'', ''/s/data/new/ooq.1''] \<in> set earlier"
proof -
  obtain s where s: "reachable (sample_env True) s" and h: "history s = [Closed] @ Barrier_passed (Some ''/s/data/new/b'') #
      [Barrier_set (Some ''/s/data/new/b''), Line_read (''barrier /s/data/new/b'' @ [CHR 0x0a]), Ended 1,
       Started 1 [''evping'', ''a'', ''-O'', ''/s/data/new/ooq.1''],
       Line_read (''evping a'' @ [CHR 0x0a]), Opened sample_queue]"
    using sample_history by auto
  show ?thesis by (rule exI, rule conjI, rule eooqd_barrier_order[OF s h]) simp
qed





text \<open>
  Every file a barrier creates lies below the directory for new results.
\<close>

theorem eooqd_barrier_confined:
  assumes "reachable E s" "\<not> unsafe E" "Barrier_passed (Some f) \<in> set (history s)"
  shows "below_dir (ATLAS_SPOOLDIR E @ ''/'' @ ATLAS_DATA_NEW_REL) f"
proof -
  have "validated E (Some f)" using reachable_ok(5)[OF assms(1)] assms(3) by (simp add: barriers_ok_def)
  then obtain name where "CHR 0x00 \<notin> set name"
    "rebased_validated_filename False (ATLAS_SPOOLDIR E) name ATLAS_DATA_NEW_REL = Some f"
    using assms(2) unfolding validated_def by auto
  then show ?thesis by (rule data_new.guard_below)
qed

theorem eooqd_barrier_confined_witness: "below_dir (''/s'' @ ''/'' @ ATLAS_DATA_NEW_REL) ''/s/data/new/b''"
proof -
  obtain s where s: "reachable (sample_env True) s" and h: "Barrier_passed (Some ''/s/data/new/b'') \<in> set (history s)"
    using sample_history by auto
  have u: "\<not> unsafe (sample_env True)" "ATLAS_SPOOLDIR (sample_env True) = ''/s''" by (simp_all add: sample_env_def)
  show ?thesis using eooqd_barrier_confined[OF s u(1) h] unfolding u(2) .
qed



end
