(* ===== verification/Parse_Config.thy ===== *)
theory Parse_Config
  imports Probe_Files
begin

text \<open>
  The parser for configuration files, \<^verbatim>\<open>libbb/parse_config.c\<close>, with which the
  scheduler reads its table: lines with continuations, comments, and tokens.
  The parser cuts the line in place; here a token is the text before the cut
  and the rest of the line the text behind it.  The lemmas show that every call
  consumes input and that a line written from tokens reads back as these.
\<close>


section \<open>Model\<close>

text \<open>The flags of a call; \<^verbatim>\<open>PARSE_KEEP_COPY\<close> only keeps a copy for log messages.\<close>

record parse_flags =
  PARSE_COLLAPSE :: bool
  PARSE_TRIM :: bool
  PARSE_GREEDY :: bool
  PARSE_MIN_DIE :: bool

definition PARSE_NORMAL :: parse_flags where
  "PARSE_NORMAL = \<lparr>PARSE_COLLAPSE = True, PARSE_TRIM = True, PARSE_GREEDY = True, PARSE_MIN_DIE = False\<rparr>"

definition getline :: "string \<Rightarrow> (string \<times> string) option" where
  "getline inp =
     (if inp = [] then None
      else let n = length (takeWhile (\<lambda>c. c \<noteq> CHR 0x0a) inp) + 1 in Some (take n inp, drop n inp))"

lemma getline_SomeD: "getline inp = Some (l, r) \<Longrightarrow> inp = l @ r \<and> l \<noteq> []"
  by (auto simp: getline_def Let_def split: if_splits)

text \<open>A backslash before the newline, or at the end of the file, joins the next line.\<close>

function join_lines :: "string \<Rightarrow> string \<Rightarrow> string \<times> string" where
  "join_lines line inp =
     (let l = (if line \<noteq> [] \<and> last line = CHR 0x0a then butlast line else line) in
      if l = [] \<or> last l \<noteq> CHR 0x5c then (l, inp)
      else case getline inp of
        None \<Rightarrow> (butlast l, inp)
      | Some (nline, rest) \<Rightarrow> join_lines (butlast l @ nline) rest)"
  by pat_completeness auto
termination
  by (relation "measure (\<lambda>(line, inp). length inp)") (auto dest!: getline_SomeD)

declare join_lines.simps [simp del]

definition get_line_with_continuation :: "string \<Rightarrow> (string \<times> string) option" where
  "get_line_with_continuation inp =
     (case getline inp of None \<Rightarrow> None | Some (line, rest) \<Rightarrow> Some (join_lines line rest))"

text \<open>Delimiters: the comment character first, the separators behind it.\<close>

definition drop_trailing :: "string \<Rightarrow> string \<Rightarrow> string" where
  "drop_trailing seps s = rev (dropWhile (\<lambda>c. c \<in> set seps) (rev s))"

definition pin_token :: "parse_flags \<Rightarrow> string \<Rightarrow> bool \<Rightarrow> string \<Rightarrow> string \<times> string" where
  "pin_token flags delims is_last line =
     (let tok = (if \<not> is_last \<or> \<not> PARSE_GREEDY flags then takeWhile (\<lambda>c. c \<notin> set delims) line
                 else let t = takeWhile (\<lambda>c. c \<noteq> hd delims) line in
                      if PARSE_TRIM flags then drop_trailing (tl delims) t else t);
          rest = drop (length tok) line;
          rest1 = (if rest \<noteq> [] \<and> hd rest = hd delims then [] else tl rest) in
      (tok, if PARSE_COLLAPSE flags then drop (strspn rest1 (tl delims)) rest1 else rest1))"

text \<open>At least one token and at most \<open>n + 1\<close> are read.\<close>

fun tokenize :: "parse_flags \<Rightarrow> string \<Rightarrow> nat \<Rightarrow> string \<Rightarrow> string list" where
  "tokenize flags delims n line =
     (case pin_token flags delims (n = 0) line of
        (tok, rest) \<Rightarrow>
          tok # (if rest \<noteq> [] \<and> hd rest \<noteq> hd delims then (case n of 0 \<Rightarrow> [] | Suc m \<Rightarrow> tokenize flags delims m rest) else []))"

declare tokenize.simps [simp del]

lemma join_lines_rest: "length (snd (join_lines line inp)) \<le> length inp"
proof (induction line inp rule: join_lines.induct)
  case (1 line inp)
  define l where "l = (if line \<noteq> [] \<and> last line = CHR 0x0a then butlast line else line)"
  show ?case
  proof (cases "l = [] \<or> last l \<noteq> CHR 0x5c")
    case True
    then show ?thesis unfolding join_lines.simps[of line inp] l_def[symmetric] by (simp add: Let_def)
  next
    case False
    show ?thesis
    proof (cases "getline inp")
      case None
      then show ?thesis using False unfolding join_lines.simps[of line inp] l_def[symmetric] by (simp add: Let_def)
    next
      case (Some nr)
      obtain nl rest where nr: "nr = (nl, rest)" by (cases nr)
      have "length (snd (join_lines (butlast l @ nl) rest)) \<le> length rest"
        using 1[OF l_def] False Some nr by simp
      then show ?thesis
        using False Some nr getline_SomeD[of inp nl rest] unfolding join_lines.simps[of line inp] l_def[symmetric]
        by (simp add: Let_def)
    qed
  qed
qed

lemma continuation_rest:
  assumes "get_line_with_continuation inp = Some (l, rest)"
  shows "length rest < length inp"
proof -
  obtain line r where g: "getline inp = Some (line, r)" and j: "join_lines line r = (l, rest)"
    using assms by (auto simp: get_line_with_continuation_def split: option.splits)
  show ?thesis using getline_SomeD[OF g] join_lines_rest[of line r] j by (cases line) simp_all
qed

text \<open>\<open>None\<close>: nothing left to read.  The message is that of a file with too few tokens in a line.\<close>

function config_read :: "parse_flags \<Rightarrow> string \<Rightarrow> nat \<Rightarrow> nat \<Rightarrow> string \<Rightarrow> (string list \<times> string) option run" where
  "config_read flags delims ntokens mintokens inp =
     (case get_line_with_continuation inp of
        None \<Rightarrow> Inr None
      | Some (buf, rest) \<Rightarrow>
          let str = c_string buf;
              line = (if PARSE_TRIM flags then drop (strspn str (tl delims)) str else str) in
          if line = [] \<or> hd line = hd delims then config_read flags delims ntokens mintokens rest
          else let tokens = tokenize flags delims (ntokens - 1) line in
            if length tokens < mintokens then
              (if PARSE_MIN_DIE flags then Inl ''bad line'' else config_read flags delims ntokens mintokens rest)
            else Inr (Some (tokens, rest)))"
  by pat_completeness auto
termination
  by (relation "measure (\<lambda>(flags, delims, n, m, inp). length inp)") (auto dest: continuation_rest)

declare config_read.simps [simp del]



lemma config_read_rest:
  "config_read flags delims n m inp = Inr (Some (tokens, rest)) \<Longrightarrow> length rest < length inp"
proof (induction inp rule: measure_induct_rule[of length])
  case (less inp)
  obtain buf r where g: "get_line_with_continuation inp = Some (buf, r)"
    using less.prems by (subst (asm) config_read.simps) (auto split: option.splits)
  then have r: "length r < length inp" by (rule continuation_rest)
  have "config_read flags delims n m inp = config_read flags delims n m r \<or>
      config_read flags delims n m inp = Inl ''bad line'' \<or>
      (\<exists>t. config_read flags delims n m inp = Inr (Some (t, r)))"
    unfolding config_read.simps[of flags delims n m inp] g by (simp add: Let_def)
  then show ?case using less.prems less.IH[OF r] r by auto
qed


section \<open>Reading back a line\<close>

text \<open>A token of a line, and the last one, which may contain separators.\<close>

definition token_ok :: "string \<Rightarrow> string \<Rightarrow> bool" where
  "token_ok delims t \<longleftrightarrow> t \<noteq> [] \<and> (\<forall>c\<in>set t. c \<notin> set delims)"

definition last_ok :: "string \<Rightarrow> string \<Rightarrow> bool" where
  "last_ok delims t \<longleftrightarrow> t \<noteq> [] \<and> hd delims \<notin> set t \<and> hd t \<notin> set delims \<and> last t \<notin> set delims"

lemma strspn_zero: "s \<noteq> [] \<Longrightarrow> hd s \<notin> set acc \<Longrightarrow> strspn s acc = 0"
  by (cases s) auto

lemma drop_trailing_id: "t \<noteq> [] \<Longrightarrow> last t \<notin> set seps \<Longrightarrow> drop_trailing seps t = t"
  by (cases t rule: rev_cases) (simp_all add: drop_trailing_def)

lemma pin_token_last:
  assumes "last_ok delims t" "delims \<noteq> []"
  shows "pin_token PARSE_NORMAL delims True t = (t, [])"
proof -
  have "last t \<notin> set (tl delims)" using assms by (cases delims) (auto simp: last_ok_def)
  then have "drop_trailing (tl delims) t = t" using assms(1) by (intro drop_trailing_id) (auto simp: last_ok_def)
  moreover have "takeWhile (\<lambda>c. c \<noteq> hd delims) t = t" using assms(1) by (auto simp: last_ok_def takeWhile_eq_all_conv)
  ultimately have "(let t = takeWhile (\<lambda>c. c \<noteq> hd delims) t in drop_trailing (tl delims) t) = t"
    unfolding Let_def by (simp only:)
  then show ?thesis by (simp add: pin_token_def PARSE_NORMAL_def del: Let_def)
qed

lemma pin_token_sep:
  assumes "token_ok delims t" "sep \<in> set (tl delims)" "sep \<noteq> hd delims" "rest \<noteq> []" "hd rest \<notin> set delims"
  shows "pin_token PARSE_NORMAL delims False (t @ sep # rest) = (t, rest)"
proof -
  have d: "delims \<noteq> []" using assms(2) by (cases delims) auto
  have s: "sep \<in> set delims" and r: "hd rest \<notin> set (tl delims)" using assms(2,5) d by (cases delims; auto)+
  have "takeWhile (\<lambda>c. c \<notin> set delims) (t @ sep # rest) = t"
    using assms(1) s by (simp add: token_ok_def takeWhile_append2)
  then show ?thesis
    using assms(3) strspn_zero[OF assms(4) r] by (simp add: pin_token_def Let_def PARSE_NORMAL_def)
qed

definition join_tokens :: "char \<Rightarrow> string list \<Rightarrow> string \<Rightarrow> string" where
  "join_tokens sep ts l = concat (map (\<lambda>t. t @ [sep]) ts) @ l"

lemma tokenize_join:
  assumes "\<forall>t\<in>set ts. token_ok delims t" "last_ok delims l" "sep \<in> set (tl delims)" "sep \<noteq> hd delims"
  shows "tokenize PARSE_NORMAL delims (length ts) (join_tokens sep ts l) = ts @ [l]"
  using assms(1)
proof (induction ts)
  case Nil
  have "delims \<noteq> []" using assms(3) by (cases delims) auto
  then show ?case using pin_token_last[OF assms(2)] by (simp add: join_tokens_def tokenize.simps)
next
  case (Cons t ts)
  let ?rest = "join_tokens sep ts l"
  have r: "?rest \<noteq> []" "hd ?rest \<notin> set delims"
    using assms(2) Cons.prems by (cases ts; auto simp: join_tokens_def last_ok_def token_ok_def)+
  then have h: "hd ?rest \<noteq> hd delims" using assms(3) by (cases delims) auto
  have "join_tokens sep (t # ts) l = t @ sep # ?rest" by (simp add: join_tokens_def)
  moreover have "pin_token PARSE_NORMAL delims False (t @ sep # ?rest) = (t, ?rest)"
    using Cons.prems assms(3,4) r by (intro pin_token_sep) auto
  ultimately show ?case using Cons r h by (subst tokenize.simps) simp
qed

text \<open>
  A line written from tokens, each without delimiters and the last one with
  separators inside at most, is read back as exactly these tokens, and reading
  goes on behind the line.
\<close>

lemma config_read_join:
  assumes "\<forall>t\<in>set ts. token_ok delims t" "last_ok delims l" "sep \<in> set (tl delims)" "sep \<noteq> hd delims"
    and "mintokens \<le> length ts + 1"
    and line: "CHR 0x0a \<notin> set (join_tokens sep ts l)" "CHR 0x00 \<notin> set (join_tokens sep ts l)"
      "last l \<noteq> CHR 0x5c"
  shows "config_read PARSE_NORMAL delims (length ts + 1) mintokens (join_tokens sep ts l @ CHR 0x0a # rest) =
    Inr (Some (ts @ [l], rest))"
proof -
  define s where "s = join_tokens sep ts l"
  have ne: "s \<noteq> []" "hd s \<notin> set delims" "last s = last l"
    using assms(1,2) unfolding s_def by (cases ts; auto simp: join_tokens_def last_ok_def token_ok_def)+
  have "takeWhile (\<lambda>c. c \<noteq> CHR 0x0a) (s @ CHR 0x0a # rest) = s"
    using line(1) unfolding s_def[symmetric] by (subst takeWhile_append2) auto
  then have "getline (s @ CHR 0x0a # rest) = Some (s @ [CHR 0x0a], rest)" by (simp add: getline_def Let_def)
  moreover have "join_lines (s @ [CHR 0x0a]) rest = (s, rest)"
    using ne line(3) by (subst join_lines.simps) (simp add: Let_def)
  ultimately have g: "get_line_with_continuation (s @ CHR 0x0a # rest) = Some (s, rest)"
    by (simp add: get_line_with_continuation_def)
  have d: "hd s \<noteq> hd delims" "hd s \<notin> set (tl delims)" using ne(2) assms(3) by (cases delims; auto)+
  have t: "tokenize PARSE_NORMAL delims (length ts) s = ts @ [l]"
    unfolding s_def by (rule tokenize_join[OF assms(1-4)])
  have c: "c_string s = s" using line(2) by (simp add: c_string_id s_def)
  have "PARSE_TRIM PARSE_NORMAL" by (simp add: PARSE_NORMAL_def)
  then show ?thesis
    unfolding s_def[symmetric]
    using assms(5) ne(1) by (subst config_read.simps) (simp add: g c strspn_zero[OF ne(1) d(2)] d(1) t Let_def)
qed

end
