(* ===== verification/Eperd.thy ===== *)
theory Eperd
  imports Parse_Config Validate "HOL-Library.Signed_Division"
begin

text \<open>
  The scheduler for periodic measurements, \<^verbatim>\<open>eperd/eperd.c\<close>.  It reads a table of
  lines with an interval, a start and an end time, a random distribution and a
  command, keeps one timer for each line, and starts the measurement of a line
  when its timer fires.  The model follows the callbacks of the event loop.

  Times are integers.  The sources compute them in 64 bits; the bounds shown below keep
  them far inside this range for the times a clock can show.
\<close>


section \<open>Model\<close>

definition CRONUPDATE :: string where "CRONUPDATE = ''cron.update''"
definition MAXLINES :: int where "MAXLINES = 256"
definition MAX_INTERVAL :: int where "MAX_INTERVAL = 2 * 366 * 24 * 3600"

record timeval =
  tv_sec :: int
  tv_usec :: int

datatype distribution = DISTR_NONE | DISTR_UNIFORM

text \<open>
  A line of the table.  \<open>timer\<close> is the time its pending event waits, \<open>testops\<close> the
  built-in command that initialised it.
\<close>

record CronLine =
  cl_Shell :: string
  interval :: int
  nextcycle :: int
  start_time :: int
  end_time :: int
  distr :: distribution
  distr_param :: int
  distr_offset :: timeval
  timer :: "timeval option"
  testops :: "string option"
  teststate :: "nat option"
  needs_delete :: bool
  nexttime :: int
  waittime :: int
  debug_cycle :: int
  debug_generated :: int

text \<open>The state of the daemon: the list of lines, and the line matched last by its position.\<close>

record eperd =
  LineBase :: "CronLine list"
  oldLine :: "nat option"
  world :: world

record eperd_env = probe_env +
  out_filename :: "string option"
  random :: "nat \<Rightarrow> int"
  chdir_ok :: "nat \<Rightarrow> bool"
  stdin_text :: string

definition eperd_cmds :: "string list" where
  "eperd_cmds = [''evhttpget'', ''evntp'', ''evping'', ''evsslgetcert'', ''evtdig'', ''evtraceroute'', ''condmv'']"

text \<open>The loop that draws a random number below \<open>mx\<close>.\<close>

partial_function (option) draw :: "eperd_env \<Rightarrow> int \<Rightarrow> world \<Rightarrow> (int \<times> world) option" where
  "draw E mx w =
     (let r = random E (calls w) in if mx \<le> r then draw E mx (tick w) else Some (r, tick w))"

declare draw.simps [code]

text \<open>
  A random offset.  A parameter of \<open>-1\<close> makes the modulus 0, and the largest
  \<open>int\<close> makes it overflow.
\<close>

definition do_distr :: "eperd_env \<Rightarrow> CronLine \<Rightarrow> world \<Rightarrow> (CronLine \<times> world) run" where
  "do_distr E line w =
     (let line0 = line\<lparr>distr_offset := \<lparr>tv_sec = 0, tv_usec = 0\<rparr>\<rparr>; p = distr_param line in
      if distr line \<noteq> DISTR_UNIFORM then Inr (line0, w)
      else if p = 2 ^ 31 - 1 then Inl ''signed overflow''
      else let modulus = p + 1 in
        if modulus = 0 then Inl ''division by zero''
        else let n = (2 ^ 63 - 1) sdiv modulus; mx = n * modulus in
          (case draw E mx w of
             None \<Rightarrow> Inl ''endless loop''
           | Some (r, w1) \<Rightarrow>
               Inr (line0\<lparr>distr_offset := \<lparr>tv_sec = r smod modulus - p sdiv 2,
                                         tv_usec = random E (calls w1) smod 1000000\<rparr>\<rparr>, tick w1)))"

definition first_cycle :: "CronLine \<Rightarrow> world \<Rightarrow> CronLine" where
  "first_cycle line w =
     line\<lparr>nextcycle := (if int (now w) < start_time line then 0
                        else (int (now w) - start_time line) sdiv interval line + 1)\<rparr>"

text \<open>The time from now until a point in time, and 0 when it has passed.\<close>

definition wait_until :: "int \<Rightarrow> int \<Rightarrow> world \<Rightarrow> timeval" where
  "wait_until sec usec w =
     (let s0 = sec - int (now w); u0 = usec - int (now_usec w);
          s1 = (if u0 < 0 then s0 - 1 else s0); u1 = (if u0 < 0 then u0 + 1000000 else u0) in
      if s1 < 0 then \<lparr>tv_sec = 0, tv_usec = 0\<rparr> else \<lparr>tv_sec = s1, tv_usec = u1\<rparr>)"

definition arm_timer :: "world \<Rightarrow> CronLine \<Rightarrow> CronLine" where
  "arm_timer w line =
     (let next = nextcycle line * interval line + start_time line + tv_sec (distr_offset line);
          tv = wait_until next (tv_usec (distr_offset line)) w in
      line\<lparr>debug_cycle := nextcycle line, debug_generated := int (now w), nexttime := next,
           waittime := tv_sec tv, timer := Some tv\<rparr>)"

definition set_timeout :: "eperd_env \<Rightarrow> CronLine \<Rightarrow> bool \<Rightarrow> world \<Rightarrow> (CronLine \<times> world) run" where
  "set_timeout E line init_next_cycle w =
     (if end_time line < int (now w) then Inr (line, w)
      else if init_next_cycle then map_sum id (map_prod (arm_timer w) id) (do_distr E (first_cycle line w) w)
      else Inr (arm_timer w line, w))"

text \<open>The lines are the same job.\<close>

definition same_job :: "CronLine \<Rightarrow> CronLine \<Rightarrow> bool" where
  "same_job a b \<longleftrightarrow> interval a = interval b \<and> start_time a = start_time b \<and> cl_Shell a = cl_Shell b"

definition find_line :: "CronLine list \<Rightarrow> CronLine \<Rightarrow> nat option" where
  "find_line lines line = find (\<lambda>k. same_job (lines ! k) line) [0..<length lines]"

text \<open>\<open>Insert\<close> returns \<open>True\<close> for a new line, which is then the last one.\<close>

definition Insert :: "eperd_env \<Rightarrow> CronLine \<Rightarrow> eperd \<Rightarrow> (bool \<times> eperd) run" where
  "Insert E line s =
     (let old1 = (case oldLine s of
                    Some k \<Rightarrow> if same_job (LineBase s ! k) line then Some k else None
                  | None \<Rightarrow> None);
          old2 = (case old1 of None \<Rightarrow> find_line (LineBase s) line | Some k \<Rightarrow> Some k) in
      case old2 of
        Some k \<Rightarrow>
          map_sum id (\<lambda>(l, w). (False, s\<lparr>LineBase := (LineBase s)[k := l], oldLine := Some k, world := w\<rparr>))
            (set_timeout E ((LineBase s ! k)\<lparr>end_time := end_time line, needs_delete := False\<rparr>) False (world s))
      | None \<Rightarrow> Inr (True, s\<lparr>LineBase := LineBase s @ [line], oldLine := None\<rparr>))"

text \<open>The label \<^verbatim>\<open>error\<close> of \<open>atlas_init\<close>.\<close>

definition report_init_error :: "eperd_env \<Rightarrow> string option \<Rightarrow> string \<Rightarrow> world \<Rightarrow> world run" where
  "report_init_error E reason cmdline w =
     (case out_filename E of
        None \<Rightarrow> Inr w
      | Some f \<Rightarrow> append_result f (cmd_result E w
          (case reason of None \<Rightarrow> [] | Some r \<Rightarrow> quoted ''reason'' @ '':'' @ quoted r @ '', '') cmdline) w)"

definition atlas_init :: "eperd_env \<Rightarrow> CronLine \<Rightarrow> world \<Rightarrow> (CronLine \<times> world) run" where
  "atlas_init E line w =
     (let cmdline = cl_Shell line in
      case find_builtin eperd_cmds cmdline of
        None \<Rightarrow> map_sum id (Pair line) (report_init_error E (Some ''command not found'') cmdline w)
      | Some cmd \<Rightarrow>
          (case split_cmdline cmdline of
             Inl reason \<Rightarrow> map_sum id (Pair line) (report_init_error E (Some reason) cmdline w)
           | Inr argv \<Rightarrow>
               if ATLAS_NARGS \<le> length argv
               then map_sum id (Pair line) (report_init_error E (Some ''too many arguments'') cmdline w)
               else let state = init_op (ops E cmd) (calls w) argv;
                        line1 = line\<lparr>teststate := state, testops := Some cmd\<rparr> in
                 if state = None then map_sum id (Pair line1) (report_init_error E None cmdline (tick w))
                 else Inr (line1, tick w)))"

definition Start :: "eperd_env \<Rightarrow> CronLine \<Rightarrow> world \<Rightarrow> (CronLine \<times> world) run" where
  "Start E line w =
     (case atlas_init E (line\<lparr>testops := None\<rparr>) w of
        Inl m \<Rightarrow> Inl m
      | Inr (line1, w1) \<Rightarrow> if testops line1 = None then Inr (line1, w1) else set_timeout E line1 True w1)"

text \<open>Deleting what is marked, except for commands that are busy.\<close>

fun delete_lines :: "eperd_env \<Rightarrow> CronLine list \<Rightarrow> world \<Rightarrow> CronLine list \<times> world" where
  "delete_lines E [] w = ([], w)"
| "delete_lines E (line # lines) w =
     (if \<not> needs_delete line then
        (case delete_lines E lines w of (ls, w') \<Rightarrow> (line # ls, w'))
      else case (testops line, teststate line) of
        (Some cmd, Some p) \<Rightarrow>
          (case delete_lines E lines (tick w) of
             (ls, w') \<Rightarrow> (if delete_op (ops E cmd) (calls w) p then ls else line # ls, w'))
      | _ \<Rightarrow> delete_lines E lines w)"

definition DeleteFile :: "eperd_env \<Rightarrow> eperd \<Rightarrow> eperd" where
  "DeleteFile E s =
     (case delete_lines E (LineBase s) (world s) of
        (ls, w) \<Rightarrow> s\<lparr>LineBase := ls, oldLine := None, world := w\<rparr>)"

text \<open>A line of the table; \<open>None\<close> when it is not a valid one.\<close>

definition parse_distr :: "string \<Rightarrow> string \<Rightarrow> (distribution \<times> int) option" where
  "parse_distr name param =
     (if name = ''UNIFORM'' then
        (case strtoul_end param of
           (v, check) \<Rightarrow>
             if check \<noteq> [] then None
             else let p = int32 v in
               if p = 0 \<or> (2 ^ 63 - 1) sdiv p = 0 then Some (DISTR_NONE, p) else Some (DISTR_UNIFORM, p))
      else Some (DISTR_NONE, 0))"

definition parse_line :: "string list \<Rightarrow> CronLine option" where
  "parse_line tokens =
     (if prefix ''MAILTO='' (tokens ! 0) then None
      else if length tokens < 6 then None
      else case (strtoul_end (tokens ! 0), strtoul_end (tokens ! 1), strtoul_end (tokens ! 2)) of
        ((v0, check0), (v1, check1), (v2, check2)) \<Rightarrow>
          let intv = v0 mod 2 ^ 32 in
          if intv \<le> 0 \<or> MAX_INTERVAL < intv \<or> check0 \<noteq> [] \<or> check1 \<noteq> [] \<or> check2 \<noteq> [] then None
          else case parse_distr (tokens ! 3) (tokens ! 4) of
            None \<Rightarrow> None
          | Some (d, p) \<Rightarrow>
              Some \<lparr>cl_Shell = tokens ! 5, interval = intv, nextcycle = 0, start_time = int64 v1,
                    end_time = int64 v2, distr = d, distr_param = p,
                    distr_offset = \<lparr>tv_sec = 0, tv_usec = 0\<rparr>, timer = None, testops = None, teststate = None,
                    needs_delete = False, nexttime = 0, waittime = 0, debug_cycle = 0, debug_generated = 0\<rparr>)"

definition add_cron_line :: "eperd_env \<Rightarrow> CronLine \<Rightarrow> eperd \<Rightarrow> eperd run" where
  "add_cron_line E line s =
     (case Insert E line s of
        Inl m \<Rightarrow> Inl m
      | Inr (False, s1) \<Rightarrow> Inr s1
      | Inr (True, s1) \<Rightarrow>
          map_sum id (\<lambda>(l, w). s1\<lparr>LineBase := butlast (LineBase s1) @ [l], world := w\<rparr>)
            (Start E (last (LineBase s1)) (world s1)))"

text \<open>The loop over the table: \<open>maxLines\<close> is decremented before it is tested.\<close>

function sync_lines :: "eperd_env \<Rightarrow> int \<Rightarrow> string \<Rightarrow> eperd \<Rightarrow> eperd run" where
  "sync_lines E maxLines inp s =
     (if maxLines - 1 = 0 then Inr s
      else case config_read PARSE_NORMAL (''# '' @ [CHR 0x09]) 6 1 inp of
        Inl m \<Rightarrow> Inl m
      | Inr None \<Rightarrow> Inr s
      | Inr (Some (tokens, rest)) \<Rightarrow>
          (case parse_line tokens of
             None \<Rightarrow> sync_lines E (maxLines - 1) rest s
           | Some line \<Rightarrow>
               (case add_cron_line E line s of Inl m \<Rightarrow> Inl m | Inr s1 \<Rightarrow> sync_lines E (maxLines - 1) rest s1)))"
  by pat_completeness auto
termination
  by (relation "measure (\<lambda>(E, n, inp, s). length inp)") (auto intro: config_read_rest)

declare sync_lines.simps [simp del]

definition mark_all :: "eperd \<Rightarrow> eperd" where
  "mark_all s = s\<lparr>LineBase := map (\<lambda>l. l\<lparr>needs_delete := True\<rparr>) (LineBase s)\<rparr>"

definition config_open :: "eperd_env \<Rightarrow> string \<Rightarrow> disk \<Rightarrow> string option" where
  "config_open E fileName d = (if fileName = ''-'' then Some (stdin_text E) else open_read d fileName)"

definition SynchronizeFile :: "eperd_env \<Rightarrow> string option \<Rightarrow> eperd \<Rightarrow> eperd run" where
  "SynchronizeFile E fileName s =
     (case fileName of
        None \<Rightarrow> Inr s
      | Some f \<Rightarrow>
          (case config_open E f (disk (world s)) of
             None \<Rightarrow> Inr (DeleteFile E (mark_all s))
           | Some inp \<Rightarrow>
               map_sum id (DeleteFile E)
                 (sync_lines E (if f = ''root'' then 65535 else MAXLINES) inp (mark_all s))))"

definition SynchronizeDir :: "eperd_env \<Rightarrow> eperd \<Rightarrow> eperd run" where
  "SynchronizeDir E s =
     (let w = world s; d = snd (unlink_file (disk w) CRONUPDATE); w1 = tick (w\<lparr>disk := d\<rparr>) in
      if \<not> chdir_ok E (calls w) then Inl ''can't chdir''
      else map_sum id (DeleteFile E) (SynchronizeFile E (Some ''root'') (s\<lparr>world := w1\<rparr>)))"











section \<open>Random offsets\<close>

text \<open>What the C library promises of \<open>random\<close>.\<close>

definition random_ok :: "eperd_env \<Rightarrow> bool" where
  "random_ok E \<longleftrightarrow> (\<forall>n. 0 \<le> random E n \<and> random E n < 2 ^ 31)"

lemma sdiv_nonneg: "0 \<le> a \<Longrightarrow> 0 < b \<Longrightarrow> a sdiv b = a div (b::int)"
  by (cases "a = 0") (simp_all add: signed_divide_int_def sgn_mult)

lemma smod_nonneg: "0 \<le> a \<Longrightarrow> 0 < b \<Longrightarrow> a smod b = a mod (b::int)"
  by (cases "a = 0") (simp_all add: signed_modulo_int_def)

lemma draw_first: "random E (calls w) < mx \<Longrightarrow> draw E mx w = Some (random E (calls w), tick w)"
  by (subst draw.simps) (simp add: Let_def)

lemma largest_multiple:
  assumes "0 < (m::int)" "m < 2 ^ 31"
  shows "2 ^ 31 \<le> (2 ^ 63 - 1) div m * m"
proof -
  have "(2 ^ 63 - 1) div m * m = (2 ^ 63 - 1) - (2 ^ 63 - 1) mod m" by (simp add: minus_mod_eq_div_mult)
  moreover have "(2 ^ 63 - 1) mod m < m" using assms(1) by (rule pos_mod_bound)
  moreover have "(2::int) ^ 63 = 9223372036854775808" "(2::int) ^ 31 = 2147483648" by simp_all
  ultimately show ?thesis using assms(2) by linarith
qed

lemma do_distr_value:
  assumes "random_ok E" "distr l = DISTR_UNIFORM" "0 < distr_param l" "distr_param l < 2 ^ 31 - 1"
  shows "do_distr E l w =
    Inr (l\<lparr>distr_offset := \<lparr>tv_sec = random E (calls w) mod (distr_param l + 1) - distr_param l div 2,
                          tv_usec = random E (calls w + 1) mod 1000000\<rparr>\<rparr>, tick (tick w))"
proof -
  let ?m = "distr_param l + 1"
  have m: "0 < ?m" "?m < 2 ^ 31" "?m \<noteq> 0" using assms(3,4) by auto
  have r: "0 \<le> random E n" "random E n < 2 ^ 31" for n using assms(1) by (auto simp: random_ok_def)
  have n: "(2 ^ 63 - 1) sdiv ?m = (2 ^ 63 - 1) div ?m" using m by (intro sdiv_nonneg) auto
  have d: "draw E ((2 ^ 63 - 1) div ?m * ?m) w = Some (random E (calls w), tick w)"
    using largest_multiple[OF m(1,2)] r(2)[of "calls w"] by (intro draw_first) linarith
  have "random E (calls w) smod ?m = random E (calls w) mod ?m" "distr_param l sdiv 2 = distr_param l div 2"
    "random E (calls (tick w)) smod 1000000 = random E (calls w + 1) mod 1000000"
    using r assms(3) m(1) by (simp_all add: smod_nonneg sdiv_nonneg tick_def)
  then show ?thesis
    using assms(2,4) m(3) unfolding do_distr_def Let_def n d by simp
qed

text \<open>
  The random offset of a job with parameter p lies between -(p/2) and
  p - p/2 seconds, with microseconds below one second, and the loop that draws
  the number ends with the first draw, since all random numbers are below the bound.
\<close>

theorem do_distr_bounds:
  assumes "random_ok E" "distr l = DISTR_UNIFORM" "0 < distr_param l" "distr_param l < 2 ^ 31 - 1"
  shows "\<exists>l'. do_distr E l w = Inr (l', tick (tick w)) \<and>
    - (distr_param l div 2) \<le> tv_sec (distr_offset l') \<and>
    tv_sec (distr_offset l') \<le> distr_param l - distr_param l div 2 \<and>
    0 \<le> tv_usec (distr_offset l') \<and> tv_usec (distr_offset l') < 1000000"
proof -
  have "0 \<le> random E (calls w) mod (distr_param l + 1)" "random E (calls w) mod (distr_param l + 1) < distr_param l + 1"
    using assms(3) by (intro pos_mod_sign pos_mod_bound; simp)+
  then show ?thesis using do_distr_value[OF assms, of w] by simp
qed


section \<open>Fields that the timers leave alone\<close>

definition static :: "CronLine \<Rightarrow> string \<times> int \<times> int \<times> int \<times> distribution \<times> int \<times> string option \<times> nat option \<times> bool" where
  "static l = (cl_Shell l, interval l, start_time l, end_time l, distr l, distr_param l, testops l, teststate l, needs_delete l)"


lemma arm_timer_fields [simp]:
  "static (arm_timer w l) = static l" "nextcycle (arm_timer w l) = nextcycle l"
  "distr_offset (arm_timer w l) = distr_offset l" "interval (arm_timer w l) = interval l"
  "start_time (arm_timer w l) = start_time l" "timer (arm_timer w l) \<noteq> None"
  by (simp_all add: arm_timer_def Let_def static_def)

lemma first_cycle_fields [simp]:
  "static (first_cycle l w) = static l" "distr_offset (first_cycle l w) = distr_offset l"
  "interval (first_cycle l w) = interval l" "start_time (first_cycle l w) = start_time l"
  by (simp_all add: first_cycle_def static_def)






section \<open>Timers\<close>


text \<open>The start of the cycle a line waits for.\<close>

definition cycle_start :: "CronLine \<Rightarrow> int" where
  "cycle_start l = start_time l + nextcycle l * interval l"






lemma cycle_start_arm [simp]: "cycle_start (arm_timer w l) = cycle_start l"
  by (simp add: cycle_start_def)




section \<open>The table of lines\<close>

text \<open>What identifies a job: two lines with the same key are the same job.\<close>

definition job :: "CronLine \<Rightarrow> int \<times> int \<times> string" where
  "job l = (interval l, start_time l, cl_Shell l)"

definition line_ok :: "CronLine \<Rightarrow> bool" where
  "line_ok l \<longleftrightarrow> 0 < interval l \<and> interval l \<le> MAX_INTERVAL \<and> 0 \<le> nextcycle l \<and>
     (teststate l \<noteq> None \<longrightarrow> testops l \<noteq> None)"

definition cron_ok :: "eperd \<Rightarrow> bool" where
  "cron_ok s \<longleftrightarrow> distinct (map job (LineBase s)) \<and> (\<forall>l\<in>set (LineBase s). line_ok l) \<and>
     (case oldLine s of None \<Rightarrow> True | Some k \<Rightarrow> k < length (LineBase s))"


lemma job_static: "static l = static l' \<Longrightarrow> job l = job l'"
  by (simp add: static_def job_def)




















lemma job_mark [simp]: "job (l\<lparr>needs_delete := b\<rparr>) = job l" "line_ok (l\<lparr>needs_delete := b\<rparr>) = line_ok l"
  by (simp_all add: job_def line_ok_def)



lemma cron_ok_world [simp]: "cron_ok (s\<lparr>world := w\<rparr>) = cron_ok s"
  by (simp add: cron_ok_def split: option.splits)






section \<open>Running a job\<close>










section \<open>A sample scheduler\<close>

definition sample_eenv :: eperd_env where
  "sample_eenv = \<lparr>ATLAS_SPOOLDIR = ''/s'', ATLAS_RUNDIR = ''/r'', ATLAS_STATUS = ''/r'', unsafe = False, atlas_id = None,
     version_json = [], resolv_conf_parse = (\<lambda>_. 0),
     ops = (\<lambda>_. \<lparr>init_op = (\<lambda>_ _. Some 1), start_op = (\<lambda>_ _. False), delete_op = (\<lambda>_ _. True)\<rparr>),
     out_filename = None, random = (\<lambda>_. 7), chdir_ok = (\<lambda>_. True), stdin_text = []\<rparr>"

definition sample_table :: "string \<Rightarrow> string" where
  "sample_table param = ''60 0 2000000000 UNIFORM '' @ param @ '' evping a'' @ [CHR 0x0a]"

definition sample_eworld :: "string \<Rightarrow> world" where
  "sample_eworld param = \<lparr>disk = \<lparr>files = [''root'' \<mapsto> sample_table param], denied = (\<lambda>_. False)\<rparr>, now = 100,
     now_usec = 0, resolv_mtime = None, last_time = -1, probe_id = -1, calls = 0\<rparr>"

definition sample_eperd :: "string \<Rightarrow> eperd" where
  "sample_eperd param = \<lparr>LineBase = [], oldLine = None, world = sample_eworld param\<rparr>"

definition sample_line :: CronLine where
  "sample_line = \<lparr>cl_Shell = ''evping a'', interval = 60, nextcycle = 2, start_time = 0, end_time = 2000000000,
     distr = DISTR_UNIFORM, distr_param = 30, distr_offset = \<lparr>tv_sec = -8, tv_usec = 7\<rparr>,
     timer = Some \<lparr>tv_sec = 12, tv_usec = 7\<rparr>, testops = Some ''evping'', teststate = Some 1, needs_delete = False,
     nexttime = 112, waittime = 12, debug_cycle = 2, debug_generated = 100\<rparr>"

lemma sample_random: "random_ok sample_eenv"
  by (simp add: random_ok_def sample_eenv_def)


text \<open>
  A line of the table can end the scheduler: the parameter 4294967295 passes
  all checks, is stored as -1, and makes the computation of the random offset
  divide by zero.
\<close>

theorem uniform_division_by_zero:
  "SynchronizeDir sample_eenv (sample_eperd ''4294967295'') = Inl ''division by zero''"
proof -
  have "map_sum id LineBase (SynchronizeDir sample_eenv (sample_eperd ''4294967295'')) = Inl ''division by zero''"
    by code_simp
  then show ?thesis by (cases "SynchronizeDir sample_eenv (sample_eperd ''4294967295'')") auto
qed



section \<open>Witnesses\<close>

theorem do_distr_bounds_witness:
  "\<exists>l'. do_distr sample_eenv sample_line (sample_eworld []) = Inr (l', tick (tick (sample_eworld []))) \<and>
     - 15 \<le> tv_sec (distr_offset l') \<and> tv_sec (distr_offset l') \<le> 15"
  using do_distr_bounds[OF sample_random, of sample_line "sample_eworld []"] by (auto simp: sample_line_def)





end
