(* ===== verification/Dns_Names.thy ===== *)
theory Dns_Names
  imports Probe_Prelude
begin

text \<open>
  Domain names in DNS messages, as \<^verbatim>\<open>eperd/evtdig.c\<close> writes and reads them:
  \<open>ChangetoDnsNameFormat\<close> encodes the name of a query, \<open>ReadName\<close> follows labels and
  compression pointers of a reply, \<open>dns_namelen\<close> measures the name of the question.
  The lemmas show that \<open>ReadName\<close> ends for every message and returns the name that a
  relational specification assigns to the position, that reading undoes
  encoding, and what is read outside the message.
\<close>


section \<open>Model\<close>

text \<open>
  A name is read from a block \<open>base\<close> of which the first \<open>sz\<close> bytes are the message.
  \<open>name\<close> is what has been copied, \<open>count\<close> the bytes used before the first jump.
  On a failure the C function returns NULL with a count of \<open>-1\<close>.
\<close>

function ReadName_loop :: "bytes \<Rightarrow> nat \<Rightarrow> nat \<Rightarrow> bytes \<Rightarrow> bool \<Rightarrow> nat \<Rightarrow> nat \<Rightarrow> (bytes \<times> bool \<times> nat) outcome" where
  "ReadName_loop base sz offset name jumped jump_count count =
     (if sz \<le> offset then Done (name, jumped, count)
      else if length base \<le> offset then Abort (Undefined ''ReadName: label'')
      else let len = base ! offset in
        if len = 0 then Done (name, jumped, count)
        else if len AND 0xc0 \<noteq> 0 then
          if len AND 0xc0 \<noteq> 0xc0 then Fail
          else if length base \<le> offset + 1 then Abort (Undefined ''ReadName: pointer'')
          else let noffset = unat (be16 (len AND NOT 0xc0) (base ! (offset + 1))) in
            if sz \<le> noffset then Fail
            else if 256 < jump_count then Fail
            else ReadName_loop base sz noffset name True (jump_count + 1)
                   (if jumped then count else count + 2)
        else if sz < offset + unat len + 1 then Fail
        else if 255 < length name + unat len + 1 then Fail
        else if length base < offset + unat len + 1 then Abort (Undefined ''ReadName: copy'')
        else ReadName_loop base sz (offset + unat len + 1)
               (name @ take (unat len) (drop (offset + 1) base) @ [46]) jumped jump_count
               (if jumped then count else count + unat len + 1))"
  by pat_completeness auto
termination
  by (relation "measures [\<lambda>(base, sz, offset, name, jumped, jump_count, count). 257 - jump_count,
                          \<lambda>(base, sz, offset, name, jumped, jump_count, count). sz - offset]") auto

declare ReadName_loop.simps [simp del]

definition ReadName :: "bytes \<Rightarrow> nat \<Rightarrow> nat \<Rightarrow> (bytes \<times> nat) outcome" where
  "ReadName base sz offset =
     bindO (ReadName_loop base sz offset [] False 0 0) (\<lambda>(name, jumped, count).
       Done (if name = [] then [] else butlast name, if jumped then count else count + 1))"

text \<open>\<open>None\<close> stands for \<open>-1\<close>.  The caller asks with the whole block \<open>base\<close>.\<close>

function dns_namelen_loop :: "bytes \<Rightarrow> nat \<Rightarrow> nat \<Rightarrow> nat outcome" where
  "dns_namelen_loop base offset sz =
     (if sz \<le> offset then Done offset
      else if length base \<le> offset then Abort (Undefined ''dns_namelen'')
      else let len = base ! offset in
        if len AND 0xc0 \<noteq> 0 then
          if len AND 0xc0 \<noteq> 0xc0 then Fail else Done (offset + 1)
        else if sz < offset + unat len + 1 then Fail
        else if len = 0 then Done (offset + unat len + 1)
        else dns_namelen_loop base (offset + unat len + 1) sz)"
  by pat_completeness auto
termination
  by (relation "measure (\<lambda>(base, offset, sz). sz - offset)") auto

declare dns_namelen_loop.simps [simp del]

definition dns_namelen :: "bytes \<Rightarrow> nat \<Rightarrow> nat \<Rightarrow> nat outcome" where
  "dns_namelen base offset sz = bindO (dns_namelen_loop base offset sz) (\<lambda>e. Done (e - offset))"

text \<open>
  The encoding of a name.  The bytes written to \<open>dns\<close> are returned; their number is
  the result of the C function.
\<close>

function to_dns_loop :: "nat \<Rightarrow> string \<Rightarrow> bytes \<Rightarrow> bytes outcome" where
  "to_dns_loop maxlen src dst =
     (if src = [] \<or> maxlen \<le> length dst then Done (dst @ [0])
      else case strchr src (CHR ''.'') of
        None \<Rightarrow> Fail
      | Some labellen \<Rightarrow>
          if 63 < labellen then Fail
          else if labellen = 0 then Fail
          else to_dns_loop maxlen (drop (labellen + 1) src)
                 (dst @ of_nat labellen # bytes_of (take labellen src)))"
  by pat_completeness auto
termination
  by (relation "measure (\<lambda>(maxlen, src, dst). length src)") auto

declare to_dns_loop.simps [simp del]

definition ChangetoDnsNameFormat :: "nat \<Rightarrow> string \<Rightarrow> bytes outcome" where
  "ChangetoDnsNameFormat maxlen qry =
     (if maxlen < length qry + 1 then Fail
      else if qry = ''.'' then Done [0]
      else to_dns_loop maxlen qry [])"

definition get32b :: "bytes \<Rightarrow> nat \<Rightarrow> u32" where
  "get32b p i = push_bit 24 (0xff AND ucast (p ! i)) OR push_bit 16 (0xff AND ucast (p ! (i + 1)))
     OR push_bit 8 (0xff AND ucast (p ! (i + 2))) OR (0xff AND ucast (p ! (i + 3)))"

definition ldns_write_uint16 :: "u16 \<Rightarrow> bytes" where
  "ldns_write_uint16 d = [ucast (drop_bit 8 d AND 0xff), ucast (d AND 0xff)]"

definition ldns_read_uint16 :: "u8 \<Rightarrow> u8 \<Rightarrow> u16" where
  "ldns_read_uint16 p0 p1 = push_bit 8 (ucast p0) OR ucast p1"


section \<open>Specification\<close>

text \<open>
  \<open>name_at base sz o j ls n\<close>: the labels \<open>ls\<close> start at \<open>o\<close>, over \<open>j\<close> pointers, with
  \<open>n\<close> bytes of labels and pointer before the first jump.  A name ends with the
  root label or with the message.
\<close>

inductive name_at :: "bytes \<Rightarrow> nat \<Rightarrow> nat \<Rightarrow> nat \<Rightarrow> bytes list \<Rightarrow> nat \<Rightarrow> bool" for base sz where
  cut: "sz \<le> off \<Longrightarrow> name_at base sz off 0 [] 0"
| root: "off < sz \<Longrightarrow> base ! off = 0 \<Longrightarrow> name_at base sz off 0 [] 0"
| label: "0 < unat (base ! off) \<Longrightarrow> unat (base ! off) < 64 \<Longrightarrow> off + unat (base ! off) < sz \<Longrightarrow>
     name_at base sz (off + unat (base ! off) + 1) j ls n \<Longrightarrow>
     name_at base sz off j (take (unat (base ! off)) (drop (off + 1) base) # ls) (unat (base ! off) + 1 + n)"
| pointer: "off < sz \<Longrightarrow> off + 1 < length base \<Longrightarrow> 192 \<le> unat (base ! off) \<Longrightarrow>
     t = (unat (base ! off) - 192) * 256 + unat (base ! (off + 1)) \<Longrightarrow> t < sz \<Longrightarrow>
     name_at base sz t j ls n \<Longrightarrow> name_at base sz off (Suc j) ls 2"

definition dotted :: "bytes list \<Rightarrow> bytes" where
  "dotted ls = concat (map (\<lambda>l. l @ [46]) ls)"

definition wire_name :: "bytes list \<Rightarrow> bytes" where
  "wire_name ls = concat (map (\<lambda>l. of_nat (length l) # l) ls) @ [0]"

lemma dotted_simps [simp]: "dotted [] = []" "dotted (l # ls) = l @ 46 # dotted ls"
  by (simp_all add: dotted_def)

lemma wire_name_simps [simp]: "wire_name [] = [0]" "wire_name (l # ls) = of_nat (length l) # l @ wire_name ls"
  by (simp_all add: wire_name_def)


section \<open>Bits of a label length\<close>

lemma and_c0: "b AND 0xc0 = push_bit 6 (drop_bit 6 (b :: u8))"
proof -
  have e: "(0xc0 :: u8) = push_bit 6 (mask 2)" by (simp add: mask_eq_exp_minus_1)
  show ?thesis unfolding e by (rule bit_word_eqI) (auto simp: bit_simps)
qed

lemma unat_and_c0: "unat (b AND 0xc0) = unat b div 64 * 64" for b :: u8
proof -
  have "unat b div 64 * 64 < 256" using unat_u8[of b] by simp
  then show ?thesis
    unfolding and_c0 push_bit_eq_mult drop_bit_eq_div
    by (simp add: unat_word_ariths unat_div)
qed

lemma label_bits:
  fixes b :: u8
  shows "b AND 0xc0 = 0 \<longleftrightarrow> unat b < 64" "b AND 0xc0 = 0xc0 \<longleftrightarrow> 192 \<le> unat b"
    "192 \<le> unat b \<Longrightarrow> unat (b AND NOT 0xc0) = unat b - 192"
proof -
  have i: "x = y \<longleftrightarrow> unat x = unat y" for x y :: u8 by (simp add: word_unat_eq_iff)
  show "b AND 0xc0 = 0 \<longleftrightarrow> unat b < 64" unfolding i unat_and_c0 by auto
  show e: "b AND 0xc0 = 0xc0 \<longleftrightarrow> 192 \<le> unat b" unfolding i unat_and_c0 using unat_u8[of b] by auto
  assume "192 \<le> unat b"
  then have "b AND 0xc0 = 0xc0" by (simp add: e)
  moreover have "b = (b AND 0xc0) + (b AND NOT 0xc0)"
    by (subst or_disjoint_add[symmetric]) (auto simp: bit_simps intro!: bit_word_eqI)
  ultimately have "b AND NOT 0xc0 = b - 0xc0" by (metis add_diff_cancel_left')
  then show "unat (b AND NOT 0xc0) = unat b - 192"
    using \<open>192 \<le> unat b\<close> by (simp add: unat_sub word_le_nat_alt)
qed

lemma unat_pointer:
  "192 \<le> unat a \<Longrightarrow> unat (be16 (a AND NOT 0xc0) b) = (unat a - 192) * 256 + unat b"
  using label_bits(3)[of a] by (simp add: unat_be16)


section \<open>Reading a name\<close>

lemma name_at_end:
  assumes "sz \<le> off \<or> base ! off = 0"
  shows "name_at base sz off j ls n \<longleftrightarrow> j = 0 \<and> ls = [] \<and> n = 0"
  using assms by (subst name_at.simps) auto

lemma name_at_label:
  assumes "0 < unat (base ! off)" "unat (base ! off) < 64" "off + unat (base ! off) < sz"
  shows "name_at base sz off j ls n \<longleftrightarrow> (\<exists>ls' n'. ls = take (unat (base ! off)) (drop (off + 1) base) # ls' \<and>
     n = unat (base ! off) + 1 + n' \<and> name_at base sz (off + unat (base ! off) + 1) j ls' n')"
  using assms by (subst name_at.simps) auto

lemma name_at_pointer:
  assumes "off < sz" "off + 1 < length base" "192 \<le> unat (base ! off)" "t = (unat (base ! off) - 192) * 256 + unat (base ! (off + 1))"
  shows "name_at base sz off j ls n \<longleftrightarrow> (\<exists>j' n'. j = Suc j' \<and> n = 2 \<and> t < sz \<and> name_at base sz t j' ls n')"
  using assms by (subst name_at.simps) auto

lemma name_at_bad:
  assumes "off < sz" "64 \<le> unat (base ! off) \<and> unat (base ! off) < 192 \<or>
     0 < unat (base ! off) \<and> unat (base ! off) < 64 \<and> sz \<le> off + unat (base ! off) \<or>
     192 \<le> unat (base ! off) \<and> length base \<le> off + 1"
  shows "\<not> name_at base sz off j ls n"
  using assms by (subst name_at.simps) auto

text \<open>The result of the loop when it starts with \<open>name\<close>, \<open>jumped\<close>, \<open>jc\<close> and \<open>count\<close>.\<close>

definition reads_to :: "bytes \<Rightarrow> nat \<Rightarrow> nat \<Rightarrow> bytes \<Rightarrow> bool \<Rightarrow> nat \<Rightarrow> nat \<Rightarrow> bytes \<times> bool \<times> nat \<Rightarrow> bool" where
  "reads_to base sz off name jumped jc count r \<longleftrightarrow>
     (\<exists>j ls n. name_at base sz off j ls n \<and> jc + j \<le> 257 \<and> (ls \<noteq> [] \<longrightarrow> length name + length (dotted ls) \<le> 255) \<and>
        r = (name @ dotted ls, jumped \<or> 0 < j, if jumped then count else count + n))"

lemma reads_to_cut: "sz \<le> off \<Longrightarrow> jc \<le> 257 \<Longrightarrow> reads_to base sz off name jumped jc count r \<longleftrightarrow> r = (name, jumped, count)"
  unfolding reads_to_def by (auto simp: name_at_end)

lemma reads_to_root:
  "off < sz \<Longrightarrow> base ! off = 0 \<Longrightarrow> jc \<le> 257 \<Longrightarrow> reads_to base sz off name jumped jc count r \<longleftrightarrow> r = (name, jumped, count)"
  unfolding reads_to_def by (auto simp: name_at_end)

lemma reads_to_label:
  assumes "0 < unat (base ! off)" "unat (base ! off) < 64" "off + unat (base ! off) < sz" "sz \<le> length base"
  shows "reads_to base sz off name jumped jc count r \<longleftrightarrow>
     length name + unat (base ! off) + 1 \<le> 255 \<and>
     reads_to base sz (off + unat (base ! off) + 1) (name @ take (unat (base ! off)) (drop (off + 1) base) @ [46]) jumped jc
       (if jumped then count else count + unat (base ! off) + 1) r"
    (is "?l = ?r")
proof
  let ?u = "take (unat (base ! off)) (drop (off + 1) base)"
  have u: "length ?u = unat (base ! off)" using assms(3,4) by simp
  { assume ?l
    then obtain j ls n where h: "name_at base sz off j ls n" "jc + j \<le> 257"
        "ls \<noteq> [] \<longrightarrow> length name + length (dotted ls) \<le> 255"
        "r = (name @ dotted ls, jumped \<or> 0 < j, if jumped then count else count + n)"
      unfolding reads_to_def by blast
    from h(1) obtain ls' n' where l: "ls = ?u # ls'" "n = unat (base ! off) + 1 + n'"
        "name_at base sz (off + unat (base ! off) + 1) j ls' n'"
      unfolding name_at_label[OF assms(1-3)] by blast
    have "length name + unat (base ! off) + 1 + length (dotted ls') \<le> 255" using h(3) l(1) u by simp
    then show ?r unfolding reads_to_def using l(3) h(2,4) l(1,2) u
      by (intro conjI exI[of _ j] exI[of _ ls'] exI[of _ n']) auto
  next
    assume ?r
    then obtain j ls' n' where h: "name_at base sz (off + unat (base ! off) + 1) j ls' n'" "jc + j \<le> 257"
        "ls' \<noteq> [] \<longrightarrow> length (name @ ?u @ [46]) + length (dotted ls') \<le> 255" "length name + unat (base ! off) + 1 \<le> 255"
        "r = ((name @ ?u @ [46]) @ dotted ls', jumped \<or> 0 < j,
           if jumped then (if jumped then count else count + unat (base ! off) + 1)
           else (if jumped then count else count + unat (base ! off) + 1) + n')"
      unfolding reads_to_def by blast
    show ?l unfolding reads_to_def name_at_label[OF assms(1-3)] using h u
      by (intro exI[of _ j] exI[of _ "?u # ls'"] exI[of _ "unat (base ! off) + 1 + n'"]) (cases ls', auto) }
qed

lemma reads_to_pointer:
  assumes "off < sz" "off + 1 < length base" "192 \<le> unat (base ! off)" "t = (unat (base ! off) - 192) * 256 + unat (base ! (off + 1))"
  shows "reads_to base sz off name jumped jc count r \<longleftrightarrow>
     t < sz \<and> jc \<le> 256 \<and> reads_to base sz t name True (jc + 1) (if jumped then count else count + 2) r"
    (is "?l = ?r")
proof
  assume ?l
  then obtain j ls n where h: "name_at base sz off j ls n" "jc + j \<le> 257"
      "ls \<noteq> [] \<longrightarrow> length name + length (dotted ls) \<le> 255"
      "r = (name @ dotted ls, jumped \<or> 0 < j, if jumped then count else count + n)"
    unfolding reads_to_def by blast
  from h(1) obtain j' n' where "j = Suc j'" "n = 2" "t < sz" "name_at base sz t j' ls n'"
    unfolding name_at_pointer[OF assms] by blast
  then show ?r unfolding reads_to_def using h(2-4)
    by (intro conjI exI[of _ j'] exI[of _ ls] exI[of _ n']) auto
next
  assume ?r
  then obtain j ls n where h: "name_at base sz t j ls n" "jc + 1 + j \<le> 257" "t < sz"
      "ls \<noteq> [] \<longrightarrow> length name + length (dotted ls) \<le> 255"
      "r = (name @ dotted ls, True, if jumped then count else count + 2)"
    unfolding reads_to_def by auto
  then show ?l unfolding reads_to_def name_at_pointer[OF assms]
    by (intro exI[of _ "Suc j"] exI[of _ ls] exI[of _ 2]) auto
qed

lemma reads_to_bad:
  assumes "off < sz" "64 \<le> unat (base ! off) \<and> unat (base ! off) < 192 \<or>
     0 < unat (base ! off) \<and> unat (base ! off) < 64 \<and> sz \<le> off + unat (base ! off) \<or>
     192 \<le> unat (base ! off) \<and> length base \<le> off + 1"
  shows "\<not> reads_to base sz off name jumped jc count r"
  unfolding reads_to_def using name_at_bad[OF assms] by blast

text \<open>Results that agree with \<open>P\<close>, and the one access outside the block.\<close>

definition read_ok :: "bytes \<Rightarrow> nat \<Rightarrow> ('a \<Rightarrow> bool) \<Rightarrow> 'a outcome \<Rightarrow> bool" where
  "read_ok base sz P res \<longleftrightarrow>
     (case res of
        Done r \<Rightarrow> P r \<and> (\<forall>r'. P r' \<longrightarrow> r' = r)
      | Fail \<Rightarrow> (\<forall>r. \<not> P r)
      | Abort _ \<Rightarrow> (\<forall>r. \<not> P r) \<and> sz = length base \<and> base \<noteq> [] \<and> 192 \<le> unat (last base))"

lemma ReadName_loop_exact:
  assumes "sz \<le> length base" "jc \<le> 257"
  shows "read_ok base sz (reads_to base sz off name jumped jc count) (ReadName_loop base sz off name jumped jc count)"
  using assms
proof (induction base sz off name jumped jc count rule: ReadName_loop.induct)
  case (1 base sz off name jumped jc count)
  note s = ReadName_loop.simps[of base sz off name jumped jc count]
  let ?b = "base ! off"
  consider "sz \<le> off" | "off < sz" "?b = 0" | "off < sz" "64 \<le> unat ?b" "unat ?b < 192"
    | "off < sz" "192 \<le> unat ?b"
    | "off < sz" "0 < unat ?b" "unat ?b < 64" by (metis gr0I linorder_not_less unat_eq_0)
  then show ?case
  proof cases
    case 1 then show ?thesis using s \<open>jc \<le> 257\<close> by (simp add: reads_to_cut read_ok_def)
  next
    case 2 then show ?thesis using s \<open>jc \<le> 257\<close> \<open>sz \<le> length base\<close> by (simp add: reads_to_root read_ok_def)
  next
    case 3
    then have "?b \<noteq> 0" "?b AND 0xc0 \<noteq> 0" "?b AND 0xc0 \<noteq> 0xc0" by (auto simp: label_bits)
    then show ?thesis using s 3 \<open>sz \<le> length base\<close> reads_to_bad[OF 3(1)] by (simp add: read_ok_def)
  next
    case 4
    then have b: "?b \<noteq> 0" "?b AND 0xc0 = 0xc0" by (auto simp: label_bits)
    define t where "t = (unat ?b - 192) * 256 + unat (base ! (off + 1))"
    have u: "unat (be16 (?b AND NOT 0xc0) (base ! (off + 1))) = t"
      unfolding t_def using unat_pointer[OF 4(2)] by simp
    show ?thesis
    proof (cases "off + 1 < length base")
      case False
      then have e: "off = length base - 1" "sz = length base" "base \<noteq> []" using 4 \<open>sz \<le> length base\<close> by auto
      then have "last base = ?b" by (simp add: last_conv_nth)
      moreover have "ReadName_loop base sz off name jumped jc count = Abort (Undefined ''ReadName: pointer'')"
        using s b 4 False \<open>sz \<le> length base\<close> by simp
      ultimately show ?thesis using 4 e reads_to_bad[OF 4(1)] by (simp add: read_ok_def)
    next
      case True
      note rp = reads_to_pointer[OF 4(1) True 4(2) t_def]
      have s': "ReadName_loop base sz off name jumped jc count =
          (if sz \<le> t \<or> 256 < jc then Fail
           else ReadName_loop base sz t name True (jc + 1) (if jumped then count else count + 2))"
        using s b 4 True u by (simp add: Let_def)
      show ?thesis
      proof (cases "sz \<le> t \<or> 256 < jc")
        case True then show ?thesis unfolding s' read_ok_def rp by auto
      next
        case False
        have "reads_to base sz off name jumped jc count =
            reads_to base sz t name True (jc + 1) (if jumped then count else count + 2)"
          by (rule ext) (use rp False in auto)
        then show ?thesis unfolding s'
          using "1.IH"(1)[OF _ _ refl _ _ _ _ u[symmetric]] b 4 True False \<open>sz \<le> length base\<close> by simp
      qed
    qed
  next
    case 5
    then have b: "?b \<noteq> 0" "?b AND 0xc0 = 0" by (auto simp: label_bits)
    define name' where "name' = name @ take (unat ?b) (drop (off + 1) base) @ [46]"
    have s': "ReadName_loop base sz off name jumped jc count =
        (if sz \<le> off + unat ?b \<or> 255 < length name + unat ?b + 1 then Fail
         else ReadName_loop base sz (off + unat ?b + 1) name' jumped jc (if jumped then count else count + unat ?b + 1))"
      using s b 5 \<open>sz \<le> length base\<close> by (simp add: Let_def name'_def)
    show ?thesis
    proof (cases "sz \<le> off + unat ?b")
      case True then show ?thesis unfolding s' using reads_to_bad[OF 5(1)] 5 True by (simp add: read_ok_def)
    next
      case False
      then have "off + unat ?b < sz" by simp
      note rl = reads_to_label[OF 5(2,3) this \<open>sz \<le> length base\<close>, of name, folded name'_def]
      show ?thesis
      proof (cases "255 < length name + unat ?b + 1")
        case True then show ?thesis unfolding s' read_ok_def rl by simp
      next
        case l: False
        have "reads_to base sz off name jumped jc count = reads_to base sz (off + unat ?b + 1) name' jumped jc
            (if jumped then count else count + unat ?b + 1)"
          by (rule ext) (use rl l in auto)
        then show ?thesis unfolding s'
          using "1.IH"(2)[OF _ _ refl, folded name'_def] b 5 False l \<open>sz \<le> length base\<close> \<open>jc \<le> 257\<close> by simp
      qed
    qed
  qed
qed

text \<open>A position with a name that is not too long and does not jump too often.\<close>

definition readable :: "bytes \<Rightarrow> nat \<Rightarrow> nat \<Rightarrow> bytes \<times> nat \<Rightarrow> bool" where
  "readable base sz off r \<longleftrightarrow> (\<exists>j ls n. name_at base sz off j ls n \<and> j \<le> 257 \<and> length (dotted ls) \<le> 255 \<and>
     r = (butlast (dotted ls), if j = 0 then n + 1 else n))"

lemma readable_reads_to:
  "readable base sz off r \<longleftrightarrow>
     (\<exists>name jumped count. reads_to base sz off [] False 0 0 (name, jumped, count) \<and>
        r = (if name = [] then [] else butlast name, if jumped then count else count + 1))"
proof
  assume "readable base sz off r"
  then obtain j ls n where h: "name_at base sz off j ls n" "j \<le> 257" "length (dotted ls) \<le> 255"
      "r = (butlast (dotted ls), if j = 0 then n + 1 else n)"
    unfolding readable_def by blast
  then have "reads_to base sz off [] False 0 0 (dotted ls, 0 < j, n)" unfolding reads_to_def by auto
  then show "\<exists>name jumped count. reads_to base sz off [] False 0 0 (name, jumped, count) \<and>
      r = (if name = [] then [] else butlast name, if jumped then count else count + 1)"
    using h(4) by (intro exI[of _ "dotted ls"] exI[of _ "0 < j"] exI[of _ n]) auto
next
  assume "\<exists>name jumped count. reads_to base sz off [] False 0 0 (name, jumped, count) \<and>
      r = (if name = [] then [] else butlast name, if jumped then count else count + 1)"
  then obtain name jumped count where a: "reads_to base sz off [] False 0 0 (name, jumped, count)"
      and r: "r = (if name = [] then [] else butlast name, if jumped then count else count + 1)" by blast
  from a obtain j ls n where "name_at base sz off j ls n" "j \<le> 257" "ls \<noteq> [] \<longrightarrow> length (dotted ls) \<le> 255"
      "name = dotted ls" "jumped = (0 < j)" "count = n"
    unfolding reads_to_def by auto
  with r show "readable base sz off r" unfolding readable_def
    by (intro exI[of _ j] exI[of _ ls] exI[of _ n]) (cases ls, auto)
qed

lemma ReadName_ok:
  assumes "sz \<le> length base"
  shows "read_ok base sz (readable base sz off) (ReadName base sz off)"
proof -
  have l: "read_ok base sz (reads_to base sz off [] False 0 0) (ReadName_loop base sz off [] False 0 0)"
    using ReadName_loop_exact[OF assms, of 0] by simp
  show ?thesis
  proof (cases "ReadName_loop base sz off [] False 0 0")
    case (Done r)
    obtain name jumped count where r: "r = (name, jumped, count)" by (cases r)
    then have "reads_to base sz off [] False 0 0 (name, jumped, count)"
        "\<forall>r'. reads_to base sz off [] False 0 0 r' \<longrightarrow> r' = (name, jumped, count)"
      using l Done by (simp_all add: read_ok_def)
    then have "\<forall>r'. readable base sz off r' \<longleftrightarrow>
        r' = (if name = [] then [] else butlast name, if jumped then count else count + 1)"
      unfolding readable_reads_to by blast
    then show ?thesis unfolding ReadName_def Done r bindO_def read_ok_def by simp
  next
    case Fail
    then have "\<nexists>r. reads_to base sz off [] False 0 0 r" using l by (simp add: read_ok_def)
    then have "\<nexists>r. readable base sz off r" unfolding readable_reads_to by blast
    then show ?thesis unfolding ReadName_def Fail bindO_def read_ok_def by simp
  next
    case (Abort x)
    then have "\<nexists>r. reads_to base sz off [] False 0 0 r" using l unfolding read_ok_def by auto
    then have "\<nexists>r. readable base sz off r" unfolding readable_reads_to by blast
    then show ?thesis using l unfolding ReadName_def Abort bindO_def read_ok_def by auto
  qed
qed

text \<open>
  C12: \<open>ReadName\<close> ends for every message, however its pointers are chained.  It returns
  a name exactly when labels and pointers from the position lead to the end of
  a name over at most 257 jumps and at most 255 characters, and then returns
  the labels joined by dots and the bytes used up to the first jump.  The only
  access outside the block is the second byte of a pointer whose first byte is
  the last of the block.
\<close>

theorem ReadName_exact:
  assumes "sz \<le> length base"
  shows "case ReadName base sz off of
      Done r \<Rightarrow> readable base sz off r \<and> (\<forall>r'. readable base sz off r' \<longrightarrow> r' = r)
    | Fail \<Rightarrow> (\<nexists>r. readable base sz off r)
    | Abort _ \<Rightarrow> (\<nexists>r. readable base sz off r) \<and> sz = length base \<and> base \<noteq> [] \<and> 192 \<le> unat (last base)"
  using ReadName_ok[OF assms, of off] unfolding read_ok_def by (cases "ReadName base sz off") auto

text \<open>A message with a name of two labels, the second one through a pointer, and one with a pointer to itself.\<close>

theorem ReadName_exact_witness:
  "ReadName [2, 110, 108, 0, 3, 119, 119, 119, 0xc0, 0, 0] 10 4 = Done (bytes_of ''www.nl'', 6) \<and>
   readable [2, 110, 108, 0, 3, 119, 119, 119, 0xc0, 0, 0] 10 4 (bytes_of ''www.nl'', 6)"
proof -
  have e: "ReadName [2, 110, 108, 0, 3, 119, 119, 119, 0xc0, 0, 0] 10 4 = Done (bytes_of ''www.nl'', 6)"
    by code_simp
  show ?thesis
    using ReadName_exact[of 10 "[2, 110, 108, 0, 3, 119, 119, 119, 0xc0, 0, 0]" 4] e by simp
qed


section \<open>Encoding a name\<close>

definition label_ok :: "string \<Rightarrow> bool" where
  "label_ok l \<longleftrightarrow> l \<noteq> [] \<and> length l \<le> 63 \<and> CHR ''.'' \<notin> set l"

definition dotted_name :: "string list \<Rightarrow> string" where
  "dotted_name ls = concat (map (\<lambda>l. l @ ''.'') ls)"

lemma dotted_name_simps [simp]: "dotted_name [] = []" "dotted_name (l # ls) = l @ CHR ''.'' # dotted_name ls"
  by (simp_all add: dotted_name_def)

lemma to_dns_loop_exact:
  assumes "length dst + length src < maxlen"
  shows "case to_dns_loop maxlen src dst of
      Done r \<Rightarrow> \<exists>ls. list_all label_ok ls \<and> src = dotted_name ls \<and> r = dst @ wire_name (map bytes_of ls)
    | Fail \<Rightarrow> (\<nexists>ls. list_all label_ok ls \<and> src = dotted_name ls)
    | Abort _ \<Rightarrow> False"
  using assms
proof (induction maxlen src dst rule: to_dns_loop.induct)
  case (1 maxlen src dst)
  show ?case
  proof (cases "src = []")
    case True
    then show ?thesis by (subst to_dns_loop.simps) (auto intro: exI[of _ "[]"])
  next
    case ne: False
    then have go: "\<not> (src = [] \<or> maxlen \<le> length dst)" using "1.prems" by simp
    show ?thesis
    proof (cases "strchr src CHR ''.''")
      case None
      then have "\<nexists>ls. src = dotted_name ls"
        using ne by (auto simp: strchr_None_iff) (metis dotted_name_simps in_set_conv_decomp list.exhaust)
      then show ?thesis using None go by (subst to_dns_loop.simps) auto
    next
      case (Some n)
      then obtain a b where s: "src = a @ CHR ''.'' # b" "CHR ''.'' \<notin> set a" "length a = n" by (rule strchr_SomeE)
      have hd: "label_ok l \<Longrightarrow> src = dotted_name (l # ls) \<Longrightarrow> l = a \<and> b = dotted_name ls" for l ls
        using s by (auto simp: label_ok_def split_at_first)
      show ?thesis
      proof (cases "63 < n \<or> n = 0")
        case True
        have "\<not> (list_all label_ok ls \<and> src = dotted_name ls)" for ls
          using ne True s(3) hd[of "hd ls" "tl ls"] by (cases ls) (auto simp: label_ok_def)
        then show ?thesis using Some go True by (subst to_dns_loop.simps) auto
      next
        case False
        let ?dst = "dst @ of_nat n # bytes_of a"
        have d: "drop (n + 1) src = b" "take n src = a" using s by auto
        have ok: "label_ok a" using False s by (auto simp: label_ok_def)
        have e: "to_dns_loop maxlen src dst = to_dns_loop maxlen b ?dst"
          using Some go False s by (subst to_dns_loop.simps) simp
        have p: "list_all label_ok ls \<and> src = dotted_name ls \<longleftrightarrow>
            (\<exists>ls'. ls = a # ls' \<and> list_all label_ok ls' \<and> b = dotted_name ls')" for ls
          using ne ok s(1) hd[of "hd ls" "tl ls"] by (cases ls) auto
        have ih: "case to_dns_loop maxlen b ?dst of
            Done r \<Rightarrow> \<exists>ls. list_all label_ok ls \<and> b = dotted_name ls \<and> r = ?dst @ wire_name (map bytes_of ls)
          | Fail \<Rightarrow> (\<nexists>ls. list_all label_ok ls \<and> b = dotted_name ls)
          | Abort _ \<Rightarrow> False"
          using "1.IH"[OF go Some, unfolded d] False s "1.prems" by (simp add: bytes_of_def split: outcome.splits)
        show ?thesis
        proof (cases "to_dns_loop maxlen b ?dst")
          case (Done r)
          then obtain ls where "list_all label_ok ls" "b = dotted_name ls" "r = ?dst @ wire_name (map bytes_of ls)"
            using ih by auto
          then show ?thesis unfolding e Done using ok s
            by (auto simp: bytes_of_def intro!: exI[of _ "a # ls"])
        next
          case Fail
          then have "\<nexists>ls. list_all label_ok ls \<and> b = dotted_name ls" using ih by simp
          then show ?thesis unfolding e Fail p by auto
        next
          case (Abort x) then show ?thesis using ih by simp
        qed
      qed
    qed
  qed
qed

text \<open>The names of a query that \<open>ChangetoDnsNameFormat\<close> accepts, with their labels.\<close>

definition query_name :: "nat \<Rightarrow> string \<Rightarrow> string list \<Rightarrow> bool" where
  "query_name maxlen qry ls \<longleftrightarrow> length qry < maxlen \<and> list_all label_ok ls \<and>
     (qry = dotted_name ls \<or> qry = ''.'' \<and> ls = [])"

lemma ChangetoDnsNameFormat_exact:
  "case ChangetoDnsNameFormat maxlen qry of
      Done r \<Rightarrow> \<exists>ls. query_name maxlen qry ls \<and> r = wire_name (map bytes_of ls)
    | Fail \<Rightarrow> (\<nexists>ls. query_name maxlen qry ls)
    | Abort _ \<Rightarrow> False"
proof (cases "length qry < maxlen \<and> qry \<noteq> ''.''")
  case True
  then have e: "ChangetoDnsNameFormat maxlen qry = to_dns_loop maxlen qry []"
    by (simp add: ChangetoDnsNameFormat_def)
  have p: "query_name maxlen qry ls \<longleftrightarrow> list_all label_ok ls \<and> qry = dotted_name ls" for ls
    using True by (auto simp: query_name_def)
  show ?thesis unfolding e p using to_dns_loop_exact[of "[]" qry maxlen] True by (auto split: outcome.splits)
next
  case False
  then show ?thesis
    by (cases "length qry < maxlen") (auto simp: ChangetoDnsNameFormat_def query_name_def intro: exI[of _ "[]"])
qed

lemma length_wire_name: "length (wire_name (map bytes_of ls)) = length (dotted_name ls) + 1"
  by (induction ls) (auto simp: bytes_of_def)

lemma dotted_bytes_of: "dotted (map bytes_of ls) = bytes_of (dotted_name ls)"
  by (induction ls) (auto simp: bytes_of_def)

text \<open>The labels written can be read again, wherever they lie in a message.\<close>

lemma name_at_wire_name:
  assumes "list_all label_ok ls" "length pre + length (wire_name (map bytes_of ls)) \<le> sz"
  shows "name_at (pre @ wire_name (map bytes_of ls) @ post) sz (length pre) 0 (map bytes_of ls) (length (dotted_name ls))"
  using assms
proof (induction ls arbitrary: pre)
  case Nil
  then show ?case by (auto intro!: name_at.root)
next
  case (Cons l ls)
  have l: "0 < length l" "length l \<le> 63" using Cons.prems(1) by (auto simp: label_ok_def)
  then have u: "unat (of_nat (length l) :: u8) = length l" by (simp add: unsigned_of_nat take_bit_nat_eq_self)
  let ?pre = "pre @ of_nat (length l) # bytes_of l"
  let ?m = "pre @ wire_name (map bytes_of (l # ls)) @ post"
  have m: "?m = ?pre @ wire_name (map bytes_of ls) @ post" by (simp add: bytes_of_def)
  have ih: "name_at ?m sz (length ?pre) 0 (map bytes_of ls) (length (dotted_name ls))"
    unfolding m using Cons.prems by (intro Cons.IH) (auto simp: bytes_of_def)
  have b: "?m ! length pre = of_nat (length l)" by (simp add: bytes_of_def nth_append)
  have t: "take (length l) (drop (length pre + 1) ?m) = bytes_of l" by (simp add: bytes_of_def)
  have o: "length ?pre = length pre + unat (?m ! length pre) + 1" unfolding b u by (simp add: bytes_of_def)
  have "name_at ?m sz (length pre) 0 (take (unat (?m ! length pre)) (drop (length pre + 1) ?m) # map bytes_of ls)
      (unat (?m ! length pre) + 1 + length (dotted_name ls))"
    by (rule name_at.label) (use l u b Cons.prems ih[unfolded o] in \<open>auto simp: bytes_of_def\<close>)
  then show ?case unfolding b u t by simp
qed

text \<open>
  Reading undoes encoding: wherever the encoded name of a query lies in a message,
  \<open>ReadName\<close> returns the name without its final dot and the number of bytes that
  were written.
\<close>

lemma ReadName_encoded:
  assumes "ChangetoDnsNameFormat maxlen qry = Done enc" "maxlen \<le> 256" "sz = length pre + length enc + k"
    "k \<le> length post"
  shows "ReadName (pre @ enc @ post) sz (length pre) = Done (bytes_of (butlast qry), length enc)"
proof -
  obtain ls where q: "query_name maxlen qry ls" and e: "enc = wire_name (map bytes_of ls)"
    using ChangetoDnsNameFormat_exact[of maxlen qry] assms(1) by auto
  have bl: "bytes_of (butlast qry) = butlast (dotted (map bytes_of ls))"
    using q by (auto simp: query_name_def dotted_bytes_of) (auto simp: bytes_of_def map_butlast)
  have "length (dotted (map bytes_of ls)) \<le> 255"
    using q assms(2) by (auto simp: query_name_def dotted_bytes_of bytes_of_def)
  moreover have "name_at (pre @ enc @ post) sz (length pre) 0 (map bytes_of ls) (length (dotted_name ls))"
    unfolding e by (rule name_at_wire_name) (use q assms(3) e in \<open>auto simp: query_name_def\<close>)
  ultimately have r: "readable (pre @ enc @ post) sz (length pre) (bytes_of (butlast qry), length enc)"
    unfolding readable_def bl e length_wire_name by (intro exI conjI) auto
  have sz: "sz \<le> length (pre @ enc @ post)" using assms(3,4) by simp
  show ?thesis
  proof (cases "ReadName (pre @ enc @ post) sz (length pre)")
    case (Done r') then show ?thesis using ReadName_ok[OF sz, of "length pre"] r by (simp add: read_ok_def)
  next
    case Fail then show ?thesis using ReadName_ok[OF sz, of "length pre"] r by (simp add: read_ok_def)
  next
    case (Abort x) then show ?thesis using ReadName_ok[OF sz, of "length pre"] r unfolding read_ok_def by auto
  qed
qed

text \<open>The encoded name fits the buffer.\<close>

lemma ChangetoDnsNameFormat_length:
  assumes "ChangetoDnsNameFormat maxlen qry = Done enc"
  shows "length enc \<le> maxlen" "enc \<noteq> []"
proof -
  obtain ls where q: "query_name maxlen qry ls" and e: "enc = wire_name (map bytes_of ls)"
    using ChangetoDnsNameFormat_exact[of maxlen qry] assms by auto
  show "length enc \<le> maxlen" "enc \<noteq> []"
    using q unfolding e query_name_def by (auto simp: length_wire_name) (auto simp: wire_name_def)
qed


section \<open>The length of the question\<close>

text \<open>
  \<open>dns_namelen\<close> agrees with the bytes \<open>ReadName\<close> counts for a name that is written out; a
  pointer counts as one byte only.
\<close>

lemma dns_namelen_at:
  assumes "name_at base sz off j ls n" "sz \<le> length base"
  shows "dns_namelen_loop base off sz =
    Done (if 0 < j then off + n - 1 else if off + n < sz then off + n + 1 else off + n)"
  using assms
proof (induction rule: name_at.induct)
  case (cut off)
  then show ?case by (subst dns_namelen_loop.simps) simp
next
  case (root off)
  then show ?case by (subst dns_namelen_loop.simps) simp
next
  case (label off j ls n)
  have "base ! off AND 0xc0 = 0" "base ! off \<noteq> 0" using label(1,2) by (auto simp: label_bits)
  then show ?case using label by (subst dns_namelen_loop.simps) (auto simp: Let_def)
next
  case (pointer off t j ls n)
  have "base ! off AND 0xc0 = 0xc0" using pointer(3) by (simp add: label_bits)
  then show ?case using pointer by (subst dns_namelen_loop.simps) (simp add: Let_def)
qed

lemma ldns_be16: "ldns_write_uint16 v = to_be16 v" "ldns_read_uint16 a b = be16 a b"
proof -
  have e: "(0xff :: u16) = mask 8" by (simp add: mask_eq_exp_minus_1)
  show "ldns_write_uint16 v = to_be16 v"
    unfolding ldns_write_uint16_def to_be16_def e by (auto intro!: bit_word_eqI simp: bit_simps)
  show "ldns_read_uint16 a b = be16 a b" by (simp add: ldns_read_uint16_def be16_def)
qed

end
