(* ===== verification/Sha256.thy ===== *)
theory Sha256
  imports Probe_Prelude
begin

text \<open>
  SHA-256 of \<^verbatim>\<open>libbb/hash_md5_sha.c\<close>, which the DNS measurement uses for its cookies: the
  buffer that collects 64 bytes, the compression function, padding and output.
  The lemmas show that the streaming functions compute the hash of FIPS 180-2
  of the concatenated input, and that the tables of constants are the roots of
  the first primes.  The buffer code is shared with other hashes through a
  function pointer; its laws are a locale over the block function.
\<close>


section \<open>Model\<close>

definition rotr32 :: "u32 \<Rightarrow> nat \<Rightarrow> u32" where
  "rotr32 x n = drop_bit n x OR push_bit (32 - n) x"

record md5_ctx =
  wbuffer :: bytes
  total64 :: u64
  hash :: "u32 list"

function hash_loop :: "(md5_ctx \<Rightarrow> md5_ctx) \<Rightarrow> md5_ctx \<Rightarrow> nat \<Rightarrow> bytes \<Rightarrow> md5_ctx" where
  "hash_loop process_block ctx bufpos buffer =
     (let remaining = min (64 - bufpos) (length buffer);
          ctx' = ctx\<lparr>wbuffer := blit (wbuffer ctx) bufpos (take remaining buffer)\<rparr> in
      if bufpos + remaining \<noteq> 64 then ctx'
      else hash_loop process_block (process_block ctx') 0 (drop remaining buffer))"
  by pat_completeness auto
termination
  by (relation "measures [\<lambda>(p, ctx, bufpos, buffer). length buffer, \<lambda>(p, ctx, bufpos, buffer). bufpos]") auto

declare hash_loop.simps [simp del]

definition common64_hash :: "(md5_ctx \<Rightarrow> md5_ctx) \<Rightarrow> md5_ctx \<Rightarrow> bytes \<Rightarrow> md5_ctx" where
  "common64_hash process_block ctx buffer =
     hash_loop process_block (ctx\<lparr>total64 := total64 ctx + of_nat (length buffer)\<rparr>)
       (unat (total64 ctx AND 63)) buffer"

definition to_be64 :: "u64 \<Rightarrow> bytes" where
  "to_be64 v = to_be32 (ucast (drop_bit 32 v)) @ to_be32 (ucast v)"

function end_loop :: "(md5_ctx \<Rightarrow> md5_ctx) \<Rightarrow> md5_ctx \<Rightarrow> nat \<Rightarrow> md5_ctx" where
  "end_loop process_block ctx bufpos =
     (let remaining = 64 - bufpos;
          buf = blit (wbuffer ctx) bufpos (replicate remaining 0) in
      if 8 \<le> remaining then
        process_block (ctx\<lparr>wbuffer := blit buf (64 - 8) (to_be64 (push_bit 3 (total64 ctx)))\<rparr>)
      else end_loop process_block (process_block (ctx\<lparr>wbuffer := buf\<rparr>)) 0)"
  by pat_completeness auto
termination
  by (relation "measure (\<lambda>(p, ctx, bufpos). bufpos)") auto

declare end_loop.simps [simp del]

definition common64_end :: "(md5_ctx \<Rightarrow> md5_ctx) \<Rightarrow> md5_ctx \<Rightarrow> md5_ctx" where
  "common64_end process_block ctx =
     (let bufpos = unat (total64 ctx AND 63) in
      end_loop process_block (ctx\<lparr>wbuffer := (wbuffer ctx)[bufpos := 0x80]\<rparr>) (bufpos + 1))"

text \<open>
  The table of the C file, which writes the same 64-bit numbers in hexadecimal; the
  first is 428a2f98d728ae22.  SHA-256 uses the upper halves of the first 64.
\<close>

definition sha_K :: "u64 list" where
  "sha_K =
    [4794697086780616226, 8158064640168781261, 13096744586834688815, 16840607885511220156,
     4131703408338449720, 6480981068601479193, 10538285296894168987, 12329834152419229976,
     15566598209576043074, 1334009975649890238, 2608012711638119052, 6128411473006802146,
     8268148722764581231, 9286055187155687089, 11230858885718282805, 13951009754708518548,
     16472876342353939154, 17275323862435702243, 1135362057144423861, 2597628984639134821,
     3308224258029322869, 5365058923640841347, 6679025012923562964, 8573033837759648693,
     10970295158949994411, 12119686244451234320, 12683024718118986047, 13788192230050041572,
     14330467153632333762, 15395433587784984357, 489312712824947311, 1452737877330783856,
     2861767655752347644, 3322285676063803686, 5560940570517711597, 5996557281743188959,
     7280758554555802590, 8532644243296465576, 9350256976987008742, 10552545826968843579,
     11727347734174303076, 12113106623233404929, 14000437183269869457, 14369950271660146224,
     15101387698204529176, 15463397548674623760, 17586052441742319658, 1182934255886127544,
     1847814050463011016, 2177327727835720531, 2830643537854262169, 3796741975233480872,
     4115178125766777443, 5681478168544905931, 6601373596472566643, 7507060721942968483,
     8399075790359081724, 8693463985226723168, 9568029438360202098, 10144078919501101548,
     10430055236837252648, 11840083180663258601, 13761210420658862357, 14299343276471374635,
     14566680578165727644, 15097957966210449927, 16922976911328602910, 17689382322260857208,
     500013540394364858, 748580250866718886, 1242879168328830382, 1977374033974150939,
     2944078676154940804, 3659926193048069267, 4368137639120453308, 4836135668995329356,
     5532061633213252278, 6448918945643986474, 6902733635092675308, 7801388544844847127]"

definition Ch :: "u32 \<Rightarrow> u32 \<Rightarrow> u32 \<Rightarrow> u32" where "Ch x y z = (x AND y) XOR (NOT x AND z)"
definition Maj :: "u32 \<Rightarrow> u32 \<Rightarrow> u32 \<Rightarrow> u32" where "Maj x y z = (x AND y) XOR (x AND z) XOR (y AND z)"
definition S0 :: "u32 \<Rightarrow> u32" where "S0 x = rotr32 x 2 XOR rotr32 x 13 XOR rotr32 x 22"
definition S1 :: "u32 \<Rightarrow> u32" where "S1 x = rotr32 x 6 XOR rotr32 x 11 XOR rotr32 x 25"
definition R0 :: "u32 \<Rightarrow> u32" where "R0 x = rotr32 x 7 XOR rotr32 x 18 XOR drop_bit 3 x"
definition R1 :: "u32 \<Rightarrow> u32" where "R1 x = rotr32 x 17 XOR rotr32 x 19 XOR drop_bit 10 x"

text \<open>The words of the buffer as \<^verbatim>\<open>SWAP_BE32\<close> reads them, and the message schedule.\<close>

definition be_word :: "bytes \<Rightarrow> nat \<Rightarrow> u32" where
  "be_word b t = be32 (b ! (4 * t)) (b ! (4 * t + 1)) (b ! (4 * t + 2)) (b ! (4 * t + 3))"

definition schedule :: "bytes \<Rightarrow> u32 list" where
  "schedule b =
     foldl (\<lambda>W t. W @ [R1 (W ! (t - 2)) + W ! (t - 7) + R0 (W ! (t - 15)) + W ! (t - 16)])
       (map (be_word b) [0..<16]) [16..<64]"

type_synonym regs = "u32 \<times> u32 \<times> u32 \<times> u32 \<times> u32 \<times> u32 \<times> u32 \<times> u32"

definition sha256_round :: "u32 list \<Rightarrow> regs \<Rightarrow> nat \<Rightarrow> regs" where
  "sha256_round W s t =
     (case s of (a, b, c, d, e, f, g, h) \<Rightarrow>
        let K_t = ucast (drop_bit 32 (sha_K ! t));
            T1 = h + S1 e + Ch e f g + K_t + W ! t;
            T2 = S0 a + Maj a b c in
        (T1 + T2, a, b, c, d + T1, e, f, g))"

definition sha256_process_block64 :: "md5_ctx \<Rightarrow> md5_ctx" where
  "sha256_process_block64 ctx =
     (let W = schedule (wbuffer ctx); H = hash ctx in
      case foldl (sha256_round W) (H ! 0, H ! 1, H ! 2, H ! 3, H ! 4, H ! 5, H ! 6, H ! 7) [0..<64] of
        (a, b, c, d, e, f, g, h) \<Rightarrow>
          ctx\<lparr>hash := [H ! 0 + a, H ! 1 + b, H ! 2 + c, H ! 3 + d, H ! 4 + e, H ! 5 + f, H ! 6 + g, H ! 7 + h]\<rparr>)"

definition init256 :: "u32 list" where
  "init256 = [0, 0, 0x6a09e667, 0xbb67ae85, 0x3c6ef372, 0xa54ff53a, 0x510e527f, 0x9b05688c, 0x1f83d9ab, 0x5be0cd19]"

text \<open>The two leading zeros of \<open>init256\<close> clear the counter; the buffer keeps what was on the stack.\<close>

definition sha256_begin :: "bytes \<Rightarrow> md5_ctx" where
  "sha256_begin stack = \<lparr>wbuffer = stack, total64 = 0, hash = drop 2 init256\<rparr>"

definition sha256_hash :: "md5_ctx \<Rightarrow> bytes \<Rightarrow> md5_ctx" where
  "sha256_hash = common64_hash sha256_process_block64"

definition sha256_end :: "md5_ctx \<Rightarrow> bytes" where
  "sha256_end ctx = concat (map to_be32 (take 8 (hash (common64_end sha256_process_block64 ctx))))"


section \<open>Specification\<close>

text \<open>
  FIPS 180-2: the padded message, its blocks of 64 bytes, and the compression
  function on them.
\<close>

definition pad_length :: "nat \<Rightarrow> nat" where
  "pad_length n = (119 - n mod 64) mod 64"

definition padded :: "bytes \<Rightarrow> bytes" where
  "padded m = m @ [0x80] @ replicate (pad_length (length m)) 0 @ to_be64 (of_nat (8 * length m))"

function blocks64 :: "bytes \<Rightarrow> bytes list" where
  "blocks64 m = (if length m < 64 then [] else take 64 m # blocks64 (drop 64 m))"
  by pat_completeness auto
termination by (relation "measure length") auto

declare blocks64.simps [simp del]

fun fips_W :: "bytes \<Rightarrow> nat \<Rightarrow> u32" where
  "fips_W M t =
     (if t < 16 then be_word M t
      else R1 (fips_W M (t - 2)) + fips_W M (t - 7) + R0 (fips_W M (t - 15)) + fips_W M (t - 16))"

declare fips_W.simps [simp del]

fun fips_rounds :: "bytes \<Rightarrow> nat \<Rightarrow> regs \<Rightarrow> regs" where
  "fips_rounds M 0 s = s"
| "fips_rounds M (Suc t) s =
     (case fips_rounds M t s of (a, b, c, d, e, f, g, h) \<Rightarrow>
        let T1 = h + S1 e + Ch e f g + ucast (drop_bit 32 (sha_K ! t)) + fips_W M t in
        (T1 + S0 a + Maj a b c, a, b, c, d + T1, e, f, g))"

definition fips_compress :: "u32 list \<Rightarrow> bytes \<Rightarrow> u32 list" where
  "fips_compress H M =
     (case fips_rounds M 64 (H ! 0, H ! 1, H ! 2, H ! 3, H ! 4, H ! 5, H ! 6, H ! 7) of
        (a, b, c, d, e, f, g, h) \<Rightarrow> map2 (+) H [a, b, c, d, e, f, g, h])"

definition fips_sha256 :: "bytes \<Rightarrow> bytes" where
  "fips_sha256 m = concat (map to_be32 (foldl fips_compress (drop 2 init256) (blocks64 (padded m))))"

text \<open>The fractional part of a root of a prime, cut off after \<open>w\<close> bits.\<close>

definition root_fraction :: "nat \<Rightarrow> nat \<Rightarrow> int \<Rightarrow> int \<Rightarrow> bool" where
  "root_fraction k w p x \<longleftrightarrow> 0 \<le> x \<and> x < 2 ^ w \<and>
     list_ex (\<lambda>n. (n * 2 ^ w + x) ^ k \<le> p * 2 ^ (k * w) \<and> p * 2 ^ (k * w) < (n * 2 ^ w + x + 1) ^ k) [1..8]"

text \<open>No divisor up to 20 below the number itself; 409 is below the square of 21.\<close>

definition first_primes :: "int list" where
  "first_primes = filter (\<lambda>p. list_all (\<lambda>d. p \<le> d \<or> p mod d \<noteq> 0) [2..20]) [2..409]"

lemma first_primes_eval:
  "first_primes =
    [2, 3, 5, 7, 11, 13, 17, 19, 23, 29, 31, 37, 41, 43, 47, 53, 59, 61, 67, 71, 73, 79, 83, 89, 97,
     101, 103, 107, 109, 113, 127, 131, 137, 139, 149, 151, 157, 163, 167, 173, 179, 181, 191, 193, 197,
     199, 211, 223, 227, 229, 233, 239, 241, 251, 257, 263, 269, 271, 277, 281, 283, 293, 307, 311, 313,
     317, 331, 337, 347, 349, 353, 359, 367, 373, 379, 383, 389, 397, 401, 409]"
  by code_simp

text \<open>
  C37: The 80 constants of \<open>sha_K\<close> are the first 64 bits of the fractional parts of
  the cube roots of the first 80 primes, so the upper halves used by SHA-256 are
  those of the standard; the initial values are the first 32 bits of the square
  roots of the first eight primes.
\<close>

theorem sha_constants:
  "length sha_K = 80 \<and> length first_primes = 80 \<and>
   list_all2 (root_fraction 3 64) first_primes (map uint sha_K) \<and>
   list_all2 (root_fraction 2 32) (take 8 first_primes) (map uint (drop 2 init256)) \<and>
   take 2 init256 = [0, 0]"
  unfolding first_primes_eval by code_simp


section \<open>Blocks\<close>

lemma blocks64_whole: "length b = 64 \<Longrightarrow> blocks64 (b @ m) = b # blocks64 m"
  by (subst blocks64.simps) simp

lemma blocks64_append: "64 dvd length w \<Longrightarrow> blocks64 (w @ m) = blocks64 w @ blocks64 m"
proof (induction w rule: blocks64.induct)
  case (1 w)
  show ?case
  proof (cases "length w < 64")
    case True
    then have "w = []" using "1.prems" by (auto dest: dvd_imp_le)
    then show ?thesis by (simp add: blocks64.simps[of "[]"])
  next
    case False
    have w: "w = take 64 w @ drop 64 w" by simp
    have "64 dvd length (drop 64 w)" using "1.prems" False by (simp add: dvd_diff_nat)
    then have "blocks64 (drop 64 w @ m) = blocks64 (drop 64 w) @ blocks64 m" using "1.IH" False by simp
    then have "blocks64 (take 64 w @ drop 64 w @ m) = take 64 w # blocks64 (drop 64 w) @ blocks64 m"
      using blocks64_whole[of "take 64 w" "drop 64 w @ m"] False by simp
    moreover have "blocks64 w = take 64 w # blocks64 (drop 64 w)" using False by (subst blocks64.simps) simp
    ultimately show ?thesis by (metis append.assoc append_Cons append_take_drop_id)
  qed
qed

lemma blocks64_snoc: "64 dvd length w \<Longrightarrow> length b = 64 \<Longrightarrow> blocks64 (w @ b) = blocks64 w @ [b]"
  using blocks64_append[of w b] blocks64_whole[of b "[]"] by (simp add: blocks64.simps[of "[]"])

lemma length_to_be64 [simp]: "length (to_be64 v) = 8"
  by (simp add: to_be64_def)

lemma unat_and_63: "unat ((of_nat n :: u64) AND 63) = n mod 64"
proof -
  have e: "(63 :: u64) = mask 6" by (simp add: mask_eq_exp_minus_1)
  have "unat ((of_nat n :: u64) AND 63) = take_bit 6 (take_bit 64 n)"
    unfolding e by (simp only: unsigned_take_bit_eq unsigned_of_nat flip: take_bit_eq_mask) simp
  then show ?thesis by (simp only: take_bit_take_bit) (simp add: take_bit_eq_mod)
qed


section \<open>Hashing in pieces\<close>

text \<open>
  What the buffer code needs of a block function: it replaces the hash by the
  compressed one and leaves the rest of the context alone.
\<close>

locale block_function =
  fixes process_block :: "md5_ctx \<Rightarrow> md5_ctx"
    and compress :: "u32 list \<Rightarrow> bytes \<Rightarrow> u32 list"
    and hash_size :: nat
  assumes process: "length (wbuffer ctx) = 64 \<Longrightarrow> length (hash ctx) = hash_size \<Longrightarrow>
      process_block ctx = ctx\<lparr>hash := compress (hash ctx) (wbuffer ctx)\<rparr>"
    and compress_size: "length H = hash_size \<Longrightarrow> length (compress H M) = hash_size"
begin

text \<open>The context after the whole blocks \<open>w\<close> and the rest \<open>t\<close>, started with the hash \<open>H\<close>.\<close>

definition holds :: "u32 list \<Rightarrow> bytes \<Rightarrow> bytes \<Rightarrow> md5_ctx \<Rightarrow> bool" where
  "holds H w t ctx \<longleftrightarrow> 64 dvd length w \<and> length t < 64 \<and> length (wbuffer ctx) = 64 \<and>
     take (length t) (wbuffer ctx) = t \<and> hash ctx = foldl compress H (blocks64 w) \<and> length (hash ctx) = hash_size"

lemma holds_block:
  assumes "holds H w t ctx" "length (t @ d) = 64" "wbuffer ctx' = t @ d" "hash ctx' = hash ctx"
  shows "holds H (w @ t @ d) [] (process_block ctx')" "total64 (process_block ctx') = total64 ctx'"
proof -
  have "process_block ctx' = ctx'\<lparr>hash := compress (hash ctx) (t @ d)\<rparr>"
    using assms process[of ctx'] by (auto simp: holds_def)
  then show "holds H (w @ t @ d) [] (process_block ctx')" "total64 (process_block ctx') = total64 ctx'"
    using assms by (auto simp: holds_def blocks64_snoc compress_size)
qed

lemma hash_loop_holds:
  assumes "holds H w t ctx"
  shows "\<exists>w' t'. w @ t @ buffer = w' @ t' \<and> holds H w' t' (hash_loop process_block ctx (length t) buffer) \<and>
     total64 (hash_loop process_block ctx (length t) buffer) = total64 ctx"
  using assms
proof (induction "length buffer" arbitrary: w t ctx buffer rule: less_induct)
  case less
  let ?r = "min (64 - length t) (length buffer)"
  let ?c = "ctx\<lparr>wbuffer := blit (wbuffer ctx) (length t) (take ?r buffer)\<rparr>"
  have t: "length t < 64" "take (length t) (wbuffer ctx) = t" "length (wbuffer ctx) = 64"
    using less.prems by (auto simp: holds_def)
  note s = hash_loop.simps[of process_block ctx "length t" buffer]
  show ?case
  proof (cases "length t + length buffer < 64")
    case True
    then have "hash_loop process_block ctx (length t) buffer = ?c" using s by (simp add: Let_def)
    moreover have "holds H w (t @ buffer) ?c"
      using less.prems True t by (auto simp: holds_def blit_def)
    ultimately show ?thesis by (intro exI[of _ w] exI[of _ "t @ buffer"]) simp
  next
    case False
    then have r: "?r = 64 - length t" by simp
    let ?d = "take (64 - length t) buffer" and ?rest = "drop (64 - length t) buffer"
    have l: "length (t @ ?d) = 64" using False t by simp
    have wb: "wbuffer ?c = t @ ?d" using t l False unfolding r by (simp add: blit_def)
    note h = holds_block[OF less.prems l wb]
    have e: "hash_loop process_block ctx (length t) buffer = hash_loop process_block (process_block ?c) (length ([] :: bytes)) ?rest"
      using s False t unfolding r by (simp add: Let_def)
    have "length ?rest < length buffer" using False t by simp
    from less.hyps[OF this, of "w @ t @ ?d" "[]" "process_block ?c"] h(1)
    obtain w' t' where "(w @ t @ ?d) @ [] @ ?rest = w' @ t'" "holds H w' t' (hash_loop process_block (process_block ?c) (length ([] :: bytes)) ?rest)"
        "total64 (hash_loop process_block (process_block ?c) (length ([] :: bytes)) ?rest) = total64 (process_block ?c)"
      by auto
    then show ?thesis unfolding e using h(2) by (intro exI[of _ w'] exI[of _ t']) simp
  qed
qed

definition absorbed :: "u32 list \<Rightarrow> bytes \<Rightarrow> md5_ctx \<Rightarrow> bool" where
  "absorbed H m ctx \<longleftrightarrow> (\<exists>w t. m = w @ t \<and> holds H w t ctx) \<and> total64 ctx = of_nat (length m)"

lemma absorbed_pos:
  assumes "holds H w t ctx" "total64 ctx = of_nat (length (w @ t))"
  shows "unat (total64 ctx AND 63) = length t"
proof -
  have "unat (total64 ctx AND 63) = length (w @ t) mod 64" using assms(2) unat_and_63 by metis
  moreover obtain k where "length w = 64 * k" using assms(1) by (auto simp: holds_def elim!: dvdE)
  ultimately show ?thesis using assms(1) by (simp add: holds_def)
qed

lemma absorbed_hash:
  assumes "absorbed H m ctx"
  shows "absorbed H (m @ buffer) (common64_hash process_block ctx buffer)"
proof -
  obtain w t where m: "m = w @ t" and h: "holds H w t ctx" and n: "total64 ctx = of_nat (length (w @ t))"
    using assms unfolding absorbed_def by auto
  let ?c = "ctx\<lparr>total64 := total64 ctx + of_nat (length buffer)\<rparr>"
  have "holds H w t ?c" using h by (auto simp: holds_def)
  from hash_loop_holds[OF this, of buffer] show ?thesis
    unfolding absorbed_def common64_hash_def absorbed_pos[OF h n] m using n by auto
qed

lemma absorbed_chunks: "absorbed H m ctx \<Longrightarrow> absorbed H (m @ concat chunks) (foldl (common64_hash process_block) ctx chunks)"
proof (induction chunks arbitrary: m ctx)
  case (Cons c chunks)
  then show ?case using Cons.IH[OF absorbed_hash[OF Cons.prems, of c]] by simp
qed simp

lemma absorbed_end:
  assumes "absorbed H m ctx"
  shows "hash (common64_end process_block ctx) = foldl compress H (blocks64 (padded m))"
proof -
  obtain w t where m: "m = w @ t" and h: "holds H w t ctx" and n: "total64 ctx = of_nat (length (w @ t))"
    using assms unfolding absorbed_def by auto
  let ?n = "to_be64 (of_nat (8 * length m))"
  have t: "length t < 64" "take (length t) (wbuffer ctx) = t" "length (wbuffer ctx) = 64" and w: "64 dvd length w"
    using h by (auto simp: holds_def)
  have mod: "length m mod 64 = length t" using w t(1) by (auto simp: m elim!: dvdE)
  have bits: "push_bit 3 (total64 ctx) = of_nat (8 * length m)" using n m by (simp add: push_bit_eq_mult algebra_simps)
  define c where "c = ctx\<lparr>wbuffer := (wbuffer ctx)[length t := 0x80]\<rparr>"
  have c: "take (length t + 1) (wbuffer c) = t @ [0x80]" "length (wbuffer c) = 64" "total64 c = total64 ctx" "hash c = hash ctx"
    using t by (simp_all add: c_def take_update_swap take_Suc_conv_app_nth)
  have e: "common64_end process_block ctx = end_loop process_block c (length t + 1)"
    using absorbed_pos[OF h n] by (simp add: common64_end_def c_def Let_def)
  show ?thesis
  proof (cases "length t \<le> 55")
    case True
    let ?z = "[0x80] @ replicate (55 - length t) 0 @ ?n"
    have "119 - length t = 55 - length t + 64" using True by simp
    moreover have "(55 - length t + 64) mod 64 = 55 - length t" by simp
    ultimately have "(119 - length t) mod 64 = 55 - length t" by (simp only:)
    then have "padded m = w @ t @ ?z" using mod by (simp add: padded_def pad_length_def m)
    moreover have "end_loop process_block c (length t + 1) = process_block (c\<lparr>wbuffer := t @ ?z\<rparr>)"
    proof -
      have "56 - length t = Suc (55 - length t)" "8 \<le> 63 - length t" using True by auto
      then show ?thesis using c t bits by (subst end_loop.simps) (simp add: Let_def blit_def min_def)
    qed
    moreover have "length (t @ ?z) = 64" using True by simp
    ultimately show ?thesis
      using holds_block(1)[OF h, of ?z "c\<lparr>wbuffer := t @ ?z\<rparr>"] c unfolding e holds_def by simp
  next
    case False
    let ?y = "[0x80] @ replicate (63 - length t) 0" and ?z = "replicate 56 0 @ ?n"
    have z: "replicate (119 - length t) 0 = replicate (63 - length t) 0 @ replicate 56 (0 :: u8)"
      using t(1) by (simp flip: replicate_add)
    have "(119 - length t) mod 64 = 119 - length t" using False by simp
    with z have "padded m = (w @ t @ ?y) @ ?z"
      using mod by (simp add: padded_def pad_length_def m)
    moreover have "end_loop process_block c (length t + 1) = end_loop process_block (process_block (c\<lparr>wbuffer := t @ ?y\<rparr>)) 0"
      using False c t by (subst end_loop.simps) (simp add: Let_def blit_def)
    moreover have ly: "length (t @ ?y) = 64" using t(1) by simp
    moreover define c' where "c' = process_block (c\<lparr>wbuffer := t @ ?y\<rparr>)"
    moreover have h': "holds H (w @ t @ ?y) [] c'" "total64 c' = total64 ctx"
      using holds_block[OF h ly, of "c\<lparr>wbuffer := t @ ?y\<rparr>"] c by (simp_all add: c'_def)
    moreover have "end_loop process_block c' 0 = process_block (c'\<lparr>wbuffer := ?z\<rparr>)"
      using h' bits by (subst end_loop.simps) (simp add: Let_def blit_def holds_def)
    ultimately show ?thesis
      using holds_block(1)[OF h'(1), of ?z "c'\<lparr>wbuffer := ?z\<rparr>"] unfolding e holds_def by simp
  qed
qed

end


section \<open>The compression function\<close>

lemma schedule_prefix:
  assumes "n \<le> 48"
  shows "foldl (\<lambda>W t. W @ [R1 (W ! (t - 2)) + W ! (t - 7) + R0 (W ! (t - 15)) + W ! (t - 16)])
       (map (be_word M) [0..<16]) [16..<16 + n] = map (fips_W M) [0..<16 + n]"
  using assms
proof (induction n)
  case 0
  show ?case by (auto simp: fips_W.simps)
next
  case (Suc n)
  let ?W = "map (fips_W M) [0..<16 + n]"
  have "fips_W M (16 + n) = R1 (?W ! (16 + n - 2)) + ?W ! (16 + n - 7) + R0 (?W ! (16 + n - 15)) + ?W ! (16 + n - 16)"
    by (subst fips_W.simps) simp
  moreover have u: "[k..<16 + Suc n] = [k..<16 + n] @ [16 + n]" if "k \<le> 16" for k
    using upt_Suc_append[of k "16 + n"] that by simp
  ultimately show ?case unfolding u[OF order.refl] u[OF zero_le] foldl_append using Suc by simp
qed

lemma schedule_fips: "t < 64 \<Longrightarrow> schedule M ! t = fips_W M t"
proof -
  have e: "(64 :: nat) = 16 + 48" by simp
  have "schedule M = map (fips_W M) [0..<64]"
    unfolding schedule_def e by (rule schedule_prefix) simp
  then show "t < 64 \<Longrightarrow> schedule M ! t = fips_W M t" by (simp only: nth_map_upt) simp
qed

lemma rounds_fips: "n \<le> 64 \<Longrightarrow> foldl (sha256_round (schedule M)) s [0..<n] = fips_rounds M n s"
  by (induction n) (auto simp: sha256_round_def schedule_fips Let_def add.assoc split: prod.splits)

lemma length8: "length (H :: 'a list) = 8 \<Longrightarrow> \<exists>a b c d e f g h. H = [a, b, c, d, e, f, g, h]"
  by (auto simp: numeral_eq_Suc length_Suc_conv)

interpretation sha256: block_function sha256_process_block64 fips_compress 8
proof
  fix ctx :: md5_ctx assume "length (wbuffer ctx) = 64" "length (hash ctx) = 8"
  then obtain a b c d e f g h where H: "hash ctx = [a, b, c, d, e, f, g, h]" using length8[of "hash ctx"] by auto
  show "sha256_process_block64 ctx = ctx\<lparr>hash := fips_compress (hash ctx) (wbuffer ctx)\<rparr>"
    unfolding sha256_process_block64_def Let_def rounds_fips[OF order.refl] fips_compress_def H
    by (cases "fips_rounds (wbuffer ctx) 64 (a, b, c, d, e, f, g, h)") (simp split: prod.split)
next
  fix H :: "u32 list" and M :: bytes
  assume "length H = 8"
  then show "length (fips_compress H M) = 8" by (auto simp: fips_compress_def split: prod.splits)
qed

lemma sha256_chunks:
  assumes "length stack = 64"
  shows "hash (common64_end sha256_process_block64 (foldl sha256_hash (sha256_begin stack) chunks)) =
      foldl fips_compress (drop 2 init256) (blocks64 (padded (concat chunks)))"
proof -
  have "sha256.absorbed (drop 2 init256) [] (sha256_begin stack)"
    using assms by (simp add: sha256.absorbed_def sha256.holds_def sha256_begin_def init256_def blocks64.simps[of "[]"])
  from sha256.absorbed_end[OF sha256.absorbed_chunks[OF this, of chunks]] show ?thesis
    by (simp add: sha256_hash_def)
qed

lemma length_fips_hash: "length (foldl fips_compress (drop 2 init256) bs) = 8"
proof -
  have "length (foldl fips_compress H bs) = 8" if "length H = 8" for H
    using that by (induction bs arbitrary: H) (simp_all add: sha256.compress_size)
  then show ?thesis by (simp add: init256_def)
qed

lemma length_sha256:
  assumes "length stack = 64"
  shows "length (sha256_end (foldl sha256_hash (sha256_begin stack) chunks)) = 32"
proof -
  have "length (concat (map to_be32 H)) = 4 * length H" for H by (induction H) auto
  then show ?thesis unfolding sha256_end_def sha256_chunks[OF assms] by (simp add: length_fips_hash)
qed

text \<open>
  C9: Feeding the chunks of a message one after the other into the hash gives the
  SHA-256 of FIPS 180-2 of their concatenation: the buffering over chunk
  boundaries, the padding in one or two blocks, the bit counter, the message
  schedule and the rounds implement the standard, whatever the buffer held at
  the start.
\<close>

theorem sha256_refines_fips:
  assumes "length stack = 64"
  shows "sha256_end (foldl sha256_hash (sha256_begin stack) chunks) = fips_sha256 (concat chunks)"
  unfolding sha256_end_def sha256_chunks[OF assms] fips_sha256_def by (simp add: length_fips_hash)

lemma sha256_abc:
  "sha256_end (foldl sha256_hash (sha256_begin (replicate 64 0)) [bytes_of ''abc'']) =
     [0xba, 0x78, 0x16, 0xbf, 0x8f, 0x01, 0xcf, 0xea, 0x41, 0x41, 0x40, 0xde, 0x5d, 0xae, 0x22, 0x23,
      0xb0, 0x03, 0x61, 0xa3, 0x96, 0x17, 0x7a, 0x9c, 0xb4, 0x10, 0xff, 0x61, 0xf2, 0x00, 0x15, 0xad]"
  by code_simp

theorem sha256_refines_fips_witness:
  "fips_sha256 (bytes_of ''abc'') =
     [0xba, 0x78, 0x16, 0xbf, 0x8f, 0x01, 0xcf, 0xea, 0x41, 0x41, 0x40, 0xde, 0x5d, 0xae, 0x22, 0x23,
      0xb0, 0x03, 0x61, 0xa3, 0x96, 0x17, 0x7a, 0x9c, 0xb4, 0x10, 0xff, 0x61, 0xf2, 0x00, 0x15, 0xad]"
  using sha256_refines_fips[of "replicate 64 0" "[bytes_of ''abc'']"] unfolding sha256_abc by simp

end
