(* ===== verification/Dns_Query.thy ===== *)
theory Dns_Query
  imports Dns_Names Sha256
begin

text \<open>
  The queries of the DNS measurement and the cookies of its replies, from
  \<^verbatim>\<open>eperd/evtdig.c\<close>: \<open>mk_dns_buff\<close> builds a query with its EDNS options, \<open>get_edns_opt\<close>
  finds an option in a reply, \<open>update_server_cookie\<close> takes over the cookie of the
  server.  The lemmas show which message is built, that its question and
  options can be read back, that a cookie learned from a reply is sent with the
  next query, and how far the search for an option reads.
\<close>


section \<open>State\<close>

text \<open>
  The part of \<open>struct query_state\<close> that decides on the query.  Flags are truth
  values; \<open>replay\<close> stands for \<open>response_in\<close> or \<open>response_out\<close> being set.  A server cookie is
  the list of its \<open>len\<close> bytes.
\<close>

record dns_cookie_state =
  client_secret :: bytes
  client_cookie :: bytes
  server_cookies :: "bytes list"

record query_state =
  qryid :: u16
  cookie_state :: dns_cookie_state
  opt_AF_INET :: bool
  opt_edns0 :: int
  opt_edns_version :: int
  opt_edns_flags :: int
  opt_edns_option :: int
  opt_dnssec :: bool
  opt_nsid :: bool
  opt_client_subnet :: bool
  opt_cookies :: bool
  opt_resolv_conf :: bool
  opt_rd :: bool
  opt_ad :: bool
  opt_cd :: bool
  opt_prepend_probe_id :: bool
  resolv_i :: nat
  client_cookie_mismatch :: bool
  qtype :: u16
  qclass :: u16
  lookupname :: string
  replay :: bool
  pktsize :: nat
  xmit_time :: nat

definition MAX_DNS_OUT_BUF_SIZE :: nat where "MAX_DNS_OUT_BUF_SIZE = 512"
definition MAX_DNS_BUF_SIZE :: nat where "MAX_DNS_BUF_SIZE = 5120"
definition DEFAULT_LINE_LENGTH :: nat where "DEFAULT_LINE_LENGTH = 256"
definition EDNS_OPT_CLIENT_SUBNET :: u16 where "EDNS_OPT_CLIENT_SUBNET = 8"
definition EDNS_OPT_COOKIE :: u16 where "EDNS_OPT_COOKIE = 10"
definition DNS_CLIENT_COOKIE_LEN :: nat where "DNS_CLIENT_COOKIE_LEN = 8"
definition DNS_SERVER_COOKIE_MIN_LEN :: nat where "DNS_SERVER_COOKIE_MIN_LEN = 8"
definition DNS_SERVER_COOKIE_MAX_LEN :: nat where "DNS_SERVER_COOKIE_MAX_LEN = 32"

text \<open>The resource record type of EDNS0 options, and the sizes of the structures.\<close>

definition ns_t_opt :: u16 where "ns_t_opt = 41"
definition sizeof_DNS_HEADER :: nat where "sizeof_DNS_HEADER = 12"
definition sizeof_QUESTION :: nat where "sizeof_QUESTION = 4"
definition sizeof_EDNS0_HEADER :: nat where "sizeof_EDNS0_HEADER = 10"
definition sizeof_EDNS_NSID :: nat where "sizeof_EDNS_NSID = 4"
definition sizeof_EDNS_CLIENT_SUBNET :: nat where "sizeof_EDNS_CLIENT_SUBNET = 8"


section \<open>Building a query\<close>

definition poke :: "bytes \<Rightarrow> nat \<Rightarrow> bytes \<Rightarrow> bytes outcome" where
  "poke packet off d =
     (if off + length d \<le> length packet then Done (blit packet off d)
      else Abort (Undefined ''write behind the packet''))"

text \<open>A fixed identifier while responses are recorded or replayed.\<close>

definition query_id :: "int \<Rightarrow> query_state \<Rightarrow> u16" where
  "query_id random q = (if replay q then 12345 else of_int (random mod 65535))"

definition dns_header :: "query_state \<Rightarrow> u16 \<Rightarrow> bytes" where
  "dns_header q add_count =
     to_be16 (qryid q) @
     [if opt_resolv_conf q \<or> opt_rd q then 0x01 else 0,
      (if opt_ad q then 0x20 else 0) OR (if opt_cd q then 0x10 else 0)] @
     to_be16 1 @ to_be16 0 @ to_be16 0 @ to_be16 add_count"

definition query_lookupname :: "int \<Rightarrow> query_state \<Rightarrow> string" where
  "query_lookupname probe_id q =
     (if opt_prepend_probe_id q
      then snprintf (8 + DEFAULT_LINE_LENGTH - 1)
             (print_int (max probe_id 0) @ ''.'' @ print_dec (xmit_time q) @ ''.'' @ lookupname q)
      else lookupname q)"

definition edns_wanted :: "query_state \<Rightarrow> bool" where
  "edns_wanted q \<longleftrightarrow> opt_nsid q \<or> opt_client_subnet q \<or> opt_cookies q \<or> opt_dnssec q \<or> 512 < opt_edns0 q \<or>
     opt_edns_version q \<noteq> 0 \<or> opt_edns_flags q \<noteq> 0 \<or> opt_edns_option q \<noteq> 0"

text \<open>
  The root name and the header of the OPT record.  The byte for the extended
  return code is not written.
\<close>

definition add_edns_header :: "query_state \<Rightarrow> bytes \<Rightarrow> (query_state \<times> bytes) outcome" where
  "add_edns_header q packet =
     bindO (poke packet (pktsize q) [0]) (\<lambda>p1. let e = pktsize q + 1 in
     bindO (poke p1 e (to_be16 ns_t_opt @ to_be16 (of_int (opt_edns0 q)))) (\<lambda>p2.
     bindO (poke p2 (e + 5) (of_int (opt_edns_version q) #
              to_be16 (of_int (opt_edns_flags q) OR (if opt_dnssec q then 0x8000 else 0)) @ to_be16 0)) (\<lambda>p3.
     bindO (poke p3 10 (to_be16 1)) (\<lambda>p4.
       Done (q\<lparr>pktsize := e + sizeof_EDNS0_HEADER\<rparr>, p4)))))"

text \<open>An option behind the others: the length in the OPT header at \<open>e\<close> grows with it.\<close>

definition add_edns_opt :: "nat \<Rightarrow> bytes \<Rightarrow> query_state \<times> bytes \<Rightarrow> (query_state \<times> bytes) outcome" where
  "add_edns_opt e opt = (\<lambda>(q, packet).
     let rdlen = be16 (packet ! (e + 8)) (packet ! (e + 9)) in
     bindO (poke packet (e + 8) (to_be16 (rdlen + of_nat (length opt)))) (\<lambda>p1.
     bindO (poke p1 (pktsize q) opt) (\<lambda>p2.
       Done (q\<lparr>pktsize := pktsize q + length opt\<rparr>, p2))))"

definition nsid_opt :: bytes where
  "nsid_opt = to_be16 3 @ to_be16 0"

definition client_subnet_opt :: "query_state \<Rightarrow> bytes" where
  "client_subnet_opt q =
     to_be16 EDNS_OPT_CLIENT_SUBNET @ to_be16 4 @ to_be16 (if opt_AF_INET q then 1 else 2) @ [0, 0]"

text \<open>
  The client cookie is the end of the hash of the local address, the bytes taken
  for the address of the server, and the secret.
\<close>

definition mk_client_cookie :: "bytes \<Rightarrow> bytes \<Rightarrow> bytes \<Rightarrow> query_state \<Rightarrow> bytes" where
  "mk_client_cookie stack loc peer q =
     drop (32 - DNS_CLIENT_COOKIE_LEN)
       (sha256_end (foldl sha256_hash (sha256_begin stack) [loc, peer, client_secret (cookie_state q)]))"

definition cookie_index :: "query_state \<Rightarrow> nat" where
  "cookie_index q = (if opt_resolv_conf q then resolv_i q else 0)"

definition cookies_opt :: "query_state \<Rightarrow> bytes" where
  "cookies_opt q =
     (let server = server_cookies (cookie_state q) ! cookie_index q in
      to_be16 EDNS_OPT_COOKIE @ to_be16 (of_nat (DNS_CLIENT_COOKIE_LEN + length server)) @
      client_cookie (cookie_state q) @ server)"

definition add_cookies :: "bytes \<Rightarrow> bytes \<Rightarrow> bytes \<Rightarrow> nat \<Rightarrow> query_state \<times> bytes \<Rightarrow> (query_state \<times> bytes) outcome" where
  "add_cookies stack loc peer e = (\<lambda>(q, packet).
     let q1 = q\<lparr>cookie_state := (cookie_state q)\<lparr>client_cookie := mk_client_cookie stack loc peer q\<rparr>\<rparr> in
     if length (server_cookies (cookie_state q)) \<le> cookie_index q then Abort (Undefined ''server_cookies'')
     else if DNS_SERVER_COOKIE_MAX_LEN < length (server_cookies (cookie_state q) ! cookie_index q)
     then Abort (Fatal ''assertion failed'')
     else add_edns_opt e (cookies_opt q1) (q1, packet))"

definition if_opt :: "bool \<Rightarrow> ('a \<Rightarrow> 'a outcome) \<Rightarrow> 'a \<Rightarrow> 'a outcome" where
  "if_opt c f x = (if c then f x else Done x)"

definition add_edns :: "bytes \<Rightarrow> bytes \<Rightarrow> bytes \<Rightarrow> query_state \<Rightarrow> bytes \<Rightarrow> (query_state \<times> bytes) outcome" where
  "add_edns stack loc peer q packet =
     (let e = pktsize q + 1 in
      bindO (add_edns_header q packet) (\<lambda>s1.
      bindO (if_opt (opt_nsid q) (add_edns_opt e nsid_opt) s1) (\<lambda>s2.
      bindO (if_opt (opt_client_subnet q) (add_edns_opt e (client_subnet_opt q)) s2) (\<lambda>s3.
      bindO (if_opt (opt_cookies q) (add_cookies stack loc peer e) s3) (\<lambda>s4.
      if_opt (opt_edns_option q \<noteq> 0) (add_edns_opt e (to_be16 (of_int (opt_edns_option q)) @ to_be16 0)) s4)))))"

text \<open>
  The result is the return value with the state and the packet.  \<open>random\<close>, \<open>probe_id\<close>, the
  addresses and the initial contents of the hash context come from outside.
\<close>

definition mk_dns_buff ::
  "int \<Rightarrow> int \<Rightarrow> bytes \<Rightarrow> bytes \<Rightarrow> bytes \<Rightarrow> query_state \<Rightarrow> bytes \<Rightarrow> (int \<times> query_state \<times> bytes) outcome" where
  "mk_dns_buff random probe_id stack loc peer q packet =
     (let q0 = q\<lparr>qryid := query_id random q\<rparr> in
      bindO (poke packet 0 (dns_header q0 0)) (\<lambda>p0.
      if length packet < sizeof_DNS_HEADER + 255 + sizeof_QUESTION + 1 + sizeof_EDNS0_HEADER + sizeof_EDNS_NSID +
           sizeof_EDNS_CLIENT_SUBNET
      then Abort (Fatal ''mk_dns_buff: packet size too small'')
      else case ChangetoDnsNameFormat 255 (query_lookupname probe_id q0) of
        Abort r \<Rightarrow> Abort r
      | Fail \<Rightarrow> Done (-1, q0, p0)
      | Done enc \<Rightarrow>
          bindO (poke p0 sizeof_DNS_HEADER enc) (\<lambda>p1.
          bindO (poke p1 (sizeof_DNS_HEADER + length enc) (to_be16 (qtype q0) @ to_be16 (qclass q0))) (\<lambda>p2.
          let q1 = q0\<lparr>pktsize := sizeof_DNS_HEADER + length enc + sizeof_QUESTION\<rparr> in
          if edns_wanted q1 then bindO (add_edns stack loc peer q1 p2) (\<lambda>(q2, p3). Done (0, q2, p3))
          else Done (0, q1, p2)))))"


section \<open>The message of a query\<close>

lemmas query_sizes = sizeof_DNS_HEADER_def sizeof_QUESTION_def sizeof_EDNS0_HEADER_def sizeof_EDNS_NSID_def
  sizeof_EDNS_CLIENT_SUBNET_def DNS_CLIENT_COOKIE_LEN_def DNS_SERVER_COOKIE_MIN_LEN_def DNS_SERVER_COOKIE_MAX_LEN_def

lemma poke_end: "length d \<le> k \<Longrightarrow> poke (m @ replicate k 0) (length m) d = Done ((m @ d) @ replicate (k - length d) 0)"
  by (simp add: poke_def blit_append)

lemma poke_inner: "length d = length b \<Longrightarrow> poke (a @ b @ c) (length a) d = Done (a @ d @ c)"
  by (simp add: poke_def blit_inner)

text \<open>The options in the order they are written, and the fields before their total length.\<close>

definition query_options :: "query_state \<Rightarrow> bytes" where
  "query_options q =
     (if opt_nsid q then nsid_opt else []) @ (if opt_client_subnet q then client_subnet_opt q else []) @
     (if opt_cookies q then cookies_opt q else []) @
     (if opt_edns_option q \<noteq> 0 then to_be16 (of_int (opt_edns_option q)) @ to_be16 0 else [])"

definition opt_head :: "query_state \<Rightarrow> bytes" where
  "opt_head q =
     0 # to_be16 ns_t_opt @ to_be16 (of_int (opt_edns0 q)) @ [0, of_int (opt_edns_version q)] @
     to_be16 (of_int (opt_edns_flags q) OR (if opt_dnssec q then 0x8000 else 0))"

definition query_message :: "query_state \<Rightarrow> bytes \<Rightarrow> bytes" where
  "query_message q enc =
     (if edns_wanted q
      then dns_header q 1 @ enc @ to_be16 (qtype q) @ to_be16 (qclass q) @
        opt_head q @ to_be16 (of_nat (length (query_options q))) @ query_options q
      else dns_header q 0 @ enc @ to_be16 (qtype q) @ to_be16 (qclass q))"

lemma length_dns_header [simp]: "length (dns_header q n) = 12"
  by (simp add: dns_header_def)

lemma length_opt_head [simp]: "length (opt_head q) = 9"
  by (simp add: opt_head_def)

text \<open>A packet that ends with the options \<open>os\<close> behind \<open>H\<close> and their length.\<close>

definition opts_at :: "bytes \<Rightarrow> nat \<Rightarrow> query_state \<Rightarrow> bytes \<Rightarrow> query_state \<times> bytes" where
  "opts_at H n q os = (q\<lparr>pktsize := length H + 2 + length os\<rparr>,
     H @ to_be16 (of_nat (length os)) @ os @ replicate (n - (length H + 2 + length os)) 0)"

lemma add_edns_opt_at:
  assumes "length H = e + 8" "length H + 2 + length (os @ opt) \<le> n"
  shows "add_edns_opt e opt (opts_at H n q os) = Done (opts_at H n q (os @ opt))"
proof -
  let ?r = "to_be16 (of_nat (length os)) :: bytes" and ?z = "replicate (n - (length H + 2 + length os)) (0 :: u8)"
  let ?p = "H @ ?r @ os @ ?z" and ?r' = "to_be16 (of_nat (length (os @ opt))) :: bytes"
  have rd: "be16 (?p ! (e + 8)) (?p ! (e + 9)) = of_nat (length os)"
    using be16_to_be16[of "of_nat (length os)"] assms(1) by (simp add: nth_append to_be16_def)
  have p1: "poke ?p (e + 8) ?r' = Done (H @ ?r' @ os @ ?z)"
    using poke_inner[of ?r' ?r H "os @ ?z"] assms(1) by simp
  have "poke ((H @ ?r' @ os) @ ?z) (length (H @ ?r' @ os)) opt =
      Done (((H @ ?r' @ os) @ opt) @ replicate (n - (length H + 2 + length os) - length opt) 0)"
    using assms(2) by (intro poke_end) simp
  then have p2: "poke (H @ ?r' @ os @ ?z) (length H + 2 + length os) opt =
      Done (H @ ?r' @ (os @ opt) @ replicate (n - (length H + 2 + length (os @ opt))) 0)"
    by simp
  show ?thesis
    using p1 p2 rd by (simp add: add_edns_opt_def opts_at_def bindO_def Let_def)
qed

lemma add_edns_header_at:
  assumes "pktsize q = length m" "m = dns_header q 0 @ r" "length m + 11 \<le> n"
  shows "add_edns_header q (m @ replicate (n - length m) 0) = Done (opts_at (dns_header q 1 @ r @ opt_head q) n q [])"
proof -
  let ?l = "length m"
  let ?a = "to_be16 ns_t_opt @ to_be16 (of_int (opt_edns0 q)) :: bytes"
  let ?b = "of_int (opt_edns_version q) #
      to_be16 (of_int (opt_edns_flags q) OR (if opt_dnssec q then 0x8000 else 0)) @ to_be16 0 :: bytes"
  let ?z = "\<lambda>k. replicate (n - ?l - k) (0 :: u8)"
  have 1: "poke (m @ replicate (n - ?l) 0) ?l [0] = Done ((m @ [0]) @ ?z 1)"
    using poke_end[of "[0]" "n - ?l" m] assms(3) by simp
  have 2: "poke ((m @ [0]) @ ?z 1) (?l + 1) ?a = Done ((m @ 0 # ?a) @ ?z 5)"
    using poke_end[of ?a "n - ?l - 1" "m @ [0]"] assms(3) by simp
  have "?z 5 = 0 # ?z 6" using assms(3) by (cases "n - ?l - 5") auto
  then have 3: "poke ((m @ 0 # ?a) @ ?z 5) (?l + 6) ?b = Done ((m @ (0 # ?a) @ [0] @ ?b) @ ?z 11)"
    using poke_end[of ?b "n - ?l - 6" "(m @ 0 # ?a) @ [0]"] assms(3) by simp
  obtain h where h: "dns_header q 0 = h @ to_be16 0" "dns_header q 1 = h @ to_be16 1" "length h = 10"
    by (simp add: dns_header_def)
  let ?rest = "r @ (0 # ?a) @ [0] @ ?b @ ?z 11"
  have "(m @ (0 # ?a) @ [0] @ ?b) @ ?z 11 = h @ to_be16 0 @ ?rest" using h(1) assms(2) by simp
  then have 4: "poke ((m @ (0 # ?a) @ [0] @ ?b) @ ?z 11) 10 (to_be16 1) = Done (dns_header q 1 @ ?rest)"
    using poke_inner[of "to_be16 1" "to_be16 0" h ?rest] h by simp
  show ?thesis
    using 1 2 3 4 assms(1,2) unfolding add_edns_header_def opts_at_def
    by (simp add: bindO_def Let_def opt_head_def query_sizes add.commute)
qed

text \<open>The state after the client cookie of the query has been noted.\<close>

definition with_cookie :: "bytes \<Rightarrow> bytes \<Rightarrow> bytes \<Rightarrow> query_state \<Rightarrow> query_state" where
  "with_cookie stack loc peer q =
     (if edns_wanted q \<and> opt_cookies q
      then q\<lparr>cookie_state := (cookie_state q)\<lparr>client_cookie := mk_client_cookie stack loc peer q\<rparr>\<rparr> else q)"

definition cookies_ok :: "query_state \<Rightarrow> bool" where
  "cookies_ok q \<longleftrightarrow> cookie_index q < length (server_cookies (cookie_state q)) \<and>
     list_all (\<lambda>c. length c \<le> DNS_SERVER_COOKIE_MAX_LEN) (server_cookies (cookie_state q))"

lemma length_client_cookie: "length stack = 64 \<Longrightarrow> length (mk_client_cookie stack loc peer q) = 8"
  unfolding mk_client_cookie_def by (simp add: length_sha256 query_sizes del: foldl_Cons)

lemma query_updates [simp]:
  "cookie_index (q\<lparr>pktsize := x\<rparr>) = cookie_index q" "cookie_index (q\<lparr>cookie_state := c\<rparr>) = cookie_index q"
  "mk_client_cookie stack loc peer (q\<lparr>pktsize := x\<rparr>) = mk_client_cookie stack loc peer q"
  "cookies_opt (q\<lparr>pktsize := x\<rparr>) = cookies_opt q"
  by (simp_all add: cookie_index_def mk_client_cookie_def cookies_opt_def)

lemma cookies_opt_length:
  assumes "length (client_cookie (cookie_state q)) = 8" "cookies_ok q"
  shows "length (cookies_opt q) = 12 + length (server_cookies (cookie_state q) ! cookie_index q)"
    "length (cookies_opt q) \<le> 44"
proof -
  show "length (cookies_opt q) = 12 + length (server_cookies (cookie_state q) ! cookie_index q)"
    using assms(1) by (simp add: cookies_opt_def Let_def)
  then show "length (cookies_opt q) \<le> 44"
    using assms(2) by (auto simp: cookies_ok_def list_all_length query_sizes)
qed

lemma add_cookies_at:
  assumes "length H = e + 8" "length H + 2 + length os + 44 \<le> n" "cookies_ok q" "length stack = 64"
    "q' = q\<lparr>cookie_state := (cookie_state q)\<lparr>client_cookie := mk_client_cookie stack loc peer q\<rparr>\<rparr>"
  shows "add_cookies stack loc peer e (opts_at H n q os) = Done (opts_at H n q' (os @ cookies_opt q'))"
proof -
  have c: "cookie_index q < length (server_cookies (cookie_state q))"
      "length (server_cookies (cookie_state q) ! cookie_index q) \<le> 32"
    using assms(3) by (auto simp: cookies_ok_def list_all_length query_sizes)
  have "add_cookies stack loc peer e (opts_at H n q os) = add_edns_opt e (cookies_opt q') (opts_at H n q' os)"
  proof -
    have u: "q\<lparr>pktsize := x, cookie_state := y\<rparr> = q\<lparr>cookie_state := y, pktsize := x\<rparr>" for x y by simp
    then show ?thesis using c unfolding add_cookies_def opts_at_def assms(5) by (simp add: Let_def query_sizes u)
  qed
  moreover have "length (cookies_opt q') \<le> 44"
    using cookies_opt_length(2)[of q'] length_client_cookie[OF assms(4)] assms(3)
    by (simp add: assms(5) cookies_ok_def)
  ultimately show ?thesis using add_edns_opt_at[OF assms(1), of os "cookies_opt q'" n q'] assms(2) by simp
qed

lemma with_cookie_opt_length:
  assumes "length stack = 64" "cookies_ok q" "edns_wanted q" "opt_cookies q"
  shows "length (cookies_opt (with_cookie stack loc peer q)) \<le> 44"
proof -
  let ?q = "with_cookie stack loc peer q"
  have "?q = q\<lparr>cookie_state := (cookie_state q)\<lparr>client_cookie := mk_client_cookie stack loc peer q\<rparr>\<rparr>"
    using assms(3,4) by (simp add: with_cookie_def)
  then show ?thesis
    using cookies_opt_length(2)[of ?q] length_client_cookie[OF assms(1)] assms(2) by (simp add: cookies_ok_def)
qed

lemma with_cookie_options:
  "query_options (with_cookie stack loc peer q) =
     (if opt_nsid q then nsid_opt else []) @ (if opt_client_subnet q then client_subnet_opt q else []) @
     (if opt_cookies q then cookies_opt (with_cookie stack loc peer q) else []) @
     (if opt_edns_option q \<noteq> 0 then to_be16 (of_int (opt_edns_option q)) @ to_be16 0 else [])"
  by (simp add: query_options_def with_cookie_def client_subnet_opt_def)

lemma length_query_options:
  assumes "length stack = 64" "cookies_ok q" "edns_wanted q"
  shows "length (query_options (with_cookie stack loc peer q)) \<le> 60"
  unfolding with_cookie_options using with_cookie_opt_length[OF assms, of loc peer]
  by (auto simp: nsid_opt_def client_subnet_opt_def)

lemma add_edns_at:
  assumes "pktsize q = length m" "m = dns_header q 0 @ r" "length m + 71 \<le> n" "length stack = 64"
    "cookies_ok q" "edns_wanted q"
  shows "add_edns stack loc peer q (m @ replicate (n - length m) 0) =
    Done (opts_at (dns_header q 1 @ r @ opt_head q) n (with_cookie stack loc peer q)
      (query_options (with_cookie stack loc peer q)))"
proof -
  let ?e = "pktsize q + 1" and ?H = "dns_header q 1 @ r @ opt_head q" and ?q' = "with_cookie stack loc peer q"
  let ?o1 = "if opt_nsid q then nsid_opt else []"
  let ?o2 = "?o1 @ (if opt_client_subnet q then client_subnet_opt q else [])"
  let ?o3 = "?o2 @ (if opt_cookies q then cookies_opt ?q' else [])"
  have H: "length ?H = ?e + 8" "length ?H + 62 \<le> n" using assms(1-3) by simp_all
  have l: "length ?o1 \<le> 4" "length ?o2 \<le> 12" by (auto simp: nsid_opt_def client_subnet_opt_def)
  have l3: "length (query_options ?q') \<le> 60"
    using length_query_options[OF assms(4-6), of loc peer] .
  have 1: "if_opt (opt_nsid q) (add_edns_opt ?e nsid_opt) (opts_at ?H n q []) = Done (opts_at ?H n q ?o1)"
    using add_edns_opt_at[OF H(1), of "[]" nsid_opt n q] H(2) by (simp add: if_opt_def nsid_opt_def)
  have 2: "if_opt (opt_client_subnet q) (add_edns_opt ?e (client_subnet_opt q)) (opts_at ?H n q ?o1) = Done (opts_at ?H n q ?o2)"
    using add_edns_opt_at[OF H(1), of ?o1 "client_subnet_opt q" n q] H(2) l(2) by (auto simp: if_opt_def)
  have 3: "if_opt (opt_cookies q) (add_cookies stack loc peer ?e) (opts_at ?H n q ?o2) = Done (opts_at ?H n ?q' ?o3)"
    using add_cookies_at[OF H(1) _ assms(5,4), of ?o2 n ?q' loc peer] H(2) l(2) assms(6)
    by (simp add: if_opt_def with_cookie_def)
  have 4: "if_opt (opt_edns_option q \<noteq> 0) (add_edns_opt ?e (to_be16 (of_int (opt_edns_option q)) @ to_be16 0)) (opts_at ?H n ?q' ?o3)
      = Done (opts_at ?H n ?q' (query_options ?q'))"
  proof -
    let ?o = "if opt_edns_option q \<noteq> 0 then to_be16 (of_int (opt_edns_option q)) @ to_be16 0 else []"
    have o: "query_options ?q' = ?o3 @ ?o" by (simp add: with_cookie_options)
    then have "length ?H + 2 + length (?o3 @ ?o) \<le> n" using H(2) l3 by simp
    from add_edns_opt_at[OF H(1) this, of ?q'] show ?thesis
      unfolding o by (cases "opt_edns_option q = 0") (simp_all add: if_opt_def)
  qed
  show ?thesis
    unfolding add_edns_def Let_def add_edns_header_at[OF assms(1,2), of n] bindO_def
    using 1 2 3 4 assms(3) add_edns_header_at[OF assms(1,2), of n] by simp
qed

text \<open>The state with which the message of a query is composed.\<close>

definition asked :: "int \<Rightarrow> bytes \<Rightarrow> bytes \<Rightarrow> bytes \<Rightarrow> query_state \<Rightarrow> query_state" where
  "asked random stack loc peer q = with_cookie stack loc peer (q\<lparr>qryid := query_id random q\<rparr>)"

lemma asked_simps [simp]:
  "query_lookupname pid (q\<lparr>qryid := x\<rparr>) = query_lookupname pid q" "cookie_index (q\<lparr>qryid := x\<rparr>) = cookie_index q"
  "edns_wanted (q\<lparr>qryid := x\<rparr>) = edns_wanted q" "edns_wanted (q\<lparr>pktsize := n\<rparr>) = edns_wanted q"
  "edns_wanted (with_cookie stack loc peer q) = edns_wanted q"
  "opt_head (with_cookie stack loc peer q) = opt_head q" "dns_header (with_cookie stack loc peer q) k = dns_header q k"
  "dns_header (q\<lparr>pktsize := n\<rparr>) k = dns_header q k" "opt_head (q\<lparr>pktsize := n\<rparr>) = opt_head q"
  "query_options (q\<lparr>pktsize := n\<rparr>) = query_options q"
  "qtype (with_cookie stack loc peer q) = qtype q" "qclass (with_cookie stack loc peer q) = qclass q"
  "with_cookie stack loc peer (q\<lparr>pktsize := n\<rparr>) = (with_cookie stack loc peer q)\<lparr>pktsize := n\<rparr>"
  by (simp_all add: query_lookupname_def cookie_index_def edns_wanted_def with_cookie_def opt_head_def dns_header_def
      query_options_def client_subnet_opt_def)

lemma mk_dns_buff_eq:
  assumes "342 \<le> n" "length stack = 64" "cookies_ok q"
  shows "mk_dns_buff random pid stack loc peer q (replicate n 0) =
     (case ChangetoDnsNameFormat 255 (query_lookupname pid q) of
        Done enc \<Rightarrow>
          let q' = asked random stack loc peer q; m = query_message q' enc in
          Done (0, q'\<lparr>pktsize := length m\<rparr>, m @ replicate (n - length m) 0)
      | _ \<Rightarrow> let q0 = q\<lparr>qryid := query_id random q\<rparr> in Done (-1, q0, dns_header q0 0 @ replicate (n - 12) 0))"
proof -
  let ?q0 = "q\<lparr>qryid := query_id random q\<rparr>" and ?nm = "query_lookupname pid q"
  have p0: "poke (replicate n 0) 0 (dns_header ?q0 0) = Done (dns_header ?q0 0 @ replicate (n - 12) 0)"
    using poke_end[of "dns_header ?q0 0" n "[]"] assms(1) by simp
  show ?thesis
  proof (cases "ChangetoDnsNameFormat 255 ?nm")
    case (Done enc)
    let ?m = "dns_header ?q0 0 @ enc @ to_be16 (qtype q) @ to_be16 (qclass q)"
    let ?q1 = "?q0\<lparr>pktsize := 16 + length enc\<rparr>"
    have l: "length enc \<le> 255" using ChangetoDnsNameFormat_length(1)[OF Done] .
    have p1: "poke (dns_header ?q0 0 @ replicate (n - 12) 0) 12 enc = Done ((dns_header ?q0 0 @ enc) @ replicate (n - 12 - length enc) 0)"
      using poke_end[of enc "n - 12" "dns_header ?q0 0"] l assms(1) by simp
    have p2: "poke ((dns_header ?q0 0 @ enc) @ replicate (n - 12 - length enc) 0) (12 + length enc) (to_be16 (qtype q) @ to_be16 (qclass q)) =
        Done (?m @ replicate (n - length ?m) 0)"
      using poke_end[of "to_be16 (qtype q) @ to_be16 (qclass q)" "n - 12 - length enc" "dns_header ?q0 0 @ enc"] l assms(1)
      by simp
    have e: "mk_dns_buff random pid stack loc peer q (replicate n 0) =
        (if edns_wanted q then bindO (add_edns stack loc peer ?q1 (?m @ replicate (n - length ?m) 0)) (\<lambda>(q2, p3). Done (0, q2, p3))
         else Done (0, ?q1, ?m @ replicate (n - length ?m) 0))"
      unfolding mk_dns_buff_def Let_def using p0 p1 p2 Done assms(1)
      by (simp add: bindO_def query_sizes)
    show ?thesis
    proof (cases "edns_wanted q")
      case False
      then have "asked random stack loc peer q = ?q0" by (simp add: asked_def with_cookie_def)
      then show ?thesis unfolding e Done using False by (simp add: query_message_def Let_def)
    next
      case True
      let ?r = "enc @ to_be16 (qtype q) @ to_be16 (qclass q)" and ?q2 = "with_cookie stack loc peer ?q0"
      have c: "cookies_ok ?q1" using assms(3) by (simp add: cookies_ok_def)
      have pk: "pktsize ?q1 = length ?m" by simp
      have m: "?m = dns_header ?q1 0 @ ?r" by simp
      have n: "length ?m + 71 \<le> n" using l assms(1) by simp
      have w: "edns_wanted ?q1" using True by simp
      have "add_edns stack loc peer ?q1 (?m @ replicate (n - length ?m) 0) =
          Done (opts_at (dns_header ?q0 1 @ ?r @ opt_head ?q0) n (?q2\<lparr>pktsize := 16 + length enc\<rparr>) (query_options ?q2))"
        unfolding add_edns_at[OF pk m n assms(2) c w] by simp
      moreover have "query_message ?q2 enc = dns_header ?q0 1 @ ?r @ opt_head ?q0 @
          to_be16 (of_nat (length (query_options ?q2))) @ query_options ?q2"
        using True by (simp add: query_message_def)
      ultimately show ?thesis unfolding e Done asked_def using True
        by (simp add: bindO_def opts_at_def Let_def)
    qed
  next
    case Fail
    then show ?thesis unfolding mk_dns_buff_def Let_def using p0 assms(1) by (simp add: bindO_def query_sizes)
  next
    case (Abort r)
    then show ?thesis using ChangetoDnsNameFormat_exact[of 255 ?nm] by simp
  qed
qed


text \<open>A query for \<^verbatim>\<open>nl.\<close> with the NSID option.\<close>

definition query_nl :: query_state where
  "query_nl = \<lparr>qryid = 0, cookie_state = \<lparr>client_secret = [], client_cookie = [], server_cookies = [[], [], []]\<rparr>,
     opt_AF_INET = True, opt_edns0 = 512, opt_edns_version = 0, opt_edns_flags = 0, opt_edns_option = 0,
     opt_dnssec = False, opt_nsid = True, opt_client_subnet = False, opt_cookies = False, opt_resolv_conf = False,
     opt_rd = True, opt_ad = False, opt_cd = False, opt_prepend_probe_id = False, resolv_i = 0,
     client_cookie_mismatch = False, qtype = 2, qclass = 1, lookupname = ''nl.'', replay = False, pktsize = 0,
     xmit_time = 0\<rparr>"



section \<open>Options of a reply\<close>

function rr_name_len :: "bytes \<Rightarrow> nat \<Rightarrow> nat \<Rightarrow> nat \<Rightarrow> nat outcome" where
  "rr_name_len packet offset len name_len =
     (if len \<le> offset + name_len then Fail
      else if length packet \<le> offset + name_len then Abort (Undefined ''get_rr_len: label'')
      else let label_len = unat (packet ! (offset + name_len)) in
        if 63 < label_len then (if label_len < 192 then Fail else Done (name_len + 2))
        else if label_len = 0 then Done (name_len + 1)
        else rr_name_len packet offset len (name_len + label_len + 1))"
  by pat_completeness auto
termination
  by (relation "measure (\<lambda>(packet, offset, len, name_len). len - (offset + name_len))") auto

declare rr_name_len.simps [simp del]

text \<open>The length of a record and of its name.\<close>

definition get_rr_len :: "bytes \<Rightarrow> nat \<Rightarrow> nat \<Rightarrow> bool \<Rightarrow> (nat \<times> nat) outcome" where
  "get_rr_len packet offset len question =
     bindO (rr_name_len packet offset len 0) (\<lambda>name_len.
       if question then Done (name_len + 2 + 2, name_len)
       else let rr_len = name_len + 2 + 2 + 4 in
         if len < offset + rr_len + 2 then Fail
         else if length packet < offset + rr_len + 2 then Abort (Undefined ''get_rr_len: rdlength'')
         else let rdlength = unat (be16 (packet ! (offset + rr_len)) (packet ! (offset + rr_len + 1))) in
           Done (rr_len + 2 + rdlength, name_len))"

text \<open>The first OPT record: the position and the declared length of its data.\<close>

function find_opt_rr :: "bytes \<Rightarrow> nat \<Rightarrow> nat \<Rightarrow> nat \<Rightarrow> nat \<Rightarrow> nat \<Rightarrow> (nat \<times> nat) outcome" where
  "find_opt_rr packet packlen qcount recs i off =
     (if recs \<le> i then Fail
      else bindO (get_rr_len packet off packlen (i < qcount)) (\<lambda>(l, namelen).
        let rr_o = off + namelen; rdata_o = rr_o + 2 + 2 + 4 + 2; rdlen = off + l - rdata_o in
        if i < qcount then find_opt_rr packet packlen qcount recs (i + 1) (off + l)
        else if namelen \<noteq> 1 then find_opt_rr packet packlen qcount recs (i + 1) (off + l)
        else if be16 (packet ! rr_o) (packet ! (rr_o + 1)) \<noteq> ns_t_opt
        then find_opt_rr packet packlen qcount recs (i + 1) (off + l)
        else Done (rdata_o, rdlen)))"
  by pat_completeness auto
termination
  by (relation "measure (\<lambda>(packet, packlen, qcount, recs, i, off). recs - i)") auto

declare find_opt_rr.simps [simp del]

function find_opt :: "bytes \<Rightarrow> u16 \<Rightarrow> nat \<Rightarrow> nat \<Rightarrow> nat \<Rightarrow> (nat \<times> nat) outcome" where
  "find_opt packet target_code rdata_o rdlen opt_o =
     (if rdlen < opt_o + 4 then Fail
      else if length packet < rdata_o + opt_o + 4 then Abort (Undefined ''get_edns_opt: option'')
      else let opt_code = be16 (packet ! (rdata_o + opt_o)) (packet ! (rdata_o + opt_o + 1));
               opt_len = unat (be16 (packet ! (rdata_o + opt_o + 2)) (packet ! (rdata_o + opt_o + 3))) in
        if rdlen < opt_o + 4 + opt_len then Fail
        else if opt_code = target_code then Done (rdata_o + opt_o + 4, opt_len)
        else find_opt packet target_code rdata_o rdlen (opt_o + 4 + opt_len))"
  by pat_completeness auto
termination
  by (relation "measure (\<lambda>(packet, target_code, rdata_o, rdlen, opt_o). rdlen - opt_o)") auto

declare find_opt.simps [simp del]

definition header_count :: "bytes \<Rightarrow> nat \<Rightarrow> nat" where
  "header_count packet at = unat (be16 (packet ! at) (packet ! (at + 1)))"

text \<open>Position and length of an option; \<open>Fail\<close> stands for \<open>-1\<close>.\<close>

definition get_edns_opt :: "u16 \<Rightarrow> bytes \<Rightarrow> nat \<Rightarrow> (nat \<times> nat) outcome" where
  "get_edns_opt target_code packet packlen =
     (if length packet < sizeof_DNS_HEADER then Abort (Undefined ''get_edns_opt: header'')
      else let qcount = header_count packet 4;
               recs = qcount + header_count packet 6 + header_count packet 8 + header_count packet 10 in
        bindO (find_opt_rr packet packlen qcount recs 0 sizeof_DNS_HEADER) (\<lambda>(rdata_o, rdlen).
          find_opt packet target_code rdata_o rdlen 0))"

definition set_server_cookie :: "bytes \<Rightarrow> query_state \<Rightarrow> query_state" where
  "set_server_cookie c q =
     q\<lparr>cookie_state := (cookie_state q)\<lparr>server_cookies := (server_cookies (cookie_state q))[cookie_index q := c]\<rparr>\<rparr>"

definition update_server_cookie :: "query_state \<Rightarrow> bytes \<Rightarrow> nat \<Rightarrow> query_state outcome" where
  "update_server_cookie q packet packlen =
     (if length (server_cookies (cookie_state q)) \<le> cookie_index q then Abort (Undefined ''server_cookies'')
      else let q1 = set_server_cookie [] q in
        case get_edns_opt EDNS_OPT_COOKIE packet packlen of
          Abort r \<Rightarrow> Abort r
        | Fail \<Rightarrow> Done q1
        | Done (optoff, optlen) \<Rightarrow>
            if optlen < DNS_CLIENT_COOKIE_LEN + DNS_SERVER_COOKIE_MIN_LEN \<or>
               DNS_CLIENT_COOKIE_LEN + DNS_SERVER_COOKIE_MAX_LEN < optlen then Done q1
            else if length packet < optoff + optlen then Abort (Undefined ''update_server_cookie'')
            else if client_cookie (cookie_state q) \<noteq> take DNS_CLIENT_COOKIE_LEN (drop optoff packet)
            then Done (q1\<lparr>client_cookie_mismatch := True\<rparr>)
            else Done (set_server_cookie
                   (take (optlen - DNS_CLIENT_COOKIE_LEN) (drop (optoff + DNS_CLIENT_COOKIE_LEN) packet)) q1))"


section \<open>Messages as lists of records\<close>

text \<open>Names as they may occur in a record: labels up to the root or to a pointer.\<close>

inductive rr_name :: "bytes \<Rightarrow> bool" where
  "rr_name [0]"
| "192 \<le> unat a \<Longrightarrow> rr_name [a, b]"
| "0 < length l \<Longrightarrow> length l \<le> 63 \<Longrightarrow> rr_name r \<Longrightarrow> rr_name (of_nat (length l) # l @ r)"

text \<open>A record: name, type, class and time to live, data.  A question: name, type and class.\<close>

type_synonym rr = "bytes \<times> u16 \<times> bytes \<times> bytes"

fun rr_bytes :: "rr \<Rightarrow> bytes" where
  "rr_bytes (nm, ty, ct, rd) = nm @ to_be16 ty @ ct @ to_be16 (of_nat (length rd)) @ rd"

fun rr_ok :: "rr \<Rightarrow> bool" where
  "rr_ok (nm, ty, ct, rd) \<longleftrightarrow> rr_name nm \<and> length ct = 6 \<and> length rd < 65536"

fun is_opt_rr :: "rr \<Rightarrow> bool" where
  "is_opt_rr (nm, ty, ct, rd) \<longleftrightarrow> length nm = 1 \<and> ty = ns_t_opt"

fun question_ok :: "bytes \<times> bytes \<Rightarrow> bool" where
  "question_ok (nm, tc) \<longleftrightarrow> rr_name nm \<and> length tc = 4"

definition questions_bytes :: "(bytes \<times> bytes) list \<Rightarrow> bytes" where
  "questions_bytes qs = concat (map (\<lambda>(nm, tc). nm @ tc) qs)"

definition rrs_bytes :: "rr list \<Rightarrow> bytes" where
  "rrs_bytes rrs = concat (map rr_bytes rrs)"

definition opts_bytes :: "(u16 \<times> bytes) list \<Rightarrow> bytes" where
  "opts_bytes os = concat (map (\<lambda>(c, d). to_be16 c @ to_be16 (of_nat (length d)) @ d) os)"

lemma bytes_simps [simp]:
  "questions_bytes [] = []" "questions_bytes ((nm, tc) # qs) = nm @ tc @ questions_bytes qs"
  "rrs_bytes [] = []" "rrs_bytes (r # rrs) = rr_bytes r @ rrs_bytes rrs" "rrs_bytes (xs @ ys) = rrs_bytes xs @ rrs_bytes ys"
  "opts_bytes [] = []" "opts_bytes ((c, d) # os) = to_be16 c @ to_be16 (of_nat (length d)) @ d @ opts_bytes os"
  by (simp_all add: questions_bytes_def rrs_bytes_def opts_bytes_def)

lemma be16_at: "be16 ((pre @ to_be16 v @ post) ! length pre) ((pre @ to_be16 v @ post) ! (length pre + 1)) = v"
  using be16_to_be16[of v] by (simp add: nth_append to_be16_def)

lemma unat_length16: "n < 65536 \<Longrightarrow> unat (of_nat n :: u16) = n"
  by (simp add: unsigned_of_nat take_bit_nat_eq_self)

lemma rr_name_len_at:
  assumes "rr_name nm" "length pre + length mid + length nm \<le> len"
  shows "rr_name_len (pre @ mid @ nm @ post) (length pre) len (length mid) = Done (length mid + length nm)"
  using assms
proof (induction arbitrary: mid rule: rr_name.induct)
  case 1
  then show ?case by (subst rr_name_len.simps) (simp add: nth_append)
next
  case (2 a b)
  then show ?case by (subst rr_name_len.simps) (simp add: nth_append)
next
  case (3 l r)
  have u: "unat (of_nat (length l) :: u8) = length l" using 3(1,2) by (simp add: unsigned_of_nat take_bit_nat_eq_self)
  let ?mid = "mid @ of_nat (length l) # l"
  have "rr_name_len (pre @ ?mid @ r @ post) (length pre) len (length ?mid) = Done (length ?mid + length r)"
    using 3(5) by (intro 3(4)) simp
  then show ?case using 3(1,2,5) u by (subst rr_name_len.simps) (simp add: nth_append)
qed

lemma get_rr_len_question:
  assumes "question_ok (nm, tc)" "length pre + length nm \<le> len"
  shows "get_rr_len (pre @ nm @ post) (length pre) len True = Done (length nm + 4, length nm)"
  using rr_name_len_at[of nm pre "[]" len post] assms by (simp add: get_rr_len_def bindO_def)

lemma get_rr_len_eq:
  assumes "rr_name_len p off len 0 = Done k" "off + k + 10 \<le> len" "off + k + 10 \<le> length p"
  shows "get_rr_len p off len False = Done (k + 10 + unat (be16 (p ! (off + k + 8)) (p ! (off + k + 8 + 1))), k)"
  unfolding get_rr_len_def assms(1) using assms(2,3) by (simp add: bindO_def Let_def ac_simps)

lemma get_rr_len_rr:
  assumes "rr_ok (nm, ty, ct, rd)" "length pre + length (rr_bytes (nm, ty, ct, rd)) \<le> len"
  shows "get_rr_len (pre @ rr_bytes (nm, ty, ct, rd) @ post) (length pre) len False =
    Done (length (rr_bytes (nm, ty, ct, rd)), length nm)"
proof -
  have l: "rr_name nm" "length ct = 6" "length rd < 65536" using assms(1) by auto
  define p where "p = pre @ rr_bytes (nm, ty, ct, rd) @ post"
  have p: "p = pre @ [] @ nm @ (to_be16 ty @ ct @ to_be16 (of_nat (length rd)) @ rd @ post)"
    by (simp add: p_def)
  have n: "rr_name_len p (length pre) len 0 = Done (length nm)"
    using rr_name_len_at[OF l(1), of pre "[]" len] assms(2) unfolding p by simp
  let ?a = "pre @ nm @ to_be16 ty @ ct"
  have "p = ?a @ to_be16 (of_nat (length rd)) @ rd @ post" by (simp add: p_def)
  moreover have "length ?a = length pre + length nm + 8" using l(2) by simp
  ultimately have "be16 (p ! (length pre + length nm + 8)) (p ! (length pre + length nm + 8 + 1)) = of_nat (length rd)"
    using be16_at[of ?a] by metis
  moreover have "length pre + length nm + 10 \<le> length p" using l(2) by (simp add: p_def)
  moreover have "length pre + length nm + 10 \<le> len" using assms(2) l(2) by simp
  ultimately have "get_rr_len p (length pre) len False = Done (length nm + 10 + length rd, length nm)"
    using get_rr_len_eq[OF n] unat_length16[OF l(3)] by simp
  then show ?thesis using l(2) by (simp add: p_def)
qed

lemma find_opt_rr_step:
  assumes "i < recs" "get_rr_len p off len (i < qcount) = Done (l, k)"
    "i < qcount \<or> k \<noteq> 1 \<or> be16 (p ! (off + k)) (p ! (off + k + 1)) \<noteq> ns_t_opt"
  shows "find_opt_rr p len qcount recs i off = find_opt_rr p len qcount recs (i + 1) (off + l)"
  using assms by (subst find_opt_rr.simps) (auto simp: bindO_def Let_def)

lemma find_opt_rr_questions:
  assumes "list_all question_ok qs" "length pre + length (questions_bytes qs) \<le> len" "i + length qs \<le> recs"
  shows "find_opt_rr (pre @ questions_bytes qs @ post) len (i + length qs) recs i (length pre) =
    find_opt_rr (pre @ questions_bytes qs @ post) len (i + length qs) recs (i + length qs) (length pre + length (questions_bytes qs))"
  using assms
proof (induction qs arbitrary: pre i)
  case (Cons q qs)
  obtain nm tc where q: "q = (nm, tc)" by (cases q)
  let ?pre = "pre @ nm @ tc" and ?p = "pre @ questions_bytes (q # qs) @ post"
  have tc: "length tc = 4" using Cons.prems(1) q by simp
  have "get_rr_len ?p (length pre) len (i < i + length (q # qs)) = Done (length nm + 4, length nm)"
    using get_rr_len_question[of nm tc pre len "tc @ questions_bytes qs @ post"] Cons.prems q by simp
  then have "find_opt_rr ?p len (i + length (q # qs)) recs i (length pre) =
      find_opt_rr ?p len (i + length (q # qs)) recs (i + 1) (length pre + (length nm + 4))"
    using Cons.prems(3) by (intro find_opt_rr_step[where k = "length nm"]) auto
  moreover have "find_opt_rr (?pre @ questions_bytes qs @ post) len (i + 1 + length qs) recs (i + 1) (length ?pre) =
      find_opt_rr (?pre @ questions_bytes qs @ post) len (i + 1 + length qs) recs (i + 1 + length qs)
        (length ?pre + length (questions_bytes qs))"
    using Cons.prems q tc by (intro Cons.IH) auto
  ultimately show ?case using q tc by (simp add: ac_simps)
qed simp

lemma find_opt_rr_skip:
  assumes "list_all rr_ok a" "list_all (\<lambda>r. \<not> is_opt_rr r) a" "qcount \<le> i" "length pre + length (rrs_bytes a) \<le> len"
    "i + length a \<le> recs"
  shows "find_opt_rr (pre @ rrs_bytes a @ post) len qcount recs i (length pre) =
    find_opt_rr (pre @ rrs_bytes a @ post) len qcount recs (i + length a) (length pre + length (rrs_bytes a))"
  using assms
proof (induction a arbitrary: pre i)
  case (Cons r a)
  obtain nm ty ct rd where r: "r = (nm, ty, ct, rd)" by (cases r) auto
  let ?pre = "pre @ rr_bytes r"
  define p where "p = pre @ rrs_bytes (r # a) @ post"
  have p: "p = pre @ rr_bytes r @ (rrs_bytes a @ post)" "p = ?pre @ rrs_bytes a @ post" by (simp_all add: p_def)
  have g: "get_rr_len p (length pre) len False = Done (length (rr_bytes r), length nm)"
    unfolding p(1) r by (rule get_rr_len_rr) (use Cons.prems r in auto)
  have "p = (pre @ nm) @ to_be16 ty @ (ct @ to_be16 (of_nat (length rd)) @ rd @ rrs_bytes a @ post)"
    by (simp add: p_def r)
  then have "be16 (p ! (length pre + length nm)) (p ! (length pre + length nm + 1)) = ty"
    using be16_at[of "pre @ nm" ty] by (metis length_append)
  then have "find_opt_rr p len qcount recs i (length pre) = find_opt_rr p len qcount recs (i + 1) (length pre + length (rr_bytes r))"
    using Cons.prems r g by (intro find_opt_rr_step[where k = "length nm"]) auto
  moreover have "find_opt_rr (?pre @ rrs_bytes a @ post) len qcount recs (i + 1) (length ?pre) =
      find_opt_rr (?pre @ rrs_bytes a @ post) len qcount recs (i + 1 + length a) (length ?pre + length (rrs_bytes a))"
    using Cons.prems by (intro Cons.IH) auto
  ultimately show ?case unfolding p_def[symmetric] p(2)[symmetric] by (simp add: add.assoc)
qed simp

lemma find_opt_rr_hit:
  assumes "rr_ok (nm, ty, ct, rd)" "is_opt_rr (nm, ty, ct, rd)" "qcount \<le> i" "i < recs"
    "length pre + length (rr_bytes (nm, ty, ct, rd)) \<le> len"
  shows "find_opt_rr (pre @ rr_bytes (nm, ty, ct, rd) @ post) len qcount recs i (length pre) =
    Done (length pre + 11, length rd)"
proof -
  define p where "p = pre @ rr_bytes (nm, ty, ct, rd) @ post"
  have g: "get_rr_len p (length pre) len False = Done (length rd + 11, 1)"
    using get_rr_len_rr[OF assms(1,5)] assms(1,2) by (simp add: p_def)
  have "p = (pre @ nm) @ to_be16 ty @ (ct @ to_be16 (of_nat (length rd)) @ rd @ post)" by (simp add: p_def)
  then have "be16 (p ! (length pre + 1)) (p ! (length pre + 1 + 1)) = ns_t_opt"
    using be16_at[of "pre @ nm" ty] assms(2) by (metis is_opt_rr.simps length_append)
  then show ?thesis unfolding p_def[symmetric] using assms(3,4) g
    by (subst find_opt_rr.simps) (simp add: bindO_def Let_def)
qed

text \<open>The first option with the code, with its data inside the packet up to \<open>lim\<close>.\<close>

definition opt_found :: "(u16 \<times> bytes) list \<Rightarrow> u16 \<Rightarrow> nat \<Rightarrow> bytes \<Rightarrow> (nat \<times> nat) outcome \<Rightarrow> bool" where
  "opt_found os target lim packet res \<longleftrightarrow>
     (case map_of os target of
        None \<Rightarrow> res = Fail
      | Some d \<Rightarrow> \<exists>off. res = Done (off, length d) \<and> off + length d \<le> lim \<and> take (length d) (drop off packet) = d)"

lemma opt_found_mono: "opt_found os target lim p res \<Longrightarrow> lim \<le> lim' \<Longrightarrow> opt_found os target lim' p res"
  by (auto simp: opt_found_def split: option.splits)

lemma find_opt_at:
  assumes "list_all (\<lambda>(c, d). length d < 65536) os" "packet = pre @ mid @ opts_bytes os @ post"
    "rdlen = length mid + length (opts_bytes os)"
  shows "opt_found os target (length pre + rdlen) packet (find_opt packet target (length pre) rdlen (length mid))"
  using assms
proof (induction os arbitrary: mid)
  case Nil
  then show ?case by (subst find_opt.simps) (simp add: opt_found_def)
next
  case (Cons o1 os)
  obtain c d where o1: "o1 = (c, d)" by (cases o1)
  have d: "length d < 65536" using Cons.prems(1) o1 by simp
  let ?mid = "mid @ to_be16 c @ to_be16 (of_nat (length d)) @ d"
  have p: "packet = (pre @ mid) @ to_be16 c @ (to_be16 (of_nat (length d)) @ d @ opts_bytes os @ post)"
      "packet = (pre @ mid @ to_be16 c) @ to_be16 (of_nat (length d)) @ (d @ opts_bytes os @ post)"
      "packet = (pre @ ?mid) @ opts_bytes os @ post"
    using Cons.prems(2) o1 by simp_all
  have c1: "be16 (packet ! (length pre + length mid)) (packet ! (length pre + length mid + 1)) = c"
    using be16_at[of "pre @ mid" c] p(1) by (metis length_append)
  have "be16 (packet ! (length pre + length mid + 2)) (packet ! (length pre + length mid + 2 + 1)) = of_nat (length d)"
    using be16_at[of "pre @ mid @ to_be16 c" "of_nat (length d)"] p(2)
    by (metis (no_types, lifting) length_append length_to_be16 add.assoc)
  then have c2: "unat (be16 (packet ! (length pre + length mid + 2)) (packet ! (length pre + length mid + 3))) = length d"
    using unat_length16[OF d] by (simp add: numeral_3_eq_3)
  have l: "rdlen = length mid + 4 + length d + length (opts_bytes os)" "length pre + rdlen \<le> length packet"
    using Cons.prems(2,3) o1 by simp_all
  have s: "find_opt packet target (length pre) rdlen (length mid) =
      (if c = target then Done (length pre + length mid + 4, length d)
       else find_opt packet target (length pre) rdlen (length mid + 4 + length d))"
    using c1 c2 l by (subst find_opt.simps) (simp add: Let_def add.assoc)
  have lm: "length ?mid = length mid + 4 + length d" by simp
  show ?case
  proof (cases "c = target")
    case True
    have "take (length d) (drop (length pre + length mid + 4) packet) = d" unfolding p(2) by simp
    then show ?thesis using True s o1 l by (simp add: opt_found_def)
  next
    case False
    have "opt_found os target (length pre + rdlen) packet (find_opt packet target (length pre) rdlen (length ?mid))"
      using Cons.prems(1) p(3) l(1) by (intro Cons.IH) simp_all
    then show ?thesis using False s o1 unfolding lm by (simp add: opt_found_def)
  qed
qed

text \<open>The head of a message with its four counts.\<close>

definition counts :: "bytes \<Rightarrow> nat \<Rightarrow> nat \<Rightarrow> bool" where
  "counts hdr qs rrs \<longleftrightarrow> length hdr = 12 \<and> unat (be16 (hdr ! 4) (hdr ! 5)) = qs \<and>
     unat (be16 (hdr ! 6) (hdr ! 7)) + unat (be16 (hdr ! 8) (hdr ! 9)) + unat (be16 (hdr ! 10) (hdr ! 11)) = rrs"

lemma get_edns_opt_counts:
  assumes "counts hdr qs rrs" "p = hdr @ x"
  shows "get_edns_opt target p len =
    bindO (find_opt_rr p len qs (qs + rrs) 0 12) (\<lambda>(rdata_o, rdlen). find_opt p target rdata_o rdlen 0)"
proof -
  have h: "length hdr = 12" using assms(1) by (simp add: counts_def)
  then have n: "p ! j = hdr ! j" if "j < 12" for j using that assms(2) by (simp add: nth_append)
  have "12 \<le> length p" using h assms(2) by simp
  moreover have "unat (be16 (p ! 4) (p ! 5)) = qs" "unat (be16 (p ! 4) (p ! 5)) + unat (be16 (p ! 6) (p ! 7)) +
      unat (be16 (p ! 8) (p ! 9)) + unat (be16 (p ! 10) (p ! 11)) = qs + rrs"
    using assms(1) by (auto simp: n counts_def)
  ultimately show ?thesis by (simp add: get_edns_opt_def query_sizes Let_def header_count_def add.assoc)
qed

lemma get_edns_opt_at:
  assumes "counts hdr (length qs) (length a + 1 + length b)" "list_all question_ok qs" "list_all rr_ok a"
    "list_all (\<lambda>r. \<not> is_opt_rr r) a" "length ct = 6" "list_all (\<lambda>(c, d). length d < 65536) os"
    "length (opts_bytes os) < 65536"
    "m = hdr @ questions_bytes qs @ rrs_bytes (a @ ([0], ns_t_opt, ct, opts_bytes os) # b)"
  shows "opt_found os target (length m) (m @ rest) (get_edns_opt target (m @ rest) (length m))"
proof -
  let ?r = "([0], ns_t_opt, ct, opts_bytes os) :: rr" and ?p = "m @ rest" and ?recs = "length qs + (length a + 1 + length b)"
  let ?pre = "hdr @ questions_bytes qs @ rrs_bytes a"
  have h: "length hdr = 12" using assms(1) by (simp add: counts_def)
  have ok: "rr_ok ?r" "is_opt_rr ?r" using assms(5,7) by (auto intro: rr_name.intros)
  have p1: "?p = hdr @ questions_bytes qs @ (rrs_bytes (a @ ?r # b) @ rest)"
    and p2: "?p = (hdr @ questions_bytes qs) @ rrs_bytes a @ (rrs_bytes (?r # b) @ rest)"
    and p3: "?p = ?pre @ rr_bytes ?r @ (rrs_bytes b @ rest)"
    and p4: "?p = (?pre @ [0] @ to_be16 ns_t_opt @ ct @ to_be16 (of_nat (length (opts_bytes os)))) @ [] @ opts_bytes os @ (rrs_bytes b @ rest)"
    by (simp_all add: assms(8))
  have "find_opt_rr ?p (length m) (length qs) ?recs 0 12 = find_opt_rr ?p (length m) (length qs) ?recs (length qs) (length (hdr @ questions_bytes qs))"
    unfolding p1 using find_opt_rr_questions[OF assms(2), of hdr "length m" 0 ?recs] h by (simp add: assms(8))
  also have "\<dots> = find_opt_rr ?p (length m) (length qs) ?recs (length qs + length a) (length ?pre)"
    unfolding p2 using find_opt_rr_skip[OF assms(3,4), of "length qs" "length qs" "hdr @ questions_bytes qs" "length m" ?recs
      "rrs_bytes (?r # b) @ rest"]
    by (simp add: assms(8) add.assoc)
  also have "\<dots> = Done (length ?pre + 11, length (opts_bytes os))"
    unfolding p3 by (rule find_opt_rr_hit) (use ok in \<open>auto simp: assms(8)\<close>)
  finally have f: "find_opt_rr ?p (length m) (length qs) ?recs 0 12 = Done (length ?pre + 11, length (opts_bytes os))" .
  let ?P = "?pre @ [0] @ to_be16 ns_t_opt @ ct @ to_be16 (of_nat (length (opts_bytes os)))"
  have P: "length ?P = length ?pre + 11" "length ?pre + 11 + length (opts_bytes os) \<le> length m"
    using assms(5) by (simp_all add: assms(8))
  have "get_edns_opt target ?p (length m) = find_opt ?p target (length ?pre + 11) (length (opts_bytes os)) (length ([] :: bytes))"
    unfolding get_edns_opt_counts[OF assms(1) p1] f by (simp add: bindO_def)
  moreover have "opt_found os target (length ?P + length (opts_bytes os)) ?p
      (find_opt ?p target (length ?P) (length (opts_bytes os)) (length ([] :: bytes)))"
    by (rule find_opt_at[OF assms(6) p4]) simp
  ultimately show ?thesis using P(2) unfolding P(1) by (auto elim: opt_found_mono)
qed


section \<open>Queries read back\<close>

lemma opts_bytes_append [simp]: "opts_bytes (xs @ ys) = opts_bytes xs @ opts_bytes ys"
  by (simp add: opts_bytes_def)

text \<open>The options of a query as codes with their data.\<close>

definition query_opts :: "query_state \<Rightarrow> (u16 \<times> bytes) list" where
  "query_opts q =
     (if opt_nsid q then [(3, [])] else []) @
     (if opt_client_subnet q then [(EDNS_OPT_CLIENT_SUBNET, to_be16 (if opt_AF_INET q then 1 else 2) @ [0, 0])] else []) @
     (if opt_cookies q
      then [(EDNS_OPT_COOKIE, client_cookie (cookie_state q) @ server_cookies (cookie_state q) ! cookie_index q)] else []) @
     (if opt_edns_option q \<noteq> 0 then [(of_int (opt_edns_option q), [])] else [])"

lemma opts_bytes_query_opts:
  assumes "opt_cookies q \<longrightarrow> length (client_cookie (cookie_state q)) = 8"
  shows "opts_bytes (query_opts q) = query_options q"
  using assms by (simp add: query_opts_def query_options_def nsid_opt_def client_subnet_opt_def cookies_opt_def Let_def query_sizes)

lemma rr_name_wire: "list_all label_ok ls \<Longrightarrow> rr_name (wire_name (map bytes_of ls))"
  by (induction ls) (auto simp: label_ok_def bytes_of_def intro: rr_name.intros intro!: rr_name.intros(3)[of "map of_char _", simplified])

lemma asked_cookie:
  assumes "length stack = 64" "edns_wanted q" "opt_cookies q"
  shows "length (client_cookie (cookie_state (asked random stack loc peer q))) = 8"
  using assms length_client_cookie[OF assms(1)] by (simp add: asked_def with_cookie_def)

lemma counts_query: "counts (dns_header q 1) 1 1"
  by (simp add: counts_def dns_header_def to_be16_def unat_be16)

lemma length_opts_bytes: "(c, d) \<in> set os \<Longrightarrow> length d \<le> length (opts_bytes os)"
  by (induction os) auto

lemma query_opts_found:
  assumes "342 \<le> n" "length stack = 64" "cookies_ok q" "edns_wanted q"
    "ChangetoDnsNameFormat 255 (query_lookupname pid q) = Done enc"
    "q' = asked random stack loc peer q" "m = query_message q' enc" "p = m @ replicate (n - length m) 0"
  shows "mk_dns_buff random pid stack loc peer q (replicate n 0) = Done (0, q'\<lparr>pktsize := length m\<rparr>, p)"
    "opt_found (query_opts q') target (length m) p (get_edns_opt target p (length m))"
proof -
  let ?ct = "to_be16 (of_int (opt_edns0 q')) @ [0, of_int (opt_edns_version q')] @
      to_be16 (of_int (opt_edns_flags q') OR (if opt_dnssec q' then 0x8000 else 0))"
  let ?qs = "[(enc, to_be16 (qtype q') @ to_be16 (qclass q'))]"
  show "mk_dns_buff random pid stack loc peer q (replicate n 0) = Done (0, q'\<lparr>pktsize := length m\<rparr>, p)"
    unfolding mk_dns_buff_eq[OF assms(1-3)] assms(5-8) by (simp add: Let_def)
  have w: "edns_wanted q'" using assms(4) by (simp add: assms(6) asked_def)
  have c: "opt_cookies q' \<longrightarrow> length (client_cookie (cookie_state q')) = 8"
    using asked_cookie[OF assms(2,4), of random loc peer] by (auto simp: assms(6) asked_def with_cookie_def)
  have o: "opts_bytes (query_opts q') = query_options q'" using opts_bytes_query_opts[OF c] .
  have l: "length (query_options q') \<le> 60"
    using length_query_options[OF assms(2), of "q\<lparr>qryid := query_id random q\<rparr>" loc peer] assms(3,4)
    by (simp add: assms(6) asked_def cookies_ok_def)
  obtain ls where ls: "list_all label_ok ls" "enc = wire_name (map bytes_of ls)"
    using ChangetoDnsNameFormat_exact[of 255 "query_lookupname pid q"] assms(5) by (auto simp: query_name_def)
  have m: "m = dns_header q' 1 @ questions_bytes ?qs @ rrs_bytes ([] @ ([0], ns_t_opt, ?ct, opts_bytes (query_opts q')) # [])"
    unfolding assms(7) query_message_def o using w by (simp add: opt_head_def)
  show "opt_found (query_opts q') target (length m) p (get_edns_opt target p (length m))" unfolding assms(8)
  proof (rule get_edns_opt_at[OF _ _ _ _ _ _ _ m])
    show "counts (dns_header q' 1) (length ?qs) (length ([] :: rr list) + 1 + length ([] :: rr list))"
      using counts_query by simp
    show "list_all (\<lambda>(c, d). length d < 65536) (query_opts q')"
      using l length_opts_bytes[of _ _ "query_opts q'"] by (fastforce simp: o list_all_iff)
  qed (use rr_name_wire[OF ls(1)] l in \<open>simp_all add: ls(2) o\<close>)
qed

lemma query_opts_pktsize [simp]: "query_opts (q\<lparr>pktsize := x\<rparr>) = query_opts q"
  by (simp add: query_opts_def)

text \<open>
  C21: What \<open>mk_dns_buff\<close> writes is what the readers of the measurement find: \<open>ReadName\<close> returns
  the name that was asked for from the position behind the header, and for every
  option code \<open>get_edns_opt\<close> returns the data of the first option with this code that
  was requested, or nothing when there is none.
\<close>

theorem query_readback:
  assumes "342 \<le> n" "length stack = 64" "cookies_ok q" "edns_wanted q"
    "ChangetoDnsNameFormat 255 (query_lookupname pid q) = Done enc"
  shows "\<exists>q' p. mk_dns_buff random pid stack loc peer q (replicate n 0) = Done (0, q', p) \<and>
     ReadName p (pktsize q') 12 = Done (bytes_of (butlast (query_lookupname pid q)), length enc) \<and>
     opt_found (query_opts q') target (pktsize q') p (get_edns_opt target p (pktsize q'))"
proof -
  define q' where "q' = asked random stack loc peer q"
  define m where "m = query_message q' enc"
  define p where "p = m @ replicate (n - length m) 0"
  note f = query_opts_found[OF assms q'_def m_def p_def]
  have w: "edns_wanted q'" using assms(4) by (simp add: q'_def asked_def)
  have "ReadName (dns_header q' 1 @ enc @ (to_be16 (qtype q') @ to_be16 (qclass q') @ opt_head q' @
        to_be16 (of_nat (length (query_options q'))) @ query_options q' @ replicate (n - length m) 0)) (length m) 12 =
      Done (bytes_of (butlast (query_lookupname pid q)), length enc)"
    using ReadName_encoded[OF assms(5), of "length m" "dns_header q' 1" "length m - 12 - length enc"] w
    by (simp add: m_def query_message_def)
  then have "ReadName p (length m) 12 = Done (bytes_of (butlast (query_lookupname pid q)), length enc)"
    using w by (simp add: p_def m_def query_message_def)
  then show ?thesis using f(1) f(2)[of target] by auto
qed

theorem query_readback_witness:
  "\<exists>q' p. mk_dns_buff 65536 7 (replicate 64 0) [] [] query_nl (replicate 512 0) = Done (0, q', p) \<and>
     ReadName p (pktsize q') 12 = Done (bytes_of ''nl'', 4) \<and>
     opt_found (query_opts q') 3 (pktsize q') p (get_edns_opt 3 p (pktsize q'))"
proof -
  have c: "ChangetoDnsNameFormat 255 (query_lookupname 7 query_nl) = Done [2, 110, 108, 0]" by code_simp
  have l: "butlast (query_lookupname 7 query_nl) = ''nl''" by code_simp
  have e: "cookies_ok query_nl" "edns_wanted query_nl" by code_simp+
  have n: "length [2, 110, 108, 0 :: u8] = 4" by simp
  show ?thesis using query_readback[OF _ _ e c, of 512 "replicate 64 0" 65536 "[]" "[]" 3] unfolding l n by simp
qed


section \<open>Server cookies\<close>

lemma update_server_cookie_learns:
  assumes "opt_found os EDNS_OPT_COOKIE (length m) (m @ rest) (get_edns_opt EDNS_OPT_COOKIE (m @ rest) (length m))"
    "map_of os EDNS_OPT_COOKIE = Some (client_cookie (cookie_state q) @ s)" "length (client_cookie (cookie_state q)) = 8"
    "8 \<le> length s" "length s \<le> 32" "cookies_ok q"
  shows "update_server_cookie q (m @ rest) (length m) = Done (set_server_cookie s (set_server_cookie [] q))"
proof -
  let ?c = "client_cookie (cookie_state q)"
  obtain off where g: "get_edns_opt EDNS_OPT_COOKIE (m @ rest) (length m) = Done (off, 8 + length s)"
      "off + (8 + length s) \<le> length m" "take (8 + length s) (drop off (m @ rest)) = ?c @ s"
    using assms(1-3) by (auto simp: opt_found_def)
  have "take 8 D = take 8 (take (8 + length s) D)" for D :: bytes by simp
  from this[of "drop off (m @ rest)"] have t1: "take 8 (drop off (m @ rest)) = ?c" unfolding g(3) using assms(3) by simp
  have "take (length s) (drop (off + 8) D) = drop 8 (take (8 + length s) (drop off D))" for D :: bytes
    by (simp add: drop_take add.commute)
  from this[of "m @ rest"] have t2: "take (length s) (drop (off + 8) (m @ rest)) = s" unfolding g(3) using assms(3) by simp
  show ?thesis
    using g(1,2) t1 t2 assms(4-6) unfolding update_server_cookie_def
    by (simp add: Let_def query_sizes cookies_ok_def)
qed

lemma set_server_cookie_simps [simp]:
  "cookie_index (set_server_cookie c q) = cookie_index q" "query_lookupname pid (set_server_cookie c q) = query_lookupname pid q"
  "edns_wanted (set_server_cookie c q) = edns_wanted q" "opt_cookies (set_server_cookie c q) = opt_cookies q"
  "client_secret (cookie_state (set_server_cookie c q)) = client_secret (cookie_state q)"
  "server_cookies (cookie_state (set_server_cookie c q)) = (server_cookies (cookie_state q))[cookie_index q := c]"
  by (simp_all add: set_server_cookie_def cookie_index_def query_lookupname_def edns_wanted_def)

lemma set_server_cookie_ok: "cookies_ok q \<Longrightarrow> length c \<le> DNS_SERVER_COOKIE_MAX_LEN \<Longrightarrow> cookies_ok (set_server_cookie c q)"
  by (auto simp: cookies_ok_def list_all_iff dest: set_update_subset_insert[THEN subsetD])

text \<open>
  C8: Cookies are exchanged: when a reply carries, behind any questions and records, an OPT
  record whose first cookie option is the client cookie of the query followed
  by 8 to 32 bytes, then these bytes are remembered for the server, and the next
  query carries a cookie option with a client cookie and exactly these bytes.
\<close>

theorem dns_cookie_exchange:
  assumes reply: "counts hdr (length qs) (length a + 1 + length b)" "list_all question_ok qs" "list_all rr_ok a"
      "list_all (\<lambda>r. \<not> is_opt_rr r) a" "length ct = 6" "list_all (\<lambda>(c, d). length d < 65536) os"
      "length (opts_bytes os) < 65536"
      "m = hdr @ questions_bytes qs @ rrs_bytes (a @ ([0], ns_t_opt, ct, opts_bytes os) # b)"
    and cookie: "map_of os EDNS_OPT_COOKIE = Some (client_cookie (cookie_state q) @ s)"
      "length (client_cookie (cookie_state q)) = 8" "8 \<le> length s" "length s \<le> 32"
    and q: "cookies_ok q" "opt_cookies q" "342 \<le> n" "length stack = 64"
      "ChangetoDnsNameFormat 255 (query_lookupname pid q) = Done enc"
  shows "\<exists>q1 q2 p off. update_server_cookie q (m @ rest) (length m) = Done q1 \<and>
     mk_dns_buff random pid stack loc peer q1 (replicate n 0) = Done (0, q2, p) \<and>
     get_edns_opt EDNS_OPT_COOKIE p (pktsize q2) = Done (off, 8 + length s) \<and>
     take (8 + length s) (drop off p) = mk_client_cookie stack loc peer q @ s"
proof -
  define q1 where "q1 = set_server_cookie s (set_server_cookie [] q)"
  have u: "update_server_cookie q (m @ rest) (length m) = Done q1"
    unfolding q1_def
    by (rule update_server_cookie_learns[OF get_edns_opt_at[OF reply] cookie q(1)])
  have ok: "cookies_ok q1" unfolding q1_def using q(1) cookie(4) by (auto intro!: set_server_cookie_ok simp: query_sizes)
  have w: "edns_wanted q1" using q(2) by (simp add: q1_def edns_wanted_def)
  have e: "ChangetoDnsNameFormat 255 (query_lookupname pid q1) = Done enc" using q(5) by (simp add: q1_def)
  define q2 where "q2 = asked random stack loc peer q1"
  note f = query_opts_found[OF q(3,4) ok w e q2_def refl refl]
  let ?c = "mk_client_cookie stack loc peer q"
  have i: "cookie_index q < length (server_cookies (cookie_state q))" using q(1) by (simp add: cookies_ok_def)
  have "client_cookie (cookie_state q2) = ?c" "server_cookies (cookie_state q2) ! cookie_index q2 = s" "opt_cookies q2"
    using w q(2) i by (simp_all add: q2_def asked_def with_cookie_def mk_client_cookie_def q1_def)
  then have "map_of (query_opts q2) EDNS_OPT_COOKIE = Some (?c @ s)"
    by (simp add: query_opts_def EDNS_OPT_COOKIE_def EDNS_OPT_CLIENT_SUBNET_def)
  with f(2)[of EDNS_OPT_COOKIE] obtain off where
    "get_edns_opt EDNS_OPT_COOKIE (query_message q2 enc @ replicate (n - length (query_message q2 enc)) 0) (length (query_message q2 enc)) =
       Done (off, length (?c @ s))"
    "take (length (?c @ s)) (drop off (query_message q2 enc @ replicate (n - length (query_message q2 enc)) 0)) = ?c @ s"
    by (auto simp: opt_found_def)
  moreover have "length (?c @ s) = 8 + length s" using length_client_cookie[OF q(4)] by simp
  ultimately show ?thesis using u f(1) by (intro exI conjI) auto
qed

definition query_cookie :: query_state where
  "query_cookie = query_nl\<lparr>opt_cookies := True, cookie_state :=
     \<lparr>client_secret = [], client_cookie = [1, 2, 3, 4, 5, 6, 7, 8], server_cookies = [[], [], []]\<rparr>\<rparr>"

theorem dns_cookie_exchange_witness:
  "\<exists>q1 q2 p off. update_server_cookie query_cookie
       ([0, 0, 0x80, 0, 0, 0, 0, 0, 0, 0, 0, 1, 0, 0, 41, 2, 0, 0, 0, 0, 0, 0, 20,
         0, 10, 0, 16, 1, 2, 3, 4, 5, 6, 7, 8, 9, 9, 9, 9, 9, 9, 9, 9] @ [0, 0]) 43 = Done q1 \<and>
     mk_dns_buff 1 7 (replicate 64 0) [] [] q1 (replicate 512 0) = Done (0, q2, p) \<and>
     get_edns_opt EDNS_OPT_COOKIE p (pktsize q2) = Done (off, 16) \<and>
     take 16 (drop off p) = mk_client_cookie (replicate 64 0) [] [] query_cookie @ replicate 8 9"
proof -
  let ?os = "[(10, [1, 2, 3, 4, 5, 6, 7, 8] @ replicate 8 9)] :: (u16 \<times> bytes) list"
  let ?hdr = "[0, 0, 0x80, 0, 0, 0, 0, 0, 0, 0, 0, 1] :: bytes" and ?ct = "[2, 0, 0, 0, 0, 0] :: bytes"
  let ?m = "[0, 0, 0x80, 0, 0, 0, 0, 0, 0, 0, 0, 1, 0, 0, 41, 2, 0, 0, 0, 0, 0, 0, 20,
         0, 10, 0, 16, 1, 2, 3, 4, 5, 6, 7, 8, 9, 9, 9, 9, 9, 9, 9, 9] :: bytes"
  have m: "?m = ?hdr @ questions_bytes [] @ rrs_bytes ([] @ ([0], ns_t_opt, ?ct, opts_bytes ?os) # [])" by code_simp
  have c: "counts ?hdr (length ([] :: (bytes \<times> bytes) list)) (length ([] :: rr list) + 1 + length ([] :: rr list))" by code_simp
  have o: "map_of ?os EDNS_OPT_COOKIE = Some (client_cookie (cookie_state query_cookie) @ replicate 8 9)" by code_simp
  have q: "cookies_ok query_cookie" "opt_cookies query_cookie"
      "ChangetoDnsNameFormat 255 (query_lookupname 7 query_cookie) = Done [2, 110, 108, 0]"
      "length (client_cookie (cookie_state query_cookie)) = 8" by code_simp+
  have l: "length ?m = 43" "8 + length (replicate 8 (9 :: u8)) = 16" by simp_all
  show ?thesis
    using dns_cookie_exchange[OF c _ _ _ _ _ _ m o q(4) _ _ q(1,2) _ _ q(3), of 512 "replicate 64 0" "[0, 0]" 1 "[]" "[]"]
    unfolding l by simp
qed


section \<open>How far a reply is read\<close>

lemma rr_name_len_inside: "len \<le> length p \<Longrightarrow> rr_name_len p off len k \<noteq> Abort r"
proof (induction p off len k rule: rr_name_len.induct)
  case (1 p off len k)
  then show ?case by (subst rr_name_len.simps) (auto simp: Let_def)
qed

lemma get_rr_len_inside: "len \<le> length p \<Longrightarrow> get_rr_len p off len question \<noteq> Abort r"
  using rr_name_len_inside[of len p off 0]
  by (cases "rr_name_len p off len 0") (auto simp: get_rr_len_def bindO_def Let_def)

lemma find_opt_rr_inside: "len \<le> length p \<Longrightarrow> find_opt_rr p len qcount recs i off \<noteq> Abort r"
proof (induction "recs - i" arbitrary: i off)
  case 0
  then show ?case by (subst find_opt_rr.simps) simp
next
  case (Suc n)
  have "n = recs - (i + 1)" using Suc.hyps(2) by simp
  then have ih: "find_opt_rr p len qcount recs (i + 1) off' \<noteq> Abort r" for off'
    using Suc.hyps(1)[of "i + 1" off'] Suc.prems by simp
  show ?case
  proof (cases "get_rr_len p off len (i < qcount)")
    case (Done x)
    then show ?thesis using ih by (subst find_opt_rr.simps) (auto simp: bindO_def Let_def split: prod.splits)
  next
    case Fail
    then show ?thesis by (subst find_opt_rr.simps) (simp add: bindO_def)
  next
    case (Abort y)
    then show ?thesis using get_rr_len_inside[OF Suc.prems] by blast
  qed
qed

lemma find_opt_inside: "find_opt p target ro rl k = Abort r \<Longrightarrow> length p < ro + rl"
proof (induction p target ro rl k rule: find_opt.induct)
  case (1 p target ro rl k)
  then show ?case by (subst (asm) find_opt.simps) (auto simp: Let_def split: if_splits)
qed

text \<open>
  C24: In a reply that lies in the packet buffer, the search for an option reads outside the
  buffer only when the OPT record announces more data than the buffer has
  behind it: its length is never compared with the length of the reply.
\<close>

theorem get_edns_opt_inside:
  assumes "get_edns_opt target p len = Abort r" "len \<le> length p" "sizeof_DNS_HEADER \<le> length p"
  shows "\<exists>ro rl. find_opt_rr p len (header_count p 4)
       (header_count p 4 + header_count p 6 + header_count p 8 + header_count p 10) 0 sizeof_DNS_HEADER = Done (ro, rl) \<and>
     length p < ro + rl"
proof -
  let ?f = "find_opt_rr p len (header_count p 4)
       (header_count p 4 + header_count p 6 + header_count p 8 + header_count p 10) 0 sizeof_DNS_HEADER"
  have b: "bindO ?f (\<lambda>(rdata_o, rdlen). find_opt p target rdata_o rdlen 0) = Abort r"
    using assms(1,3) by (simp add: get_edns_opt_def Let_def)
  show ?thesis
  proof (cases ?f)
    case (Done x)
    obtain ro rl where x: "x = (ro, rl)" by (cases x)
    then have "find_opt p target ro rl 0 = Abort r" using b Done by (simp add: bindO_def)
    then show ?thesis using Done x find_opt_inside by blast
  next
    case (Abort y) then show ?thesis using find_opt_rr_inside[OF assms(2)] by blast
  qed (use b in \<open>simp add: bindO_def\<close>)
qed

text \<open>A reply of 27 bytes whose OPT record announces 65535: the second option is looked for behind the buffer.\<close>

definition long_opt_reply :: bytes where
  "long_opt_reply = [0, 0, 0x80, 0, 0, 0, 0, 0, 0, 0, 0, 1, 0, 0, 41, 2, 0, 0, 0, 0, 0, 0xff, 0xff, 0, 1, 0xff, 0xe0]"

lemma long_opt_reply_overread:
  "get_edns_opt EDNS_OPT_COOKIE (long_opt_reply @ replicate (MAX_DNS_BUF_SIZE - 27) 0) 27 =
     Abort (Undefined ''get_edns_opt: option'')"
proof -
  let ?p = "long_opt_reply @ replicate (MAX_DNS_BUF_SIZE - 27) 0"
  have "length long_opt_reply = 27" by (simp add: long_opt_reply_def)
  then have n: "?p ! j = long_opt_reply ! j" if "j < 27" for j using that by (simp add: nth_append)
  have l: "length ?p = 5120" by (simp add: long_opt_reply_def MAX_DNS_BUF_SIZE_def)
  have 1: "rr_name_len ?p 12 27 0 = Done 1" using l by (subst rr_name_len.simps) (simp add: n long_opt_reply_def)
  have 2: "find_opt_rr ?p 27 0 1 0 12 = Done (23, 65535)"
    using l 1 by (subst find_opt_rr.simps) (simp add: get_rr_len_def bindO_def Let_def n long_opt_reply_def unat_be16 ns_t_opt_def be16_def)
  have 3: "find_opt ?p EDNS_OPT_COOKIE 23 65535 0 = Abort (Undefined ''get_edns_opt: option'')"
    using l by (subst find_opt.simps, subst find_opt.simps) (simp add: Let_def n long_opt_reply_def unat_be16 EDNS_OPT_COOKIE_def be16_def)
  show ?thesis unfolding get_edns_opt_def Let_def
    using l 2 3 by (simp add: n query_sizes header_count_def long_opt_reply_def unat_be16 bindO_def)
qed

theorem get_edns_opt_inside_witness:
  "let p = long_opt_reply @ replicate (MAX_DNS_BUF_SIZE - 27) 0 in
   get_edns_opt EDNS_OPT_COOKIE p 27 = Abort (Undefined ''get_edns_opt: option'') \<and>
   (\<exists>ro rl. find_opt_rr p 27 (header_count p 4) (header_count p 4 + header_count p 6 + header_count p 8 + header_count p 10) 0
      sizeof_DNS_HEADER = Done (ro, rl) \<and> MAX_DNS_BUF_SIZE < ro + rl)"
proof -
  have l: "length (long_opt_reply @ replicate (MAX_DNS_BUF_SIZE - 27) 0) = MAX_DNS_BUF_SIZE"
    by (simp add: long_opt_reply_def MAX_DNS_BUF_SIZE_def)
  have "27 \<le> MAX_DNS_BUF_SIZE" "sizeof_DNS_HEADER \<le> MAX_DNS_BUF_SIZE" by (simp_all add: MAX_DNS_BUF_SIZE_def query_sizes)
  then show ?thesis
    using get_edns_opt_inside[OF long_opt_reply_overread, unfolded l] long_opt_reply_overread unfolding Let_def by blast
qed

end
