(* ===== verification/Response_Log.thy ===== *)
theory Response_Log
  imports Probe_Prelude
begin

text \<open>
  The log in which a measurement records what it received, to be replayed later:
  \<^verbatim>\<open>libbb/atlas_write_response.c\<close> and \<^verbatim>\<open>libbb/atlas_read_response.c\<close>.  A record is the type (an \<open>int\<close>), the
  size (a \<open>size_t\<close>) and the data, in the byte order of a little-endian machine.
  The lemmas show that replaying returns what was recorded, however often the
  type of the next record is looked at, and when the reader gives up.
\<close>


section \<open>Model\<close>

definition to_le32 :: "u32 \<Rightarrow> bytes" where
  "to_le32 v = rev (to_be32 v)"

definition le32 :: "bytes \<Rightarrow> u32" where
  "le32 b = be32 (b ! 3) (b ! 2) (b ! 1) (b ! 0)"

definition to_le64 :: "u64 \<Rightarrow> bytes" where
  "to_le64 v = to_le32 (ucast v) @ to_le32 (ucast (drop_bit 32 v))"

definition le64 :: "bytes \<Rightarrow> u64" where
  "le64 b = ucast (le32 (take 4 b)) OR push_bit 32 (ucast (le32 (drop 4 b)))"

definition write_response :: "bytes \<Rightarrow> u32 \<Rightarrow> bytes \<Rightarrow> bytes" where
  "write_response file type d = file @ to_le32 type @ to_le64 (of_nat (length d)) @ d"

text \<open>The static variables of the reader and what is left of the file.\<close>

record resp_reader =
  got_type :: bool
  stored_type :: u32
  resp_file :: bytes

text \<open>\<open>read\<close> and \<open>fread\<close> return \<open>None\<close> when fewer bytes are left.\<close>

definition read_exactly :: "nat \<Rightarrow> bytes \<Rightarrow> (bytes \<times> bytes) option" where
  "read_exactly n f = (if n \<le> length f then Some (take n f, drop n f) else None)"

definition peek_response :: "resp_reader \<Rightarrow> (u32 \<times> resp_reader) outcome" where
  "peek_response s =
     (if got_type s then Done (stored_type s, s)
      else case read_exactly 4 (resp_file s) of
        None \<Rightarrow> Abort (Fatal ''peek_response: error reading'')
      | Some (b, f) \<Rightarrow> Done (le32 b, s\<lparr>got_type := True, stored_type := le32 b, resp_file := f\<rparr>))"

definition peek_response_file :: "resp_reader \<Rightarrow> (u32 \<times> resp_reader) outcome" where
  "peek_response_file s =
     (if got_type s then Done (stored_type s, s)
      else case read_exactly 4 (resp_file s) of
        None \<Rightarrow> Abort (Fatal ''peek_response_file: error reading'')
      | Some (b, f) \<Rightarrow> Done (le32 b, s\<lparr>got_type := True, stored_type := le32 b, resp_file := f\<rparr>))"

text \<open>\<open>sizep\<close> is the size of the caller's buffer; the data read are returned.\<close>

definition read_response :: "resp_reader \<Rightarrow> u32 \<Rightarrow> u64 \<Rightarrow> (bytes \<times> resp_reader) outcome" where
  "read_response s type sizep =
     bindO (if got_type s then Done (stored_type s, s\<lparr>got_type := False\<rparr>)
            else case read_exactly 4 (resp_file s) of
              None \<Rightarrow> Abort (Fatal ''read_response: error reading'')
            | Some (b, f) \<Rightarrow> Done (le32 b, s\<lparr>resp_file := f\<rparr>)) (\<lambda>(tmp_type, s1).
     if tmp_type \<noteq> type then Abort (Fatal ''read_response: wrong type'')
     else case read_exactly 8 (resp_file s1) of
       None \<Rightarrow> Abort (Fatal ''read_response: error reading'')
     | Some (b, f) \<Rightarrow>
         let tmp_size = le64 b in
         if sizep < tmp_size then Abort (Fatal ''read_response: data bigger than buffer'')
         else case read_exactly (unat tmp_size) f of
           None \<Rightarrow> Abort (Fatal ''read_response: error reading'')
         | Some (d, f') \<Rightarrow> Done (d, s1\<lparr>resp_file := f'\<rparr>))"

definition read_response_file :: "resp_reader \<Rightarrow> u32 \<Rightarrow> u64 \<Rightarrow> (bytes \<times> resp_reader) outcome" where
  "read_response_file s type sizep =
     bindO (if got_type s then Done (stored_type s, s\<lparr>got_type := False\<rparr>)
            else case read_exactly 4 (resp_file s) of
              None \<Rightarrow> Abort (Fatal ''read_response_file: error reading'')
            | Some (b, f) \<Rightarrow> Done (le32 b, s\<lparr>resp_file := f\<rparr>)) (\<lambda>(tmp_type, s1).
     if tmp_type \<noteq> type then Abort (Fatal ''read_response_file: wrong type'')
     else case read_exactly 8 (resp_file s1) of
       None \<Rightarrow> Abort (Fatal ''read_response_file: error reading'')
     | Some (b, f) \<Rightarrow>
         let tmp_size = le64 b in
         if sizep < tmp_size then Abort (Fatal ''read_response_file: data bigger than buffer'')
         else if tmp_size = 0 then Done ([], s1\<lparr>resp_file := f\<rparr>)
         else case read_exactly (unat tmp_size) f of
           None \<Rightarrow> Abort (Fatal ''read_response_file: error reading data'')
         | Some (d, f') \<Rightarrow> Done (d, s1\<lparr>resp_file := f'\<rparr>))"


section \<open>Byte order\<close>

lemma length_le [simp]: "length (to_le32 v) = 4" "length (to_le64 w) = 8"
  by (simp_all add: to_le32_def to_le64_def)

lemma le32_to_le32 [simp]: "le32 (to_le32 v) = v"
  using be32_to_be32[of v] by (simp add: le32_def to_le32_def to_be32_def)

lemma le64_to_le64 [simp]: "le64 (to_le64 v) = v"
proof -
  have "take 4 (to_le64 v) = to_le32 (ucast v)" "drop 4 (to_le64 v) = to_le32 (ucast (drop_bit 32 v))"
    by (simp_all add: to_le64_def)
  then have "le64 (to_le64 v) = ucast (ucast v :: u32) OR push_bit 32 (ucast (ucast (drop_bit 32 v) :: u32))"
    by (simp add: le64_def)
  also have "\<dots> = v" by (rule bit_word_eqI) (auto simp: bit_simps)
  finally show ?thesis .
qed

lemma read_exactly_append [simp]: "length b = n \<Longrightarrow> read_exactly n (b @ f) = Some (b, f)"
  by (simp add: read_exactly_def)


section \<open>Replay\<close>

definition record_bytes :: "u32 \<times> bytes \<Rightarrow> bytes" where
  "record_bytes r = to_le32 (fst r) @ to_le64 (of_nat (length (snd r))) @ snd r"

lemma write_response_record: "write_response file ty d = file @ record_bytes (ty, d)"
  by (simp add: write_response_def record_bytes_def)

text \<open>
  A reader before the records \<open>f\<close>: either nothing has been read of the first one, or
  its type.
\<close>

definition before :: "bytes \<Rightarrow> resp_reader \<Rightarrow> bool" where
  "before f s \<longleftrightarrow> (if got_type s then f = to_le32 (stored_type s) @ resp_file s else f = resp_file s)"

lemma peek_before:
  assumes "before (record_bytes (ty, d) @ rest) s"
  shows "\<exists>s'. peek_response s = Done (ty, s') \<and> peek_response_file s = Done (ty, s') \<and> before (record_bytes (ty, d) @ rest) s'"
proof (cases "got_type s")
  case True
  have "le32 (take 4 (record_bytes (ty, d) @ rest)) = ty" by (simp add: record_bytes_def)
  moreover have "le32 (take 4 (record_bytes (ty, d) @ rest)) = stored_type s"
    using assms True by (simp add: before_def)
  ultimately show ?thesis using assms True by (simp add: peek_response_def peek_response_file_def)
next
  case False
  then have f: "resp_file s = to_le32 ty @ (to_le64 (of_nat (length d)) @ d @ rest)"
    using assms by (simp add: before_def record_bytes_def)
  show ?thesis using False unfolding peek_response_def peek_response_file_def f
    by (simp add: before_def record_bytes_def)
qed

lemma read_before:
  assumes "before (record_bytes (ty, d) @ rest) s" "length d < 2 ^ 64" "of_nat (length d) \<le> sz"
  shows "\<exists>s'. read_response s ty sz = Done (d, s') \<and> read_response_file s ty sz = Done (d, s') \<and> before rest s' \<and> \<not> got_type s'"
proof -
  have u: "unat (of_nat (length d) :: u64) = length d" using assms(2) by (simp add: unsigned_of_nat take_bit_nat_eq_self)
  have n: "(of_nat (length d) :: u64) = 0 \<Longrightarrow> d = []" using u by (metis length_0_conv unat_0)
  have sz: "\<not> sz < of_nat (length d)" using assms(3) by simp
  let ?f = "to_le64 (of_nat (length d)) @ d @ rest"
  show ?thesis
  proof (cases "got_type s")
    case True
    then have "to_le32 ty @ ?f = to_le32 (stored_type s) @ resp_file s"
      using assms(1) by (simp add: before_def record_bytes_def)
    then have f: "resp_file s = ?f" "stored_type s = ty"
      by (auto simp: append_eq_append_conv dest: arg_cong[of _ _ le32])
    show ?thesis
      using True n sz unfolding read_response_def read_response_file_def
      by (auto simp: f bindO_def Let_def before_def u)
  next
    case False
    then have f: "resp_file s = to_le32 ty @ ?f" using assms(1) by (simp add: before_def record_bytes_def)
    show ?thesis
      using False n sz unfolding read_response_def read_response_file_def
      by (auto simp: f bindO_def Let_def before_def u)
  qed
qed

text \<open>
  A replay: for each record the reader looks at the type some number of times and
  then reads a record of the expected type into a buffer.
\<close>

fun peeks :: "nat \<Rightarrow> resp_reader \<Rightarrow> resp_reader outcome" where
  "peeks 0 s = Done s"
| "peeks (Suc k) s = bindO (peek_response_file s) (\<lambda>(_, s'). peeks k s')"

fun replay_file :: "(nat \<times> u32 \<times> u64) list \<Rightarrow> resp_reader \<Rightarrow> (bytes list \<times> resp_reader) outcome" where
  "replay_file [] s = Done ([], s)"
| "replay_file ((k, ty, sz) # ops) s =
     bindO (peeks k s) (\<lambda>s1. bindO (read_response_file s1 ty sz) (\<lambda>(d, s2).
       bindO (replay_file ops s2) (\<lambda>(ds, s3). Done (d # ds, s3))))"

definition recorded :: "(u32 \<times> bytes) list \<Rightarrow> bytes" where
  "recorded rs = foldl (\<lambda>f (ty, d). write_response f ty d) [] rs"

lemma recorded_concat: "recorded rs = concat (map record_bytes rs)"
proof -
  have "foldl (\<lambda>f (ty, d). write_response f ty d) f rs = f @ concat (map record_bytes rs)" for f
    by (induction rs arbitrary: f) (auto simp: write_response_record)
  then show ?thesis by (simp add: recorded_def)
qed

lemma peeks_before:
  assumes "before (record_bytes (ty, d) @ rest) s"
  shows "\<exists>s'. peeks k s = Done s' \<and> before (record_bytes (ty, d) @ rest) s'"
  using assms
proof (induction k arbitrary: s)
  case (Suc k)
  then show ?case using peek_before[OF Suc.prems] by (force simp: bindO_def)
qed simp

lemma replay_before:
  assumes "before (concat (map record_bytes rs) @ rest) s" "list_all2 (\<lambda>(k, ty, sz) (ty', d). ty = ty' \<and> of_nat (length d) \<le> sz \<and> length d < 2 ^ 64) ops rs"
  shows "\<exists>s'. replay_file ops s = Done (map snd rs, s') \<and> before rest s'"
  using assms(2,1)
proof (induction ops rs arbitrary: s rule: list_all2_induct)
  case Nil
  then show ?case by simp
next
  case (Cons x ops r rs)
  obtain k ty sz d where x: "x = (k, ty, sz)" "r = (ty, d)" "of_nat (length d) \<le> sz" "length d < 2 ^ 64"
    using Cons.hyps(1) by (cases x; cases r) auto
  have b: "before (record_bytes (ty, d) @ (concat (map record_bytes rs) @ rest)) s" using Cons.prems x by simp
  obtain s1 where s1: "peeks k s = Done s1" "before (record_bytes (ty, d) @ (concat (map record_bytes rs) @ rest)) s1"
    using peeks_before[OF b] by blast
  obtain s2 where s2: "read_response_file s1 ty sz = Done (d, s2)" "before (concat (map record_bytes rs) @ rest) s2"
    using read_before[OF s1(2) x(4,3)] by blast
  obtain s3 where "replay_file ops s2 = Done (map snd rs, s3)" "before rest s3" using Cons.IH[OF s2(2)] by blast
  then show ?case using x(1,2) s1(1) s2(1) by (simp add: bindO_def)
qed

text \<open>
  C22: Replaying a log returns, in order, the data of the records that were written,
  provided each is read with its type into a buffer that is large enough,
  however often the type of the next record is looked at before; afterwards the
  whole log has been used.
\<close>

theorem response_log_replay:
  assumes "list_all2 (\<lambda>(k, ty, sz) (ty', d). ty = ty' \<and> of_nat (length d) \<le> sz \<and> length d < 2 ^ 64) ops rs"
  shows "\<exists>s. replay_file ops \<lparr>got_type = False, stored_type = t0, resp_file = recorded rs\<rparr> = Done (map snd rs, s) \<and>
     \<not> got_type s \<and> resp_file s = []"
proof -
  let ?s = "\<lparr>got_type = False, stored_type = t0, resp_file = recorded rs\<rparr>"
  have "before (concat (map record_bytes rs) @ []) ?s" by (simp add: before_def recorded_concat)
  from replay_before[OF this assms(1)] obtain s where "replay_file ops ?s = Done (map snd rs, s)" "before [] s" by auto
  then show ?thesis by (auto simp: before_def split: if_splits dest: arg_cong[of _ _ length])
qed

theorem response_log_replay_witness:
  "\<exists>s. replay_file [(2, 6, 2), (0, 7, 256)] \<lparr>got_type = False, stored_type = 9, resp_file = recorded [(6, [0, 1]), (7, [42])]\<rparr> =
     Done ([[0, 1], [42]], s) \<and> \<not> got_type s \<and> resp_file s = []"
  using response_log_replay[of "[(2, 6, 2), (0, 7, 256)]" "[(6, [0, 1]), (7, [42])]" 9] by simp

end
