(* ===== verification/Bb64.thy ===== *)
theory Bb64
  imports Byte_Sink
begin

text \<open>
  \<^verbatim>\<open>libbb/atlas_bb64.c\<close>: the growing buffer \<open>struct buf\<close> and the base64 writer on
  top of it.  The lemmas show that the buffer implements the byte sink, that
  decoding the written text gives back the data, and how the text is broken
  into lines.
\<close>


section \<open>Model\<close>

definition BUF_CHUNK :: nat where "BUF_CHUNK = 256"

text \<open>
  \<open>data\<close> holds the bytes of the block before \<open>size\<close>; \<open>maxsize\<close> is what was
  allocated.  \<open>size_t\<close> sums cannot wrap for blocks that fit in memory.
\<close>

record buf =
  offset :: nat
  size :: nat
  maxsize :: nat
  data :: bytes
  fd :: int

definition buf_init :: "int \<Rightarrow> buf" where
  "buf_init f = \<lparr>offset = 0, size = 0, maxsize = 0, data = [], fd = f\<rparr>"

text \<open>\<open>malloc n\<close> says whether an allocation of \<open>n\<close> bytes succeeds.\<close>

definition buf_add :: "(nat \<Rightarrow> bool) \<Rightarrow> buf \<Rightarrow> bytes \<Rightarrow> int \<times> buf" where
  "buf_add malloc b d =
     (if size b + length d \<le> maxsize b then
        (0, b\<lparr>data := take (size b) (data b) @ d, size := size b + length d\<rparr>)
      else let m = size b - offset b + length d + BUF_CHUNK in
        if \<not> malloc m then (1, b)
        else let b1 = (if offset b < size b
                       then b\<lparr>data := drop (offset b) (data b), size := size b - offset b,
                              offset := 0\<rparr>
                       else b\<lparr>data := [], size := 0, offset := 0\<rparr>);
                 b2 = b1\<lparr>maxsize := m\<rparr>
             in (0, b2\<lparr>data := take (size b2) (data b2) @ d, size := size b2 + length d\<rparr>))"

definition b64 :: string where
  "b64 = ''ABCDEFGHIJKLMNOPQRSTUVWXYZabcdefghijklmnopqrstuvwxyz0123456789+/''"

definition b64_char :: "u32 \<Rightarrow> nat \<Rightarrow> u8" where
  "b64_char v n = of_char (b64 ! unat (drop_bit n v AND 63))"

fun buf_add_b64_loop :: "(nat \<Rightarrow> bool) \<Rightarrow> bool \<Rightarrow> nat \<Rightarrow> bytes \<Rightarrow> buf \<Rightarrow> buf" where
  "buf_add_b64_loop malloc mime_nl i (p0 # p1 # p2 # p) b =
     (let v = push_bit 16 (ucast p0) + push_bit 8 (ucast p1) + ucast p2;
          b1 = snd (buf_add malloc b [b64_char v 18, b64_char v 12, b64_char v 6, b64_char v 0]);
          b2 = (if mime_nl \<and> i mod 48 = 45 then snd (buf_add malloc b1 [10]) else b1)
      in buf_add_b64_loop malloc mime_nl (i + 3) p b2)"
| "buf_add_b64_loop malloc mime_nl i [p0] b =
     (let v = push_bit 16 (ucast p0)
      in snd (buf_add malloc b [b64_char v 18, b64_char v 12, 61, 61]))"
| "buf_add_b64_loop malloc mime_nl i [p0, p1] b =
     (let v = push_bit 16 (ucast p0) + push_bit 8 (ucast p1)
      in snd (buf_add malloc b [b64_char v 18, b64_char v 12, b64_char v 6, 61]))"
| "buf_add_b64_loop malloc mime_nl i [] b = b"

definition buf_add_b64 :: "(nat \<Rightarrow> bool) \<Rightarrow> buf \<Rightarrow> bytes \<Rightarrow> bool \<Rightarrow> buf" where
  "buf_add_b64 malloc b d mime_nl = buf_add_b64_loop malloc mime_nl 0 d b"

definition buf_cleanup :: "buf \<Rightarrow> buf" where
  "buf_cleanup b = b\<lparr>data := [], offset := 0, size := 0, maxsize := 0\<rparr>"


section \<open>The buffer as a byte sink\<close>

definition buf_ok :: "buf \<Rightarrow> bool" where
  "buf_ok b \<longleftrightarrow> offset b \<le> size b \<and> size b \<le> maxsize b \<and> length (data b) = size b"

definition buf_contents :: "buf \<Rightarrow> bytes" where
  "buf_contents b = drop (offset b) (data b)"

text \<open>The part of \<open>buf_add\<close> a writer that ignores the return value relies on.\<close>

definition buf_put :: "buf \<Rightarrow> bytes \<Rightarrow> buf" where
  "buf_put b d = snd (buf_add (\<lambda>_. True) b d)"

lemma buf_add_ok: "buf_ok b \<Longrightarrow> buf_ok (snd (buf_add malloc b d))"
  by (auto simp: buf_add_def buf_ok_def Let_def)

lemma buf_add_contents:
  assumes "buf_ok b"
  shows "buf_add malloc b d = (0, b') \<Longrightarrow> buf_contents b' = buf_contents b @ d"
  using assms by (auto simp: buf_add_def buf_ok_def buf_contents_def Let_def split: if_splits)

lemma buf_add_fails: "buf_add malloc b d = (r, b') \<Longrightarrow> r \<noteq> 0 \<Longrightarrow> b' = b"
  by (auto simp: buf_add_def Let_def split: if_splits)

interpretation struct_buf: byte_sink buf_put buf_contents buf_ok
proof unfold_locales
  fix b :: buf and d :: bytes
  assume ok: "buf_ok b"
  show "buf_ok (buf_put b d)" using buf_add_ok[OF ok] by (simp add: buf_put_def)
  have "fst (buf_add (\<lambda>_. True) b d) = 0" by (simp add: buf_add_def Let_def)
  then show "buf_contents (buf_put b d) = buf_contents b @ d"
    using buf_add_contents[OF ok] by (metis buf_put_def prod.collapse)
qed


section \<open>The written text\<close>

text \<open>What the encoder writes, as a list of chunks handed to the buffer.\<close>

fun b64_chunks :: "bool \<Rightarrow> nat \<Rightarrow> bytes \<Rightarrow> bytes list" where
  "b64_chunks mime_nl i (p0 # p1 # p2 # p) =
     (let v = push_bit 16 (ucast p0) + push_bit 8 (ucast p1) + ucast p2
      in [b64_char v 18, b64_char v 12, b64_char v 6, b64_char v 0]
         # (if mime_nl \<and> i mod 48 = 45 then [[10]] else []) @ b64_chunks mime_nl (i + 3) p)"
| "b64_chunks mime_nl i [p0] =
     (let v = push_bit 16 (ucast p0) in [[b64_char v 18, b64_char v 12, 61, 61]])"
| "b64_chunks mime_nl i [p0, p1] =
     (let v = push_bit 16 (ucast p0) + push_bit 8 (ucast p1)
      in [[b64_char v 18, b64_char v 12, b64_char v 6, 61]])"
| "b64_chunks mime_nl i [] = []"

text \<open>The decoder of RFC 4648, section 4, with its alphabet given by ranges.\<close>

definition b64_index :: "u8 \<Rightarrow> u32 option" where
  "b64_index c =
     (if 65 \<le> c \<and> c \<le> 90 then Some (ucast c - 65)
      else if 97 \<le> c \<and> c \<le> 122 then Some (ucast c - 97 + 26)
      else if 48 \<le> c \<and> c \<le> 57 then Some (ucast c - 48 + 52)
      else if c = 43 then Some 62
      else if c = 47 then Some 63
      else None)"

definition b64_join :: "u32 \<Rightarrow> u32 \<Rightarrow> u32 \<Rightarrow> u32 \<Rightarrow> u32" where
  "b64_join a b c d = push_bit 18 a OR push_bit 12 b OR push_bit 6 c OR d"

fun b64_decode :: "bytes \<Rightarrow> bytes option" where
  "b64_decode [] = Some []"
| "b64_decode (a # b # c # d # r) =
     (case (b64_index a, b64_index b) of
        (Some x, Some y) \<Rightarrow>
          (if d = 61 \<and> c = 61 \<and> r = [] then Some [ucast (drop_bit 16 (b64_join x y 0 0))]
           else (case b64_index c of None \<Rightarrow> None
             | Some z \<Rightarrow>
               (if d = 61 \<and> r = []
                then Some [ucast (drop_bit 16 (b64_join x y z 0)), ucast (drop_bit 8 (b64_join x y z 0))]
                else (case (b64_index d, b64_decode r) of
                  (Some w, Some bs) \<Rightarrow>
                    (let v = b64_join x y z w
                     in Some (ucast (drop_bit 16 v) # ucast (drop_bit 8 v) # ucast v # bs))
                | _ \<Rightarrow> None))))
      | _ \<Rightarrow> None)"
| "b64_decode _ = None"

lemma loop_chunks:
  "buf_add_b64_loop (\<lambda>_. True) mime_nl i d b = foldl buf_put b (b64_chunks mime_nl i d)"
  by (induction mime_nl i d arbitrary: b rule: b64_chunks.induct)
     (auto simp: Let_def buf_put_def[symmetric])

lemma b64_alphabet: "k < 64 \<Longrightarrow> b64_index (of_char (b64 ! k)) = Some (of_nat k)"
proof -
  have "list_all (\<lambda>k. b64_index (of_char (b64 ! k)) = Some (of_nat k)) [0..<64]" by code_simp
  then show "k < 64 \<Longrightarrow> b64_index (of_char (b64 ! k)) = Some (of_nat k)" by (simp add: list_all_iff)
qed

lemma b64_alphabet_text: "k < 64 \<Longrightarrow> of_char (b64 ! k) \<notin> {10, 61 :: u8}"
proof -
  have "list_all (\<lambda>k. of_char (b64 ! k) \<noteq> (10 :: u8) \<and> of_char (b64 ! k) \<noteq> (61 :: u8)) [0..<64]"
    by code_simp
  then show "k < 64 \<Longrightarrow> of_char (b64 ! k) \<notin> {10, 61 :: u8}" by (simp add: list_all_iff)
qed

lemma sextet_less: "unat (w AND 63 :: u32) < 64"
proof -
  have "w AND 63 \<le> 63" by (rule word_and_le1)
  then show ?thesis by (simp add: word_le_nat_alt)
qed

lemma b64_index_char [simp]: "b64_index (b64_char v n) = Some (drop_bit n v AND 63)"
  using b64_alphabet[OF sextet_less] by (simp add: b64_char_def)

lemma b64_char_text [simp]: "b64_char v n \<noteq> 10" "b64_char v n \<noteq> 61"
  using b64_alphabet_text[OF sextet_less] by (auto simp: b64_char_def)

text \<open>The four sextets of a 24-bit group, joined again.\<close>

definition b64_group :: "u8 \<Rightarrow> u8 \<Rightarrow> u8 \<Rightarrow> u32" where
  "b64_group a b c = push_bit 16 (ucast a) OR push_bit 8 (ucast b) OR ucast c"

lemma group_sum:
  "b64_group a b 0 + ucast c = b64_group a b c"
  "b64_group a 0 0 + push_bit 8 (ucast b) = b64_group a b 0"
  "push_bit 16 (ucast a) = b64_group a 0 0"
proof -
  show "b64_group a b 0 + ucast c = b64_group a b c"
    unfolding b64_group_def
    by (subst or_disjoint_add[symmetric]) (auto simp: bit_simps or.assoc dest: bit_imp_le_length)
  show "b64_group a 0 0 + push_bit 8 (ucast b) = b64_group a b 0"
    unfolding b64_group_def
    by (subst or_disjoint_add[symmetric]) (auto simp: bit_simps dest: bit_imp_le_length)
qed (simp add: b64_group_def)

lemma bit_63: "bit (63 :: u32) n \<longleftrightarrow> n < 6"
proof -
  have "(63 :: u32) = mask 6" by (simp add: mask_eq_exp_minus_1)
  then show ?thesis by (simp only: bit_mask_iff) auto
qed

lemma join_sextets_mask:
  assumes m: "\<And>n. bit m n \<longleftrightarrow> n < 6"
  shows "b64_join (drop_bit 18 v AND m) (drop_bit 12 v AND m) (drop_bit 6 v AND m) (drop_bit 0 v AND m)
     = v AND mask 24"
proof (rule bit_word_eqI)
  fix n assume "n < LENGTH(32)"
  then have "n < 6 \<or> 6 \<le> n \<and> n < 12 \<or> 12 \<le> n \<and> n < 18 \<or> 18 \<le> n \<and> n < 24 \<or> 24 \<le> n \<and> n < 32"
    by auto
  then show "bit (b64_join (drop_bit 18 v AND m) (drop_bit 12 v AND m) (drop_bit 6 v AND m)
      (drop_bit 0 v AND m)) n = bit (v AND mask 24) n"
    by (elim disjE) (auto simp: b64_join_def bit_simps m)
qed

lemmas join_sextets = join_sextets_mask[OF bit_63]

lemma bit_u8: "bit (a :: u8) n \<Longrightarrow> n < 8"
  by (auto dest: bit_imp_le_length)

lemma group_bytes:
  "ucast (drop_bit 16 (b64_group a b c AND mask 24)) = a"
  "ucast (drop_bit 8 (b64_group a b c AND mask 24)) = b"
  "ucast (b64_group a b c AND mask 24) = c"
  by (rule bit_word_eqI; auto simp: b64_group_def bit_simps dest: bit_u8)+

lemma group_padding:
  assumes m: "\<And>n. bit m n \<longleftrightarrow> n < 6"
  shows "drop_bit 0 (b64_group a b 0) AND m = 0"
    and "drop_bit 6 (b64_group a 0 0) AND m = 0"
  by (rule bit_word_eqI; auto simp: b64_group_def bit_simps m dest: bit_u8)+

lemma join_group:
  "b64_join (drop_bit 18 (b64_group a b c) AND 63) (drop_bit 12 (b64_group a b c) AND 63)
     (drop_bit 6 (b64_group a b c) AND 63) (b64_group a b c AND 63) = b64_group a b c AND mask 24"
  "b64_join (drop_bit 18 (b64_group a b 0) AND 63) (drop_bit 12 (b64_group a b 0) AND 63)
     (drop_bit 6 (b64_group a b 0) AND 63) 0 = b64_group a b 0 AND mask 24"
  "b64_join (drop_bit 18 (b64_group a 0 0) AND 63) (drop_bit 12 (b64_group a 0 0) AND 63) 0 0
     = b64_group a 0 0 AND mask 24"
  using join_sextets[of "b64_group a b c"] join_sextets[of "b64_group a b 0"]
    join_sextets[of "b64_group a 0 0"] group_padding(1)[OF bit_63, of a b] group_padding(1)[OF bit_63, of a 0]
    group_padding(2)[OF bit_63, of a]
  by simp_all

lemmas b64_simps = group_sum join_group group_bytes

lemma b64_chunks_decode:
  "b64_decode (filter (\<lambda>c. c \<noteq> 10) (concat (b64_chunks mime_nl i d))) = Some d"
  by (induction mime_nl i d rule: b64_chunks.induct)
     (simp_all add: Let_def b64_simps del: drop_bit_and)

lemma b64_chunks_length:
  "length (filter (\<lambda>c. c \<noteq> 10) (concat (b64_chunks mime_nl i d))) = 4 * ((length d + 2) div 3)"
proof (induction mime_nl i d rule: b64_chunks.induct)
  case (1 mime_nl i p0 p1 p2 p)
  have "(5 + length p) div 3 = (length p + 2) div 3 + 1" by simp
  with 1 show ?case by (simp add: Let_def)
qed (simp_all add: Let_def)

lemma b64_chunks_no_newline: "\<not> mime_nl \<Longrightarrow> 10 \<notin> set (concat (b64_chunks mime_nl i d))"
  by (induction mime_nl i d rule: b64_chunks.induct) (auto simp: Let_def)

text \<open>Length of the longest run without a line feed, the last one included.\<close>

fun line_lengths :: "nat \<Rightarrow> bytes \<Rightarrow> nat list" where
  "line_lengths n [] = [n]"
| "line_lengths n (c # cs) = (if c = 10 then n # line_lengths 0 cs else line_lengths (n + 1) cs)"

lemma b64_chunks_lines:
  "i mod 3 = 0 \<Longrightarrow>
   \<forall>n \<in> set (line_lengths (4 * (i mod 48 div 3)) (concat (b64_chunks True i d))). n \<le> 64"
proof (induction True i d rule: b64_chunks.induct)
  case (1 i p0 p1 p2 p)
  have IH: "\<forall>n \<in> set (line_lengths (4 * ((i + 3) mod 48 div 3)) (concat (b64_chunks True (i + 3) p))). n \<le> 64"
    using 1 by (simp add: Let_def)
  show ?case
  proof (cases "i mod 48 = 45")
    case True
    then have "(i + 3) mod 48 = 0" by presburger
    with True IH show ?thesis by (simp add: Let_def)
  next
    case False
    define q where "q = i mod 48"
    have "q < 48" "q mod 3 = 0" using "1.prems" by (simp_all add: q_def mod_mod_cancel)
    with False have "q + 3 < 48" unfolding q_def[symmetric] by presburger
    then have "(i + 3) mod 48 = i mod 48 + 3" unfolding q_def by (simp add: mod_add_left_eq[of i 48 3, symmetric])
    moreover have "(i mod 48 + 3) div 3 = i mod 48 div 3 + 1" by (rule div_add_self2) simp
    ultimately have "4 * ((i + 3) mod 48 div 3) = Suc (Suc (Suc (Suc (4 * (i mod 48 div 3)))))"
      by simp
    with False IH show ?thesis by (simp add: Let_def)
  qed
next
  case (2 i p0)
  have "i mod 48 < 48" by simp
  then have "i mod 48 div 3 \<le> 15" by linarith
  then show ?case by (simp add: Let_def)
next
  case (3 i p0 p1)
  have "i mod 48 < 48" by simp
  then have "i mod 48 div 3 \<le> 15" by linarith
  then show ?case by (simp add: Let_def)
next
  case (4 i)
  have "i mod 48 < 48" by simp
  then have "i mod 48 div 3 \<le> 15" by linarith
  then show ?case by simp
qed


section \<open>Properties\<close>

text \<open>
  \<open>buf_add\<close> on a well-formed buffer keeps it well formed (what is read and
  written lies inside the allocated block); it either appends the bytes to what
  the buffer holds and returns 0, or, when memory runs out, returns 1 and
  leaves the buffer as it was.
\<close>

theorem buf_add_refines:
  assumes "buf_ok b"
  shows "buf_ok (snd (buf_add malloc b d)) \<and>
         (fst (buf_add malloc b d) = 0 \<and>
            buf_contents (snd (buf_add malloc b d)) = buf_contents b @ d \<or>
          fst (buf_add malloc b d) = 1 \<and> snd (buf_add malloc b d) = b)"
  using assms by (auto simp: buf_add_def buf_ok_def buf_contents_def Let_def)

theorem buf_add_refines_witness:
  "buf_ok (buf_init 1) \<and>
   (fst (buf_add (\<lambda>n. n < 200) (buf_init 1) [1, 2]) = 0 \<and>
      buf_contents (snd (buf_add (\<lambda>n. n < 200) (buf_init 1) [1, 2])) = [1, 2] \<or>
    fst (buf_add (\<lambda>n. n < 200) (buf_init 1) [1, 2]) = 1 \<and>
      snd (buf_add (\<lambda>n. n < 200) (buf_init 1) [1, 2]) = buf_init 1)"
proof -
  have ok: "buf_ok (buf_init 1)" and e: "buf_contents (buf_init 1) = []"
    by (simp_all add: buf_ok_def buf_init_def buf_contents_def)
  show ?thesis using buf_add_refines[OF ok, of "\<lambda>n. n < 200" "[1, 2]"] ok
    by (simp only: e append.simps simp_thms)
qed

text \<open>
  C38: What \<open>buf_add_b64\<close> appends to the buffer, line feeds removed, is the
  base64 text of the data: it has four characters for every three bytes begun,
  and the RFC 4648 decoder gives the data back.  Without \<open>mime_nl\<close> there is no
  line feed in it; with it no line is longer than 64 characters.
\<close>

theorem buf_add_b64_roundtrip:
  assumes "buf_ok b"
  shows "\<exists>out. buf_contents (buf_add_b64 (\<lambda>_. True) b d mime_nl) = buf_contents b @ out \<and>
           b64_decode (filter (\<lambda>c. c \<noteq> 10) out) = Some d \<and>
           length (filter (\<lambda>c. c \<noteq> 10) out) = 4 * ((length d + 2) div 3) \<and>
           (if mime_nl then \<forall>n \<in> set (line_lengths 0 out). n \<le> 64 else 10 \<notin> set out)"
proof (intro exI conjI)
  let ?out = "concat (b64_chunks mime_nl 0 d)"
  show "buf_contents (buf_add_b64 (\<lambda>_. True) b d mime_nl) = buf_contents b @ ?out"
    using assms by (simp add: buf_add_b64_def loop_chunks struct_buf.contents_foldl)
  show "b64_decode (filter (\<lambda>c. c \<noteq> 10) ?out) = Some d" by (rule b64_chunks_decode)
  show "length (filter (\<lambda>c. c \<noteq> 10) ?out) = 4 * ((length d + 2) div 3)" by (rule b64_chunks_length)
  show "if mime_nl then \<forall>n \<in> set (line_lengths 0 ?out). n \<le> 64 else 10 \<notin> set ?out"
    using b64_chunks_lines[of 0 d] b64_chunks_no_newline[of False 0 d] by (cases mime_nl) simp_all
qed

theorem buf_add_b64_roundtrip_witness:
  "buf_ok (buf_init 1) \<and>
   (\<exists>out. buf_contents (buf_add_b64 (\<lambda>_. True) (buf_init 1) [82, 73, 80, 69] False) = out \<and>
          b64_decode (filter (\<lambda>c. c \<noteq> 10) out) = Some [82, 73, 80, 69] \<and>
          length (filter (\<lambda>c. c \<noteq> 10) out) = 8 \<and> 10 \<notin> set out)"
proof -
  have ok: "buf_ok (buf_init 1)" and e: "buf_contents (buf_init 1) = []"
    by (simp_all add: buf_ok_def buf_init_def buf_contents_def)
  show ?thesis using buf_add_b64_roundtrip[OF ok, of "[82, 73, 80, 69]" False] ok
    by (simp add: e)
qed

end
