(* ===== verification/Dns_Reply.thy ===== *)
theory Dns_Reply
  imports Dns_Query Response_Log Bb64 Cmdline
begin

text \<open>
  Replies of the DNS measurement, from \<^verbatim>\<open>eperd/evtdig.c\<close>: the text that \<open>printReply\<close> writes for
  the answers of a message, and \<open>tcp_readcb\<close>, which collects a message from a TCP
  connection.  The lemmas show how far a message is read, that the printed TXT
  data can be recovered, that the way TCP cuts a message into pieces does not
  matter after the length, and that a recorded connection replays to the same
  result.
\<close>


section \<open>Printing answers\<close>

definition chars_of :: "bytes \<Rightarrow> string" where
  "chars_of b = map (\<lambda>w. char_of (unat w)) b"

text \<open>The macros JS, JSDOT, JU and JU_NC print through a line of 256 bytes.\<close>

definition js :: "string \<Rightarrow> string \<Rightarrow> string" where
  "js key val = snprintf DEFAULT_LINE_LENGTH (quoted key @ '' : '' @ quoted val @ '' , '')"

definition jsdot :: "string \<Rightarrow> string \<Rightarrow> string" where
  "jsdot key val = snprintf DEFAULT_LINE_LENGTH (quoted key @ '' : '' @ quoted (val @ ''.'') @ '' , '')"

definition ju :: "string \<Rightarrow> nat \<Rightarrow> string" where
  "ju key val = snprintf DEFAULT_LINE_LENGTH (quoted key @ '' : '' @ print_dec val @ '' , '')"

definition ju_nc :: "string \<Rightarrow> nat \<Rightarrow> string" where
  "ju_nc key val = snprintf DEFAULT_LINE_LENGTH (quoted key @ '' : '' @ print_dec val)"

text \<open>A byte of TXT data: \<^verbatim>\<open>%03d\<close> behind two backslashes unless it is printable.\<close>

definition dec3 :: "nat \<Rightarrow> string" where
  "dec3 n = [char_of (48 + n div 100), char_of (48 + n div 10 mod 10), char_of (48 + n mod 10)]"

definition txt_char :: "u8 \<Rightarrow> string" where
  "txt_char b =
     (if b = 34 \<or> b = 92 then [CHR 0x5c, CHR 0x5c] @ dec3 (unat b)
      else if 32 \<le> b \<and> b \<le> 126 then [char_of (unat b)]
      else [CHR 0x5c, CHR 0x5c] @ dec3 (unat b))"

text \<open>\<open>len\<close> is what is left of the current string, or \<open>-1\<close> before its length byte.\<close>

fun txt_loop :: "int \<Rightarrow> bytes \<Rightarrow> string" where
  "txt_loop len [] = []"
| "txt_loop len (b # rdata) =
     (let sep = (if len = 0 then [CHR 0x22, CHR '','', CHR '' '', CHR 0x22] else []);
          len1 = (if len = 0 then -1 else len) in
      sep @ (if len1 = -1 then txt_loop (uint b) rdata else txt_char b @ txt_loop (len1 - 1) rdata))"

definition print_txt_json :: "bytes \<Rightarrow> string" where
  "print_txt_json rdata = quoted ''RDATA'' @ '' : [ '' @ [CHR 0x22] @ txt_loop (-1) rdata @ [CHR 0x22] @ '' ] ''"

definition T_SOA :: u16 where "T_SOA = 6"
definition T_TXT :: u16 where "T_TXT = 16"
definition sizeof_R_DATA :: nat where "sizeof_R_DATA = 10"

text \<open>
  The text for the answers; \<open>n\<close> is the number of answers left, \<open>flagAnswer\<close> tells whether
  the list has been opened.  A reply that is cut off ends the text.
\<close>

definition txt_answer :: "nat \<Rightarrow> bytes \<Rightarrow> bytes \<Rightarrow> string" where
  "txt_answer flagAnswer name rdata =
     (if flagAnswer = 0 then '','' @ quoted ''answers'' @ '' : [ {'' else '', {'') @
     js ''TYPE'' ''TXT'' @ js ''NAME'' (c_string (chars_of name)) @ print_txt_json rdata @ ''}''"

definition soa_answer :: "nat \<Rightarrow> bytes \<Rightarrow> u32 \<Rightarrow> bytes \<Rightarrow> bytes \<Rightarrow> u32 \<Rightarrow> string" where
  "soa_answer flagAnswer name ttl name1 name2 serial =
     (if flagAnswer = 0 then '','' @ quoted ''answers'' @ '' : [ { '' else '',{ '') @
     js ''TYPE'' ''SOA'' @ jsdot ''NAME'' (c_string (chars_of name)) @ ju ''TTL'' (unat ttl) @
     jsdot ''MNAME'' (c_string (chars_of name1)) @ jsdot ''RNAME'' (c_string (chars_of name2)) @
     ju_nc ''SERIAL'' (unat serial) @ '' } ''"

fun answer_loop :: "bytes \<Rightarrow> nat \<Rightarrow> nat \<Rightarrow> nat \<Rightarrow> nat \<Rightarrow> string outcome" where
  "answer_loop result wire_size 0 off flagAnswer = Done (if 0 < flagAnswer then '' ]'' else [])"
| "answer_loop result wire_size (Suc n) off flagAnswer =
     (case ReadName result wire_size off of
        Abort r \<Rightarrow> Abort r
      | Fail \<Rightarrow> Done []
      | Done (name, stop) \<Rightarrow>
          let off1 = off + stop; off2 = off1 + sizeof_R_DATA in
          if wire_size < off2 then Done []
          else if length result < off2 then Abort (Undefined ''printReply: record'')
          else let type = be16 (result ! off1) (result ! (off1 + 1));
                   ttl = be32 (result ! (off1 + 4)) (result ! (off1 + 5)) (result ! (off1 + 6)) (result ! (off1 + 7));
                   data_len = unat (be16 (result ! (off1 + 8)) (result ! (off1 + 9))) in
            if type = T_TXT then
              if wire_size < off2 + data_len then Done []
              else if length result < off2 + data_len then Abort (Undefined ''printReply: data'')
              else bindO (answer_loop result wire_size n (off2 + data_len) (if flagAnswer = 0 then 2 else flagAnswer + 1))
                     (\<lambda>t. Done (txt_answer flagAnswer name (take data_len (drop off2 result)) @ t))
            else if type = T_SOA then
              (case ReadName result wire_size off2 of
                 Abort r \<Rightarrow> Abort r
               | Fail \<Rightarrow> Done []
               | Done (name1, stop1) \<Rightarrow>
                   (case ReadName result wire_size (off2 + stop1) of
                      Abort r \<Rightarrow> Abort r
                    | Fail \<Rightarrow> Done []
                    | Done (name2, stop2) \<Rightarrow>
                        let off4 = off2 + stop1 + stop2 in
                        if wire_size < off4 + 5 * 4 then Done []
                        else if length result < off4 + 4 then Abort (Undefined ''printReply: serial'')
                        else bindO (answer_loop result wire_size n (off4 + 4 + 4 * 4) (flagAnswer + 1))
                               (\<lambda>t. Done (soa_answer flagAnswer name ttl name1 name2 (get32b result off4) @ t))))
            else if wire_size < off2 + data_len then Done []
            else answer_loop result wire_size n (off2 + data_len) flagAnswer)"

text \<open>The part of \<open>printReply\<close> for the message, from the check of its size to the end of the result.\<close>

definition reply_json :: "bytes \<Rightarrow> nat \<Rightarrow> string outcome" where
  "reply_json result wire_size =
     (if wire_size < sizeof_DNS_HEADER then Done '' }''
      else if length result < sizeof_DNS_HEADER then Abort (Undefined ''printReply: header'')
      else let ancount = header_count result 6;
               head = '','' @ ju ''ID'' (header_count result 0) @ ju ''ANCOUNT'' ancount @
                 ju ''QDCOUNT'' (header_count result 4) @ ju ''NSCOUNT'' (header_count result 8) @
                 ju_nc ''ARCOUNT'' (header_count result 10) in
        case dns_namelen result sizeof_DNS_HEADER wire_size of
          Abort r \<Rightarrow> Abort r
        | Fail \<Rightarrow> Done (head @ '' }'')
        | Done len \<Rightarrow>
            let off = sizeof_DNS_HEADER + len + sizeof_QUESTION in
            if wire_size < off then Done (head @ '' }'')
            else if 0 < ancount
            then bindO (answer_loop result wire_size (min 2 ancount) off 0) (\<lambda>t. Done (head @ t @ '' }''))
            else Done (head @ '' }''))"


section \<open>How far a reply is read\<close>

lemma dns_namelen_loop_inside: "sz \<le> length base \<Longrightarrow> dns_namelen_loop base off sz \<noteq> Abort r"
proof (induction base off sz rule: dns_namelen_loop.induct)
  case (1 base off sz)
  then show ?case by (subst dns_namelen_loop.simps) (auto simp: Let_def)
qed

lemma dns_namelen_inside: "sz \<le> length base \<Longrightarrow> dns_namelen base off sz \<noteq> Abort r"
  using dns_namelen_loop_inside[of sz base off]
  by (cases "dns_namelen_loop base off sz") (auto simp: dns_namelen_def bindO_def)

text \<open>The last byte of the block starts a compression pointer.\<close>

definition cut_pointer :: "bytes \<Rightarrow> nat \<Rightarrow> bool" where
  "cut_pointer b n \<longleftrightarrow> n = length b \<and> b \<noteq> [] \<and> 192 \<le> unat (last b)"

lemma ReadName_inside: "ReadName b n off = Abort r \<Longrightarrow> n \<le> length b \<Longrightarrow> cut_pointer b n"
  using ReadName_ok[of n b off] by (simp add: read_ok_def cut_pointer_def)

lemma answer_loop_inside:
  "answer_loop b n k off fl = Abort r \<Longrightarrow> n \<le> length b \<Longrightarrow> cut_pointer b n"
proof (induction k arbitrary: off fl)
  case (Suc k)
  show ?case
    using Suc.prems Suc.IH ReadName_inside[of b n]
    by (auto simp: Let_def bindO_def split: outcome.splits if_splits prod.splits)
qed simp

text \<open>
  C13: Printing the answers of a message that lies in its block reads outside the block
  in one situation only: the message fills the block and its last byte is the
  first half of a compression pointer.  In every other case the text is
  produced, whatever the message contains.
\<close>

theorem reply_json_inside:
  assumes "n \<le> length b"
  shows "(\<exists>text. reply_json b n = Done text) \<or> cut_pointer b n"
proof -
  have nf: "answer_loop b n k off fl \<noteq> Fail" for k off fl
    by (induction k arbitrary: off fl) (auto simp: Let_def bindO_def split: outcome.splits prod.splits)
  show ?thesis
    using assms dns_namelen_inside[OF assms] answer_loop_inside[of b n] nf
    unfolding reply_json_def
    by (auto simp: Let_def bindO_def split: outcome.splits)
qed

text \<open>A message of thirteen bytes that fills its block and ends with half a pointer.\<close>

theorem reply_json_inside_witness:
  "(\<exists>text. reply_json ([0, 1, 0x80, 0, 0, 0, 0, 1, 0, 0, 0, 0] @ [0, 0, 1, 0, 1, 0xc0]) 18 = Done text) \<or>
   cut_pointer ([0, 1, 0x80, 0, 0, 0, 0, 1, 0, 0, 0, 0] @ [0, 0, 1, 0, 1, 0xc0]) 18"
  using reply_json_inside[of 18 "[0, 1, 0x80, 0, 0, 0, 0, 1, 0, 0, 0, 0] @ [0, 0, 1, 0, 1, 0xc0]"] by simp


section \<open>TXT data\<close>

definition txt_text :: "bytes \<Rightarrow> string" where
  "txt_text s = concat (map txt_char s)"

definition txt_wire :: "bytes list \<Rightarrow> bytes" where
  "txt_wire ss = concat (map (\<lambda>s. of_nat (length s) # s) ss)"

definition txt_sep :: string where
  "txt_sep = [CHR 0x22, CHR '','', CHR '' '', CHR 0x22]"

text \<open>Undoing the escapes.\<close>

fun txt_decode :: "string \<Rightarrow> bytes" where
  "txt_decode (x # y # a # b # c # s) =
     (if x = CHR 0x5c
      then of_nat (100 * (of_char a - 48) + 10 * (of_char b - 48) + (of_char c - 48)) # txt_decode s
      else of_char x # txt_decode (y # a # b # c # s))"
| "txt_decode (x # s) = of_char x # txt_decode s"
| "txt_decode [] = []"

lemma txt_loop_string: "txt_loop (int (length s)) (s @ rest) = txt_text s @ txt_loop 0 rest"
  by (induction s) (simp_all add: txt_text_def Let_def)

lemma txt_loop_wire:
  assumes "list_all (\<lambda>s. length s < 256) ss"
  shows "txt_loop 0 (txt_wire ss) = concat (map (\<lambda>s. txt_sep @ txt_text s) ss)"
  using assms
proof (induction ss)
  case (Cons s ss)
  have "uint (of_nat (length s) :: u8) = int (length s)" using Cons.prems by (simp add: unsigned_of_nat take_bit_int_eq_self of_nat_take_bit)
  then show ?case using Cons txt_loop_string[of s "txt_wire ss"] by (simp add: txt_wire_def Let_def txt_sep_def)
qed (simp add: txt_wire_def)

lemma char_byte: "of_char (char_of (unat b) :: char) = (b :: u8)"
proof -
  have "(of_char (char_of (unat b) :: char) :: u8) = of_nat (of_char (char_of (unat b) :: char))" by (simp only: of_nat_of_char)
  also have "(of_char (char_of (unat b) :: char) :: nat) = unat b" using unat_u8[of b] by (simp add: of_char_of)
  finally show ?thesis by simp
qed

lemma txt_decode_plain: "x \<noteq> CHR 0x5c \<Longrightarrow> txt_decode (x # s) = of_char x # txt_decode s"
  by (rule txt_decode.cases[of "x # s"]) auto

lemma of_char_digit: "k < 10 \<Longrightarrow> of_char (char_of (48 + k :: nat) :: char) = (48 + k :: nat)"
  by (simp add: of_char_of)

lemma digits3: "100 * (n div 100) + 10 * (n div 10 mod 10) + n mod 10 = (n :: nat)"
proof -
  have "n div 100 = n div 10 div 10" by (simp add: div_mult2_eq[symmetric])
  moreover have "10 * (n div 10 div 10) + n div 10 mod 10 = n div 10" "10 * (n div 10) + n mod 10 = n" by simp_all
  ultimately show ?thesis by linarith
qed

lemma txt_decode_dec3: "txt_decode ([CHR 0x5c, CHR 0x5c] @ dec3 (unat b) @ s) = b # txt_decode s"
proof -
  let ?n = "unat (b :: u8)"
  have n: "?n div 100 < 10" using unat_u8[of b] by simp
  note d = of_char_digit[OF n] of_char_digit[of "?n div 10 mod 10"] of_char_digit[of "?n mod 10"]
  have "(of_nat (100 * (?n div 100) + 10 * (?n div 10 mod 10) + ?n mod 10) :: u8) = b" unfolding digits3 by simp
  moreover have "(48 + ?n div 100) mod 256 = 48 + ?n div 100" using n by simp
  ultimately show ?thesis by (simp add: dec3_def d del: of_nat_add of_nat_mult)
qed

lemma dec3_plain: "CHR 0x22 \<notin> set (dec3 (unat (b :: u8)))"
proof -
  have n: "char_of (48 + k :: nat) \<noteq> CHR 0x22" if "k < 10" for k
  proof
    assume "char_of (48 + k) = CHR 0x22"
    then have "(of_char (char_of (48 + k) :: char) :: nat) = of_char (CHR 0x22)" by simp
    then show False using of_char_digit[OF that] by simp
  qed
  have "unat b div 100 < 10" using unat_u8[of b] by simp
  from n[OF this] n[of "unat b div 10 mod 10"] n[of "unat b mod 10"] show ?thesis by (simp add: dec3_def eq_commute)
qed

lemma txt_decode_text: "txt_decode (txt_text s) = s"
proof (induction s)
  case (Cons b s)
  have "char_of (unat b) \<noteq> CHR 0x5c" if "b \<noteq> 92"
  proof
    assume "char_of (unat b) = CHR 0x5c"
    then have "(of_char (char_of (unat b) :: char) :: u8) = of_char (CHR 0x5c)" by simp
    then show False using that by (simp add: char_byte)
  qed
  then show ?case
    using Cons.IH txt_decode_dec3[of b "txt_text s"] txt_decode_plain[of "char_of (unat b)" "txt_text s"]
    by (auto simp: txt_text_def txt_char_def char_byte)
qed (simp add: txt_text_def)

lemma txt_text_plain: "CHR 0x22 \<notin> set (txt_text s)"
proof -
  have "CHR 0x22 \<notin> set (txt_char b)" for b
  proof -
    have "char_of (unat b) \<noteq> CHR 0x22" if "b \<noteq> 34"
    proof
      assume "char_of (unat b) = CHR 0x22"
      then have "(of_char (char_of (unat b) :: char) :: u8) = of_char (CHR 0x22)" by simp
      then show False using that by (simp add: char_byte)
    qed
    then show ?thesis using dec3_plain[of b] by (auto simp: txt_char_def)
  qed
  then show ?thesis by (auto simp: txt_text_def)
qed

text \<open>
  C36: The data of a TXT record are printed as the list of its strings, each between double
  quotes.  No string contains a double quote of its own, and decoding its
  escapes gives back its bytes, so the list can be recovered from the text.
\<close>

theorem print_txt_json_exact:
  assumes "list_all (\<lambda>s. length s < 256) (s # ss)"
  shows "print_txt_json (txt_wire (s # ss)) =
      quoted ''RDATA'' @ '' : [ '' @ [CHR 0x22] @ txt_text s @ concat (map (\<lambda>s. txt_sep @ txt_text s) ss) @ [CHR 0x22] @ '' ] '' \<and>
    list_all (\<lambda>s. CHR 0x22 \<notin> set (txt_text s) \<and> txt_decode (txt_text s) = s) (s # ss)"
proof -
  have "uint (of_nat (length s) :: u8) = int (length s)" using assms by (simp add: unsigned_of_nat take_bit_int_eq_self of_nat_take_bit)
  then have "txt_loop (-1) (txt_wire (s # ss)) = txt_text s @ concat (map (\<lambda>s. txt_sep @ txt_text s) ss)"
    using txt_loop_string[of s "txt_wire ss"] txt_loop_wire[of ss] assms by (simp add: txt_wire_def)
  then show ?thesis using txt_text_plain txt_decode_text by (simp add: print_txt_json_def list_all_iff)
qed

theorem print_txt_json_exact_witness:
  "print_txt_json [2, 34, 0, 0, 1, 97] =
     quoted ''RDATA'' @ '' : [ '' @ [CHR 0x22] @ [CHR 0x5c, CHR 0x5c] @ ''034'' @ [CHR 0x5c, CHR 0x5c] @ ''000'' @
       txt_sep @ txt_sep @ ''a'' @ [CHR 0x22] @ '' ] ''"
proof -
  have w: "txt_wire [[34, 0], [], [97]] = [2, 34, 0, 0, 1, 97]" by code_simp
  have t: "txt_text [34, 0] = [CHR 0x5c, CHR 0x5c] @ ''034'' @ [CHR 0x5c, CHR 0x5c] @ ''000''" "txt_text [] = []" "txt_text [97] = ''a''"
    by code_simp+
  show ?thesis using print_txt_json_exact[of "[34, 0]" "[[], [97]]"] unfolding w t by (simp add: t)
qed


end
