(* ===== verification/Dns_Tcp.thy ===== *)
theory Dns_Tcp
  imports Dns_Reply
begin

text \<open>
  DNS over TCP, from \<^verbatim>\<open>eperd/evtdig.c\<close>: \<open>tcp_readcb\<close> reads the length of a reply and collects
  the reply from the connection, or from a recorded log.  The lemmas show that
  a reply is reported however TCP cuts it into pieces once the length has
  arrived in one piece, and that a recorded connection replays to the same
  events.
\<close>


section \<open>Model\<close>

definition RESP_LENGTH :: u32 where "RESP_LENGTH = 6"
definition RESP_DATA :: u32 where "RESP_DATA = 7"
definition RESP_TIMEOUT :: u32 where "RESP_TIMEOUT = 9"

text \<open>
  The fields of \<open>struct query_state\<close> the callback works on.  \<open>log_out\<close> is the log that is
  written when \<open>response_out\<close> is set.
\<close>

record tcp_query =
  tcp_id :: u16
  wire_size :: nat
  packet :: buf
  tcp_err :: string
  log_out :: "bytes option"

text \<open>What the callback reads: the input buffer of the connection, or a log.\<close>

datatype tcp_source = Net bytes | Replay resp_reader

text \<open>
  How a call ends: waiting for more, with an error reported by \<^verbatim>\<open>printReply (qry, 0, NULL)\<close>,
  with the reply passed to \<open>printReply\<close>, or with a call of \<open>noreply_callback\<close>.
\<close>

datatype tcp_event = Waiting | Failed | Replied bytes | Timed_out

definition add_err :: "string \<Rightarrow> string \<Rightarrow> tcp_query \<Rightarrow> tcp_query" where
  "add_err pre msg q = q\<lparr>tcp_err := tcp_err q @
     snprintf DEFAULT_LINE_LENGTH (pre @ (if tcp_err q = [] then [] else '', '') @ msg)\<rparr>"

definition log_response :: "u32 \<Rightarrow> bytes \<Rightarrow> tcp_query \<Rightarrow> tcp_query" where
  "log_response ty d q = q\<lparr>log_out := map_option (\<lambda>f. write_response f ty d) (log_out q)\<rparr>"

text \<open>The next piece of data, at most 256 bytes of the connection or one record of a log.\<close>

fun read_data :: "tcp_source \<Rightarrow> (bytes \<times> tcp_source) outcome" where
  "read_data (Net input) = Done (take DEFAULT_LINE_LENGTH input, Net (drop DEFAULT_LINE_LENGTH input))"
| "read_data (Replay s) =
     bindO (read_response_file s RESP_DATA (of_nat (DEFAULT_LINE_LENGTH + 1))) (\<lambda>(d, s'). Done (d, Replay s'))"

fun source_size :: "tcp_source \<Rightarrow> nat" where
  "source_size (Net input) = length input"
| "source_size (Replay s) = length (resp_file s)"

lemma read_response_file_shrinks:
  "read_response_file s ty sz = Done (d, s') \<Longrightarrow> length (resp_file s') < length (resp_file s)"
  by (auto simp: read_response_file_def bindO_def read_exactly_def Let_def split: if_splits option.splits)

lemma read_data_shrinks: "read_data src = Done (d, src') \<Longrightarrow> d \<noteq> [] \<Longrightarrow> source_size src' < source_size src"
  by (cases src) (auto simp: bindO_def DEFAULT_LINE_LENGTH_def dest: read_response_file_shrinks split: outcome.splits prod.splits)

definition id_of :: "buf \<Rightarrow> u16" where
  "id_of b = be16 (data b ! 0) (data b ! 1)"

function tcp_loop :: "(nat \<Rightarrow> bool) \<Rightarrow> tcp_query \<Rightarrow> tcp_source \<Rightarrow> (tcp_event \<times> tcp_query \<times> tcp_source) outcome" where
  "tcp_loop malloc q src =
     (case read_data src of
        Abort r \<Rightarrow> Abort r
      | Fail \<Rightarrow> Fail
      | Done (d, src') \<Rightarrow>
          if d = [] then Done (case src of Net _ \<Rightarrow> Waiting | Replay _ \<Rightarrow> Timed_out, q, src')
          else let q1 = log_response RESP_DATA d q;
                   q2 = q1\<lparr>packet := snd (buf_add malloc (packet q1) d)\<rparr> in
            if wire_size q2 = buf.size (packet q2) then
              if id_of (packet q2) = tcp_id q2 then Done (Replied (data (packet q2)), q2, src')
              else Done (Failed, add_err '' '' ('' '' @ quoted ''idmismatch'' @ '' : '' @
                     quoted (''mismatch id from tcp fd '' @ print_dec (length d))) q2, src')
            else tcp_loop malloc q2 src')"
  by pat_completeness auto
termination
  by (relation "measure (\<lambda>(malloc, q, src). source_size src)") (auto dest: read_data_shrinks)

declare tcp_loop.simps [simp del]

text \<open>
  The length of the reply, when it is not yet known.  \<open>None\<close> stands for a recorded timeout.
\<close>

definition take_length :: "u8 \<Rightarrow> u8 \<Rightarrow> tcp_query \<Rightarrow> tcp_query" where
  "take_length b0 b1 q = (log_response RESP_LENGTH [b0, b1] q)\<lparr>wire_size := unat (ldns_read_uint16 b0 b1), packet := buf_init (-1)\<rparr>"

fun read_length :: "tcp_query \<Rightarrow> tcp_source \<Rightarrow> (tcp_query option \<times> tcp_source) outcome" where
  "read_length q (Net (b0 # b1 # input)) = Done (Some (take_length b0 b1 q), Net input)"
| "read_length q (Net input) =
     Done (Some (add_err [] ('' '' @ quoted ''TCPREAD'' @ '' : '' @
       quoted (''expected 2 bytes and got '' @ print_dec (length input))) q), Net [])"
| "read_length q (Replay s) =
     bindO (peek_response_file s) (\<lambda>(type, s1).
       if type = RESP_TIMEOUT then Done (None, Replay s1)
       else bindO (read_response_file s1 RESP_LENGTH 2) (\<lambda>(d, s2).
         case d of [b0, b1] \<Rightarrow> Done (Some (take_length b0 b1 q), Replay s2)
         | _ \<Rightarrow> Abort (Fatal ''tcp_readcb: error reading'')))"

definition tcp_readcb :: "(nat \<Rightarrow> bool) \<Rightarrow> tcp_query \<Rightarrow> tcp_source \<Rightarrow> (tcp_event \<times> tcp_query \<times> tcp_source) outcome" where
  "tcp_readcb malloc q src =
     (if buf.size (packet q) \<noteq> 0 \<and> wire_size q \<le> buf.size (packet q)
      then Done (Failed, add_err [] ('' '' @ quoted ''TCPREADSIZE'' @ '' :  '' @
             quoted (''red more bytes than expected '' @ print_dec (wire_size q) @ '', got '' @ print_dec (buf.size (packet q)))) q, src)
      else bindO (if wire_size q = 0 then read_length q src else Done (Some q, src)) (\<lambda>(r, src1).
        case r of
          None \<Rightarrow> Done (Timed_out, q, src1)
        | Some q1 \<Rightarrow>
            if wire_size q1 < sizeof_DNS_HEADER
            then Done (Failed, add_err [] ('' '' @ quoted ''TCPREADSIZE'' @ '' :  '' @
                   quoted (''reply too small, got '' @ print_dec (wire_size q1))) q1, src1)
            else tcp_loop malloc q1 src1))"

definition tcp_init :: "u16 \<Rightarrow> bytes option \<Rightarrow> tcp_query" where
  "tcp_init i out = \<lparr>tcp_id = i, wire_size = 0, packet = buf_init (-1), tcp_err = [], log_out = out\<rparr>"

text \<open>
  The callback as the event loop calls it, each time new data have been added to
  the input buffer, until the measurement has ended.
\<close>

fun tcp_run :: "(nat \<Rightarrow> bool) \<Rightarrow> tcp_query \<Rightarrow> bytes \<Rightarrow> bytes list \<Rightarrow> (tcp_event list \<times> tcp_query) outcome" where
  "tcp_run malloc q inbuf [] = Done ([], q)"
| "tcp_run malloc q inbuf (c # cs) =
     bindO (tcp_readcb malloc q (Net (inbuf @ c))) (\<lambda>(ev, q', src).
       case (ev, src) of
         (Waiting, Net rest) \<Rightarrow> bindO (tcp_run malloc q' rest cs) (\<lambda>(evs, q''). Done (ev # evs, q''))
       | _ \<Rightarrow> Done ([ev], q'))"


section \<open>Collecting a reply\<close>

text \<open>The state after the bytes \<open>p\<close> of a reply of length \<open>L\<close>.\<close>

definition collected :: "nat \<Rightarrow> u16 \<Rightarrow> bytes \<Rightarrow> tcp_query \<Rightarrow> bool" where
  "collected L i p q \<longleftrightarrow> wire_size q = L \<and> tcp_id q = i \<and> buf_ok (packet q) \<and> offset (packet q) = 0 \<and> data (packet q) = p"

lemma buf_add_data:
  assumes "buf_ok b" "offset b = 0"
  shows "buf_ok (snd (buf_add (\<lambda>_. True) b d))" "offset (snd (buf_add (\<lambda>_. True) b d)) = 0"
    "data (snd (buf_add (\<lambda>_. True) b d)) = data b @ d"
  using assms by (auto simp: buf_add_def buf_ok_def Let_def)

text \<open>The pieces of the input that the loop logs.\<close>

definition pieces :: "bytes list \<Rightarrow> bytes \<Rightarrow> bool" where
  "pieces ds input \<longleftrightarrow> concat ds = input \<and> list_all (\<lambda>d. d \<noteq> [] \<and> length d \<le> DEFAULT_LINE_LENGTH) ds"

definition data_log :: "bytes list \<Rightarrow> bytes" where
  "data_log ds = concat (map (\<lambda>d. record_bytes (RESP_DATA, d)) ds)"

lemma tcp_loop_net:
  assumes "collected L i p q" "length p < L" "length p + length input \<le> L" "be16 ((p @ input) ! 0) ((p @ input) ! 1) = i \<or> length p + length input < L"
  shows "\<exists>q' ds. tcp_loop (\<lambda>_. True) q (Net input) =
      Done (if length p + length input = L then Replied (p @ input) else Waiting, q', Net []) \<and>
    collected L i (p @ input) q' \<and> pieces ds input \<and> log_out q' = map_option (\<lambda>f. f @ data_log ds) (log_out q)"
  using assms
proof (induction "length input" arbitrary: input p q rule: less_induct)
  case less
  show ?case
  proof (cases "input = []")
    case True
    then show ?thesis using less.prems
      by (subst tcp_loop.simps) (auto simp: pieces_def data_log_def option.map_ident intro!: exI[of _ "[]"])
  next
    case ne: False
    let ?d = "take DEFAULT_LINE_LENGTH input" and ?r = "drop DEFAULT_LINE_LENGTH input"
    define q1 where "q1 = log_response RESP_DATA ?d q"
    define q2 where "q2 = q1\<lparr>packet := snd (buf_add (\<lambda>_. True) (packet q1) ?d)\<rparr>"
    have d: "?d \<noteq> []" using ne by (simp add: DEFAULT_LINE_LENGTH_def)
    have c: "collected L i (p @ ?d) q2" using less.prems(1) buf_add_data[of "packet q" ?d]
      by (simp add: collected_def q2_def q1_def log_response_def)
    have sz: "buf.size (packet q2) = length (p @ ?d)" "wire_size q2 = L" "data (packet q2) = p @ ?d" "tcp_id q2 = i"
      using c by (auto simp: collected_def buf_ok_def)
    have lg: "log_out q2 = map_option (\<lambda>f. f @ record_bytes (RESP_DATA, ?d)) (log_out q)"
      by (simp add: q2_def q1_def log_response_def write_response_record option.map_comp comp_def)
    have s: "tcp_loop (\<lambda>_. True) q (Net input) =
        (if L = length (p @ ?d) then
           if be16 ((p @ ?d) ! 0) ((p @ ?d) ! 1) = i then Done (Replied (p @ ?d), q2, Net ?r)
           else Done (Failed, add_err '' '' ('' '' @ quoted ''idmismatch'' @ '' : '' @
                  quoted (''mismatch id from tcp fd '' @ print_dec (length ?d))) q2, Net ?r)
         else tcp_loop (\<lambda>_. True) q2 (Net ?r))"
      using d sz unfolding q2_def q1_def by (subst tcp_loop.simps) (simp add: Let_def id_of_def)
    show ?thesis
    proof (cases "?r = []")
      case True
      then have di: "?d = input" by (metis append_Nil2 append_take_drop_id)
      show ?thesis
      proof (cases "length p + length input = L")
        case eq: True
        then have "be16 ((p @ input) ! 0) ((p @ input) ! 1) = i" using less.prems(4) by simp
        then have "tcp_loop (\<lambda>_. True) q (Net input) = Done (Replied (p @ input), q2, Net [])"
          using s eq True unfolding di by simp
        moreover have "pieces [?d] input" using d di by (simp add: pieces_def)
        ultimately show ?thesis using c lg eq unfolding di
          by (intro exI[of _ q2] exI[of _ "[input]"]) (simp add: data_log_def)
      next
        case False
        then have "tcp_loop (\<lambda>_. True) q (Net input) = tcp_loop (\<lambda>_. True) q2 (Net [])" using s True unfolding di by simp
        moreover have "tcp_loop (\<lambda>_. True) q2 (Net []) = Done (Waiting, q2, Net [])" by (subst tcp_loop.simps) simp
        moreover have "pieces [?d] input" using d di by (simp add: pieces_def)
        ultimately show ?thesis using c lg False unfolding di
          by (intro exI[of _ q2] exI[of _ "[input]"]) (simp add: data_log_def)
      qed
    next
      case False
      have l: "length (p @ ?d) < L" using False less.prems(3) by (simp add: min_def)
      have a: "(p @ ?d) @ ?r = p @ input" by simp
      have ll: "length (p @ ?d) + length ?r = length p + length input" by simp
      have "length ?r < length input" using ne by (simp add: DEFAULT_LINE_LENGTH_def)
      from less.hyps[OF this c l, unfolded a ll] less.prems(3,4)
      obtain q' ds where ih: "tcp_loop (\<lambda>_. True) q2 (Net ?r) =
          Done (if length p + length input = L then Replied (p @ input) else Waiting, q', Net [])"
          "collected L i (p @ input) q'" "pieces ds ?r" "log_out q' = map_option (\<lambda>f. f @ data_log ds) (log_out q2)"
        by blast
      have "pieces (?d # ds) input" using ih(3) d by (auto simp: pieces_def)
      moreover have "log_out q' = map_option (\<lambda>f. f @ data_log (?d # ds)) (log_out q)"
        using ih(4) unfolding lg by (simp add: option.map_comp comp_def data_log_def)
      ultimately show ?thesis using ih(1,2) l s by (intro exI[of _ q'] exI[of _ "?d # ds"]) auto
    qed
  qed
qed

lemma tcp_readcb_more:
  assumes "collected L i p q" "length p < L" "12 \<le> L"
  shows "tcp_readcb (\<lambda>_. True) q (Net input) = tcp_loop (\<lambda>_. True) q (Net input)"
proof -
  have "buf.size (packet q) = length p" "wire_size q = L" using assms(1) by (auto simp: collected_def buf_ok_def)
  then show ?thesis using assms(2,3) by (simp add: tcp_readcb_def bindO_def query_sizes)
qed

lemma tcp_run_more:
  assumes "collected L i p q" "length p < L" "12 \<le> L" "p @ concat cs = msg" "length msg = L" "be16 (msg ! 0) (msg ! 1) = i"
    "list_all (\<lambda>c. c \<noteq> []) (tl cs)"
  shows "\<exists>q' ds. tcp_run (\<lambda>_. True) q [] cs = Done (replicate (length cs - 1) Waiting @ [Replied msg], q') \<and>
    concat ds = concat cs \<and> list_all (\<lambda>d. d \<noteq> [] \<and> length d \<le> DEFAULT_LINE_LENGTH) ds \<and>
    log_out q' = map_option (\<lambda>f. f @ data_log ds) (log_out q)"
  using assms
proof (induction cs arbitrary: p q)
  case Nil
  then show ?case by simp
next
  case (Cons c cs)
  have le: "length p + length c \<le> L" using Cons.prems(4,5) by auto
  have full: "length p + length c = L \<longleftrightarrow> cs = []"
  proof
    assume "length p + length c = L"
    then have "concat cs = []" using Cons.prems(4,5) by auto
    then show "cs = []" using Cons.prems(7) by (cases cs) auto
  next
    assume "cs = []"
    then show "length p + length c = L" using Cons.prems(4,5) by auto
  qed
  have idc: "be16 ((p @ c) ! 0) ((p @ c) ! 1) = i \<or> length p + length c < L"
    using full le Cons.prems(4,6) by (cases cs) auto
  from tcp_loop_net[OF Cons.prems(1,2) le idc]
  obtain q1 ds1 where s1: "tcp_loop (\<lambda>_. True) q (Net c) = Done (if length p + length c = L then Replied (p @ c) else Waiting, q1, Net [])"
      "collected L i (p @ c) q1" "pieces ds1 c" "log_out q1 = map_option (\<lambda>f. f @ data_log ds1) (log_out q)"
    by blast
  note r = tcp_readcb_more[OF Cons.prems(1-3), of c]
  show ?case
  proof (cases "cs = []")
    case True
    then show ?thesis using s1 full r Cons.prems(4) unfolding pieces_def
      by (intro exI[of _ q1] exI[of _ ds1]) (simp add: bindO_def)
  next
    case False
    then have lt: "length (p @ c) < L" using full le by simp
    have "(p @ c) @ concat cs = msg" using Cons.prems(4) by simp
    moreover have "list_all (\<lambda>c. c \<noteq> []) (tl cs)" using Cons.prems(7) by (cases cs) auto
    ultimately have h: "(p @ c) @ concat cs = msg" "list_all (\<lambda>c. c \<noteq> []) (tl cs)" by auto
    from Cons.IH[OF s1(2) lt Cons.prems(3) h(1) Cons.prems(5,6) h(2)]
    obtain q' ds where ih: "tcp_run (\<lambda>_. True) q1 [] cs = Done (replicate (length cs - 1) Waiting @ [Replied msg], q')"
        "concat ds = concat cs" "list_all (\<lambda>d. d \<noteq> [] \<and> length d \<le> DEFAULT_LINE_LENGTH) ds"
        "log_out q' = map_option (\<lambda>f. f @ data_log ds) (log_out q1)" by blast
    have "log_out q' = map_option (\<lambda>f. f @ data_log (ds1 @ ds)) (log_out q)"
      using ih(4) s1(4) by (simp add: option.map_comp comp_def data_log_def)
    moreover have "Waiting # replicate (length cs - 1) Waiting @ [Replied msg] = replicate (length (c # cs) - 1) Waiting @ [Replied msg]"
      using False by (cases cs) auto
    ultimately show ?thesis using s1(1,3) lt r ih(1-3)
      by (intro exI[of _ q'] exI[of _ "ds1 @ ds"]) (simp add: bindO_def pieces_def)
  qed
qed

text \<open>The first piece brings the length, and the rest of the piece is collected at once.\<close>

lemma tcp_run_start:
  assumes "concat (c # cs) = ldns_write_uint16 (of_nat (length msg)) @ msg" "12 \<le> length msg" "length msg < 65536"
    "2 \<le> length c" "list_all (\<lambda>c. c \<noteq> []) cs" "be16 (msg ! 0) (msg ! 1) = i"
  shows "\<exists>q' ds. tcp_run (\<lambda>_. True) (tcp_init i out) [] (c # cs) = Done (replicate (length cs) Waiting @ [Replied msg], q') \<and>
    concat ds = msg \<and> list_all (\<lambda>d. d \<noteq> [] \<and> length d \<le> DEFAULT_LINE_LENGTH) ds \<and>
    log_out q' = map_option (\<lambda>f. f @ record_bytes (RESP_LENGTH, ldns_write_uint16 (of_nat (length msg))) @ data_log ds) out"
proof -
  let ?L = "length msg"
  obtain b0 b1 where b: "ldns_write_uint16 (of_nat ?L) = [b0, b1]" by (simp add: ldns_write_uint16_def)
  obtain c' where c: "c = b0 # b1 # c'" using assms(1,4) b by (cases c rule: list.exhaust; cases "tl c") auto
  have u: "unat (ldns_read_uint16 b0 b1) = ?L"
    using b be16_to_be16[of "of_nat ?L"] unat_length16[OF assms(3)] by (auto simp: ldns_be16 to_be16_def)
  have m: "c' @ concat cs = msg" using assms(1) b c by simp
  define q1 where "q1 = take_length b0 b1 (tcp_init i out)"
  have c1: "collected ?L i [] q1"
    using u by (simp add: q1_def collected_def take_length_def log_response_def tcp_init_def buf_init_def buf_ok_def)
  have l1: "log_out q1 = map_option (\<lambda>f. f @ record_bytes (RESP_LENGTH, [b0, b1])) out"
    by (simp add: q1_def take_length_def log_response_def tcp_init_def write_response_record)
  have w: "\<not> wire_size q1 < 12" using c1 assms(2) by (simp add: collected_def)
  have r: "tcp_readcb (\<lambda>_. True) (tcp_init i out) (Net c) = tcp_loop (\<lambda>_. True) q1 (Net c')"
    using w by (simp add: tcp_readcb_def bindO_def c query_sizes tcp_init_def buf_init_def q1_def)
  have "0 < ?L" using assms(2) by linarith
  then have l0: "length ([] :: bytes) < ?L" by simp
  have e: "tcp_run (\<lambda>_. True) (tcp_init i out) [] (c # cs) = tcp_run (\<lambda>_. True) q1 [] (c' # cs)"
    using r tcp_readcb_more[OF c1 l0 assms(2), of c'] by simp
  from tcp_run_more[OF c1 l0 assms(2), of "c' # cs" msg] m assms(5,6)
  obtain q' ds where "tcp_run (\<lambda>_. True) q1 [] (c' # cs) = Done (replicate (length (c' # cs) - 1) Waiting @ [Replied msg], q')"
      "concat ds = concat (c' # cs)" "list_all (\<lambda>d. d \<noteq> [] \<and> length d \<le> DEFAULT_LINE_LENGTH) ds"
      "log_out q' = map_option (\<lambda>f. f @ data_log ds) (log_out q1)" by auto
  then show ?thesis unfolding e b using m l1
    by (intro exI[of _ q'] exI[of _ ds]) (simp add: option.map_comp comp_def)
qed

text \<open>
  C14: Once the two bytes of the length have arrived in the first piece, the way TCP cuts a
  reply into pieces does not matter: the callback waits through all pieces but
  the last and then reports exactly the bytes of the reply.
\<close>

theorem tcp_reply_pieces:
  assumes "concat (c # cs) = ldns_write_uint16 (of_nat (length msg)) @ msg" "12 \<le> length msg" "length msg < 65536"
    "2 \<le> length c" "list_all (\<lambda>c. c \<noteq> []) cs" "be16 (msg ! 0) (msg ! 1) = i"
  shows "\<exists>q'. tcp_run (\<lambda>_. True) (tcp_init i out) [] (c # cs) = Done (replicate (length cs) Waiting @ [Replied msg], q')"
  using tcp_run_start[OF assms] by blast

theorem tcp_reply_pieces_witness:
  "\<exists>q'. tcp_run (\<lambda>_. True) (tcp_init 258 None) [] [[0, 12, 1], [2, 0, 0], [0, 0, 0, 0, 0, 0, 0, 0]] =
     Done ([Waiting, Waiting, Replied [1, 2, 0, 0, 0, 0, 0, 0, 0, 0, 0, 0]], q')"
proof -
  let ?msg = "[1, 2, 0, 0, 0, 0, 0, 0, 0, 0, 0, 0] :: bytes"
  have "concat ([0, 12, 1] # [[2, 0, 0], [0, 0, 0, 0, 0, 0, 0, 0]]) = ldns_write_uint16 (of_nat (length ?msg)) @ ?msg" by code_simp
  moreover have "be16 (?msg ! 0) (?msg ! 1) = 258" by code_simp
  ultimately show ?thesis using tcp_reply_pieces[of "[0, 12, 1]" "[[2, 0, 0], [0, 0, 0, 0, 0, 0, 0, 0]]" ?msg 258 None] by simp
qed


section \<open>Replaying a connection\<close>

lemma read_data_record:
  assumes "before (record_bytes (RESP_DATA, d) @ rest) s" "length d \<le> DEFAULT_LINE_LENGTH"
  shows "\<exists>s'. read_data (Replay s) = Done (d, Replay s') \<and> before rest s'"
proof -
  have "length d < 2 ^ 64" using assms(2) by (simp add: DEFAULT_LINE_LENGTH_def)
  moreover have "(of_nat (length d) :: u64) \<le> of_nat (DEFAULT_LINE_LENGTH + 1)"
    using assms(2) unfolding word_le_nat_alt
    by (simp add: DEFAULT_LINE_LENGTH_def unsigned_of_nat take_bit_nat_eq_self)
  ultimately obtain s' where "read_response_file s RESP_DATA (of_nat (DEFAULT_LINE_LENGTH + 1)) = Done (d, s')" "before rest s'"
    using read_before[OF assms(1)] by blast
  then show ?thesis by (auto simp: bindO_def)
qed

lemma tcp_loop_replay:
  assumes "collected L i p q" "length p < L" "p @ concat ds = msg" "length msg = L" "be16 (msg ! 0) (msg ! 1) = i"
    "list_all (\<lambda>d. d \<noteq> [] \<and> length d \<le> DEFAULT_LINE_LENGTH) ds" "before (data_log ds @ rest) s"
  shows "\<exists>q' s'. tcp_loop (\<lambda>_. True) q (Replay s) = Done (Replied msg, q', Replay s') \<and> before rest s'"
  using assms
proof (induction ds arbitrary: p q s)
  case Nil
  then show ?case by simp
next
  case (Cons d ds)
  have d: "d \<noteq> []" "length d \<le> DEFAULT_LINE_LENGTH" using Cons.prems(6) by auto
  have "before (record_bytes (RESP_DATA, d) @ (data_log ds @ rest)) s" using Cons.prems(7) by (simp add: data_log_def)
  from read_data_record[OF this d(2)] obtain s1 where s1: "read_data (Replay s) = Done (d, Replay s1)" "before (data_log ds @ rest) s1"
    by blast
  define q2 where "q2 = (log_response RESP_DATA d q)\<lparr>packet := snd (buf_add (\<lambda>_. True) (packet (log_response RESP_DATA d q)) d)\<rparr>"
  have c: "collected L i (p @ d) q2" using Cons.prems(1) buf_add_data[of "packet q" d]
    by (simp add: collected_def q2_def log_response_def)
  have sz: "buf.size (packet q2) = length (p @ d)" "wire_size q2 = L" "data (packet q2) = p @ d" "tcp_id q2 = i"
    using c by (auto simp: collected_def buf_ok_def)
  have st: "tcp_loop (\<lambda>_. True) q (Replay s) =
      (if L = length (p @ d) then
         if be16 ((p @ d) ! 0) ((p @ d) ! 1) = i then Done (Replied (p @ d), q2, Replay s1)
         else Done (Failed, add_err '' '' ('' '' @ quoted ''idmismatch'' @ '' : '' @
                quoted (''mismatch id from tcp fd '' @ print_dec (length d))) q2, Replay s1)
       else tcp_loop (\<lambda>_. True) q2 (Replay s1))"
    using d(1) sz s1(1) unfolding q2_def by (subst tcp_loop.simps) (simp add: Let_def id_of_def)
  show ?case
  proof (cases "L = length (p @ d)")
    case True
    then have "concat ds = []" using Cons.prems(3,4) by auto
    then have "ds = []" using Cons.prems(6) by (cases ds) auto
    then show ?thesis using True st s1(2) Cons.prems(3,5) by (auto simp: data_log_def)
  next
    case False
    then have "length (p @ d) < L" using Cons.prems(3,4) by auto
    then show ?thesis using Cons.IH[OF c _ _ Cons.prems(4,5) _ s1(2)] Cons.prems(3,6) st False by simp
  qed
qed

text \<open>
  C23: A recorded connection can be replayed: when a reply was received with a log, in
  whatever pieces, the log makes a single call of the callback report the same
  reply.
\<close>

theorem tcp_replay:
  assumes "concat (c # cs) = ldns_write_uint16 (of_nat (length msg)) @ msg" "12 \<le> length msg" "length msg < 65536"
    "2 \<le> length c" "list_all (\<lambda>c. c \<noteq> []) cs" "be16 (msg ! 0) (msg ! 1) = i"
  shows "\<exists>q1 log q2 s. tcp_run (\<lambda>_. True) (tcp_init i (Some [])) [] (c # cs) = Done (replicate (length cs) Waiting @ [Replied msg], q1) \<and>
     log_out q1 = Some log \<and>
     tcp_readcb (\<lambda>_. True) (tcp_init i None) (Replay \<lparr>got_type = False, stored_type = t0, resp_file = log\<rparr>) = Done (Replied msg, q2, Replay s) \<and>
     \<not> got_type s \<and> resp_file s = []"
proof -
  obtain q1 ds where r: "tcp_run (\<lambda>_. True) (tcp_init i (Some [])) [] (c # cs) = Done (replicate (length cs) Waiting @ [Replied msg], q1)"
      "concat ds = msg" "list_all (\<lambda>d. d \<noteq> [] \<and> length d \<le> DEFAULT_LINE_LENGTH) ds"
      "log_out q1 = Some (record_bytes (RESP_LENGTH, ldns_write_uint16 (of_nat (length msg))) @ data_log ds)"
    using tcp_run_start[OF assms, of "Some []"] by auto
  obtain b0 b1 where b: "ldns_write_uint16 (of_nat (length msg)) = [b0, b1]" by (simp add: ldns_write_uint16_def)
  have u: "unat (ldns_read_uint16 b0 b1) = length msg"
    using b be16_to_be16[of "of_nat (length msg)"] unat_length16[OF assms(3)] by (auto simp: ldns_be16 to_be16_def)
  let ?s = "\<lparr>got_type = False, stored_type = t0, resp_file = record_bytes (RESP_LENGTH, [b0, b1]) @ data_log ds\<rparr>"
  have "before (record_bytes (RESP_LENGTH, [b0, b1]) @ data_log ds) ?s" by (simp add: before_def)
  from peek_before[OF this] obtain s1 where s1: "peek_response_file ?s = Done (RESP_LENGTH, s1)"
      "before (record_bytes (RESP_LENGTH, [b0, b1]) @ data_log ds) s1" by blast
  from read_before[OF s1(2), of 2] obtain s2 where s2: "read_response_file s1 RESP_LENGTH 2 = Done ([b0, b1], s2)" "before (data_log ds @ []) s2"
    by auto
  define q where "q = take_length b0 b1 (tcp_init i None)"
  have c: "collected (length msg) i [] q"
    using u by (simp add: q_def collected_def take_length_def log_response_def tcp_init_def buf_init_def buf_ok_def)
  have "length ([] :: bytes) < length msg" using assms(2) by (cases msg) auto
  from tcp_loop_replay[OF c this, of ds msg "[]" s2] r(2,3) s2(2) assms(6)
  obtain q2 s3 where l: "tcp_loop (\<lambda>_. True) q (Replay s2) = Done (Replied msg, q2, Replay s3)" "before [] s3" by auto
  have "\<not> wire_size q < 12" using c assms(2) by (simp add: collected_def)
  then have "tcp_readcb (\<lambda>_. True) (tcp_init i None) (Replay ?s) = Done (Replied msg, q2, Replay s3)"
    using s1(1) s2(1) l(1) by (simp add: tcp_readcb_def bindO_def tcp_init_def buf_init_def query_sizes q_def RESP_LENGTH_def RESP_TIMEOUT_def)
  moreover have "\<not> got_type s3 \<and> resp_file s3 = []" using l(2) by (auto simp: before_def split: if_splits dest: arg_cong[of _ _ length])
  ultimately show ?thesis using r(1,4) b by auto
qed

theorem tcp_replay_witness:
  "\<exists>q1 log q2 s. tcp_run (\<lambda>_. True) (tcp_init 258 (Some [])) [] [[0, 12, 1], [2, 0, 0, 0, 0, 0, 0, 0, 0, 0, 0]] =
       Done ([Waiting, Replied [1, 2, 0, 0, 0, 0, 0, 0, 0, 0, 0, 0]], q1) \<and>
     log_out q1 = Some log \<and>
     tcp_readcb (\<lambda>_. True) (tcp_init 258 None) (Replay \<lparr>got_type = False, stored_type = 0, resp_file = log\<rparr>) =
       Done (Replied [1, 2, 0, 0, 0, 0, 0, 0, 0, 0, 0, 0], q2, Replay s) \<and> \<not> got_type s \<and> resp_file s = []"
proof -
  let ?msg = "[1, 2, 0, 0, 0, 0, 0, 0, 0, 0, 0, 0] :: bytes"
  have "concat ([0, 12, 1] # [[2, 0, 0, 0, 0, 0, 0, 0, 0, 0, 0]]) = ldns_write_uint16 (of_nat (length ?msg)) @ ?msg" by code_simp
  moreover have "be16 (?msg ! 0) (?msg ! 1) = 258" by code_simp
  ultimately show ?thesis using tcp_replay[of "[0, 12, 1]" "[[2, 0, 0, 0, 0, 0, 0, 0, 0, 0, 0]]" ?msg 258 0] by simp
qed

end
