(* ===== verification/Spec2Isabelle.thy ===== *)
theory Spec2Isabelle
  imports Check_Addr Tls_Hostcheck Http2_Input Eooqd Eperd Dns_Tcp
begin

text \<open>
  Verification of the RIPE Atlas software probe.

  \<^bold>\<open>The program.\<close>  A probe runs network measurements that a controller asks for.
  Two daemons start them: \<^verbatim>\<open>eperd\<close> runs periodic measurements from tables that
  it reads again when they change, \<^verbatim>\<open>eooqd\<close> runs one-off measurements from a
  queue file.  Both split the lines of these files into arguments, call a
  built-in measurement and append its result to a file below the data
  directories.  The file names that measurements are given are checked before
  use, and so are the addresses they may contact.  The DNS measurement builds a
  query, sends it over UDP, TCP, TLS or HTTP/2, takes the reply apart and prints it; it
  can record what it received and replay the recording.  All paths below are
  relative to \<^verbatim>\<open>src/probe-busybox\<close>.

  \<^bold>\<open>Theories and sources.\<close>

  \<^item> \<open>Probe_Prelude\<close>: names for the C integer types, the outcome of a C function (a
    value, a failure, or leaving the defined behaviour of C), the string functions
    of the C library, big-endian fields, bit lists, and the lemmas the other
    theories share.  \<open>Bit_Window\<close>: a machine word as a window on a bit stream.
    \<open>Byte_Sink\<close>: the locale \<open>byte_sink\<close>, the contract of a buffer that grows.
  \<^item> \<open>Validate\<close>: \<^verbatim>\<open>libbb/validate_filename.c\<close>, \<^verbatim>\<open>libbb/validate_atlas_id.c\<close> and
    \<^verbatim>\<open>libbb/atlas_unsafe.c\<close>.  The locale \<open>path_guard\<close> is what the daemons rely on; it is
    interpreted for the directories for new results and for results to send.
  \<^item> \<open>Check_Addr\<close>: \<^verbatim>\<open>libbb/atlas_check_addr.c\<close>.
  \<^item> \<open>Bb64\<close>: \<open>struct buf\<close> and base64 of \<^verbatim>\<open>libbb/atlas_bb64.c\<close>, an interpretation of \<open>byte_sink\<close>.
  \<^item> \<open>Tls_Hostcheck\<close>: \<^verbatim>\<open>eperd/tls-hostcheck.c\<close> and \<^verbatim>\<open>eperd/tls_hostname_validation.c\<close>.
  \<^item> \<open>Http2_Env\<close>, \<open>Hpack_Int\<close>, \<open>Huffman_Table\<close>, \<open>Huffman\<close>, \<open>Hpack\<close>, \<open>Http2\<close>, \<open>Http2_Input\<close>: the
    client of \<^verbatim>\<open>eperd/http2.c\<close>, from the record \<open>http2_env\<close> for \<open>struct http2_env\<close> up to the reader
    \<open>http2_dns_input\<close> and the request \<open>send_request2\<close>, with \<open>http2_reply_cb\<close> of \<^verbatim>\<open>eperd/evtdig.c\<close>.  The locales
    \<open>h2_invariant\<close>, \<open>header_invariant\<close> and \<open>frame_invariant\<close> say what an invariant of the
    state needs so that every frame keeps it; each invariant is an
    interpretation.
  \<^item> \<open>Cmdline\<close>: splitting of command lines in \<^verbatim>\<open>eperd/eooqd.c\<close> and \<^verbatim>\<open>eperd/eperd.c\<close>.  \<open>Probe_Files\<close>: files, the
    clock and the configuration of name servers as both daemons see them.
    \<open>Parse_Config\<close>: \<^verbatim>\<open>libbb/parse_config.c\<close>.
  \<^item> \<open>Eooqd\<close>: \<^verbatim>\<open>eperd/eooqd.c\<close>.  The callbacks are functions on the record \<open>ooqd\<close>, the event loop
    is a step relation, and the locale \<open>ooqd_invariant\<close> gives what holds in every reachable
    state from what each callback keeps.
  \<^item> \<open>Eperd\<close>: \<^verbatim>\<open>eperd/eperd.c\<close>, with a record for a table line (\<open>CronLine\<close>) and a step relation for the
    timers and the reading of tables.
  \<^item> \<open>Sha256\<close>: SHA-256 of \<^verbatim>\<open>libbb/hash_md5_sha.c\<close>.  The locale \<open>block_function\<close> is what the buffering code
    needs of the function for a block of 64 bytes; it is interpreted for
    \<open>sha256_process_block64\<close> and the compression function of the standard.
  \<^item> \<open>Response_Log\<close>: \<^verbatim>\<open>libbb/atlas_write_response.c\<close> and \<^verbatim>\<open>libbb/atlas_read_response.c\<close>.
  \<^item> \<open>Dns_Names\<close>, \<open>Dns_Query\<close>, \<open>Dns_Reply\<close>, \<open>Dns_Tcp\<close>: from \<^verbatim>\<open>eperd/evtdig.c\<close> the names of DNS messages
    (\<open>ReadName\<close>, \<open>ChangetoDnsNameFormat\<close>), the query with its options and cookies (\<open>mk_dns_buff\<close>,
    \<open>get_edns_opt\<close>, \<open>update_server_cookie\<close>), the answers in the printed result (the middle part of
    \<open>printReply\<close>, and \<open>print_txt_json\<close>), and the callback for TCP (\<open>tcp_readcb\<close>).

  \<^bold>\<open>State and effects.\<close>  A C structure is a record with the fields the modelled code
  uses.  A block on the heap is the list of its bytes, next to the fields in which
  the code keeps its length and its capacity; an access outside the block is
  the outcome \<open>Abort\<close>, and the theorems whose names end in \<open>_inside\<close> say when it occurs.
  Files are maps or lists of bytes, connections are lists of the bytes that
  have arrived.  What the code takes from the environment (variables, the clock,
  random numbers, memory allocation, the measurements behind their interface, the
  names that OpenSSL extracts from a certificate) are arguments of the definitions.
  Integers have the width of the C type where the code depends on it.

  \<^bold>\<open>What is shown.\<close>

  \<^item> Files and addresses: a file name is accepted exactly when it lies below the
    required directory, and no accepted name resolves outside; the address
    filter refuses exactly the listed prefixes.
  \<^item> Daemons: \<open>eooqd\<close> keeps its counter of slots equal to the slots in use, starts
    commands behind a barrier only when all before it have ended, reads every byte of a
    queue file once and empties it; \<open>eperd\<close> keeps exactly the jobs of its
    tables and starts them exactly when their time has come.
  \<^item> HTTP/2: the reader splits the stream into frames however the bytes are cut into
    pieces, returns for every input, and keeps the state well formed; the
    Huffman and integer decoders agree with RFC 7541; accesses stay inside the
    blocks except for named defects, each exhibited by a concrete input.
  \<^item> DNS: a query is exactly the message that its options ask for, and the readers of
    the program find in it what was written; the reader of names ends for every
    message and returns exactly what labels and pointers spell; server cookies
    are remembered and sent again; a reply over TCP is reported however it is cut
    into pieces, and its recording replays to the same reply.
  \<^item> SHA-256 with its buffering implements FIPS 180-2, and its tables hold the
    constants of the standard.
  \<^item> Host names: wildcard matching and the choice of the names of a certificate are
    equal to a specification over lists of labels.

  \<^bold>\<open>Bounds.\<close>  No definition uses fuel.  Loops are structural recursions or have a
  termination proof; the reader of DNS names ends because the code counts its
  jumps.  Two loops are partial functions, with not returning as the value \<open>None\<close>: the loop
  over the frames, which is shown to return for every input on a connection,
  and the drawing of a random number, which is shown to end with a draw in range.
  Limits that appear in statements are those of the code: 63
  arguments of a command, lines of 256 bytes, 257 jumps and 255 characters of a
  name, 512 bytes for a DNS query and 5120 for a reply over UDP, windows of 31 bits.

  \<^bold>\<open>Not modelled.\<close>  The measurements other than DNS (\<^verbatim>\<open>traceroute.c\<close>, \<^verbatim>\<open>ping.c\<close>, \<^verbatim>\<open>ntp.c\<close>, \<^verbatim>\<open>httpget.c\<close>,
  \<^verbatim>\<open>sslgetcert.c\<close>, \<^verbatim>\<open>evtlsscan.c\<close>) and the control flow of \<^verbatim>\<open>evtdig.c\<close> (options, resolving, sockets, TLS,
  timers, the members of a result other than the answers), because they consist
  of calls into raw sockets, OpenSSL and libevent, whose behaviour is not part of the
  sources; libevent itself, which is a vendored library; the programs of
  \<^verbatim>\<open>networking\<close>, \<^verbatim>\<open>coreutils\<close> and \<^verbatim>\<open>miscutils\<close> around the measurements; the BusyBox applets, option
  parsing and archive code; start scripts and packaging.  Output to the log of a daemon and
  to standard error is left out everywhere.
\<close>

end
